(* ===== verification/Prelude.thy ===== *)
theory Prelude
  imports Main "HOL-Library.Word" "HOL-Library.AList" "HOL-Library.Signed_Division"
begin

text \<open>
  The vocabulary the component theories share: the machine types of the Go sources, the
  errors and panics they can end in, sequencing of fallible code, and the generic facts on
  words, lists and association lists that the component proofs use.
\<close>

section \<open>Machine types\<close>

text \<open>
  An unsigned Go integer is a word, so that \<open>+\<close>, \<open>-\<close> and \<open>*\<close> wrap as they do in Go.
  A 32-byte array (block root, payload hash, data root) is the 256-bit number its bytes
  spell in big-endian order: equality of arrays is equality of words and
  \<^verbatim>\<open>bytes.Compare\<close> on two arrays is the order of the words. The all-zero array is \<open>0\<close>.
\<close>

type_synonym u8 = "8 word"
type_synonym u16 = "16 word"
type_synonym u64 = "64 word"
type_synonym bytes32 = "256 word"
type_synonym Slot = u64
type_synonym Epoch = u64
type_synonym ValidatorIndex = u64

text \<open>
  A signed Go integer (\<^verbatim>\<open>int\<close>, \<^verbatim>\<open>int64\<close>, \<^verbatim>\<open>time.Duration\<close>) is an integer kept in the
  range of 64-bit two's complement by \<open>i64\<close>, which is what a Go operation on such a value
  does to its mathematical result.
\<close>

definition i64 :: "int \<Rightarrow> int" where
  "i64 x = signed_take_bit 63 x"

abbreviation MaxInt :: int where "MaxInt \<equiv> 2 ^ 63 - 1"
abbreviation MinInt :: int where "MinInt \<equiv> - (2 ^ 63)"
abbreviation MaxUint64 :: u64 where "MaxUint64 \<equiv> 18446744073709551615"

section \<open>Errors, panics and their propagation\<close>

text \<open>
  The errors the modelled code returns. \<^verbatim>\<open>errors.Wrap\<close> keeps its cause, so a wrapped error
  is its cause here. \<open>Panic\<close> is a Go panic (an explicit one, a division by zero, a nil
  dereference); it unwinds through every caller, also through one that discards errors.
  \<open>OutOfFuel\<close> is not an outcome of the code: it marks a recursion bound of the model that
  was too small, and the component theories prove it does not occur.
\<close>

datatype goerror =
    Panic
  | OutOfFuel
  | ErrCtx
  | ErrOverflow | ErrDivByZero | ErrMulOverflow | ErrAddOverflow | ErrSubUnderflow
  | ErrBufferLength
  | ErrFarFutureSlot | ErrSlotFromFuture | ErrMaxSlot | ErrInvalidTimestamp
  | ErrNilNode | ErrInvalidParentRoot | ErrInvalidProposerBoostRoot
  | ErrUnknownFinalizedRoot | ErrUnknownJustifiedRoot | ErrInvalidOptimisticStatus
  | ErrInvalidNilCheckpoint | ErrInvalidUnrealizedJustifiedEpoch
  | ErrInvalidUnrealizedFinalizedEpoch | ErrUnknownCommonAncestor | ErrHeadNotEligible
  | ErrBalances | ErrExecutionPayload
  | ErrChunkLength | ErrCellIndex | ErrBaseEpoch | ErrDatabase | ErrWrongType
  | ErrEpochToWrite | ErrMissingChunk | ErrChunkCount | ErrNoRecord | ErrOutsideHistory
  | ErrNilSlashing | ErrNilAttestation | ErrNilData | ErrNotSlashable | ErrEmptyIndices | ErrTooManyIndices
  | ErrUnsortedIndices | ErrNilHeader | ErrMismatch | ErrSameHeader | ErrValidatorIndex
  | ErrValidatorNotSlashable | ErrSignature | ErrNoneSlashed | ErrAlreadyPending
  | ErrAlreadyInProgress | ErrNotFound | ErrAlreadyExited | ErrNotSupported | ErrOutOfBounds | ErrNoActiveIndices
  | ErrNilActiveIndices | ErrLength | ErrNilExit | ErrNotActive | ErrExitEpoch | ErrTooEarly | ErrPendingBalance
  | ErrShuffleIndex | ErrListSize | ErrDepth | ErrNoItems | ErrIndexTooBig | ErrMaxLength

type_synonym 'a result = "goerror + 'a"

text \<open>Continue with the value, or stop at the error.\<close>

definition rbind :: "'a result \<Rightarrow> ('a \<Rightarrow> 'b result) \<Rightarrow> 'b result" where
  "rbind r f = (case r of Inl e \<Rightarrow> Inl e | Inr x \<Rightarrow> f x)"

lemma rbind_simps [simp]:
  "rbind (Inl e) f = Inl e"
  "rbind (Inr x) f = f x"
  by (simp_all add: rbind_def)

lemma rbind_eq_Inr: "rbind r f = Inr y \<longleftrightarrow> (\<exists>x. r = Inr x \<and> f x = Inr y)"
  by (cases r) auto

text \<open>
  A Go method that mutates its receiver and returns an error leaves the mutations it made
  before the error. Such a method returns its outcome together with the state it leaves.
\<close>

type_synonym ('s, 'a) outcome = "'a result \<times> 's"

definition obind :: "('s, 'a) outcome \<Rightarrow> ('a \<Rightarrow> 's \<Rightarrow> ('s, 'b) outcome) \<Rightarrow> ('s, 'b) outcome" where
  "obind m f = (case m of (Inl e, s) \<Rightarrow> (Inl e, s) | (Inr x, s) \<Rightarrow> f x s)"

lemma obind_simps [simp]:
  "obind (Inl e, s) f = (Inl e, s)"
  "obind (Inr x, s) f = f x s"
  by (simp_all add: obind_def)

text \<open>
  The errors a caller sees as a value and can go on from; a panic unwinds through it, and
  an exhausted recursion bound is no result of the code at all.
\<close>

definition goValue :: "goerror \<Rightarrow> bool" where
  "goValue e \<longleftrightarrow> e \<noteq> Panic \<and> e \<noteq> OutOfFuel"

lemma obind_eq_Inr:
  "obind m f = (Inr y, s') \<longleftrightarrow> (\<exists>x s. m = (Inr x, s) \<and> f x s = (Inr y, s'))"
  by (cases m; cases "fst m") (auto simp: obind_def split: sum.splits)

text \<open>A step that can fail, over the elements of a list in their order.\<close>

primrec rfold :: "('a \<Rightarrow> 's \<Rightarrow> 's result) \<Rightarrow> 'a list \<Rightarrow> 's \<Rightarrow> 's result" where
  "rfold f [] s = Inr s"
| "rfold f (x # xs) s = rbind (f x s) (rfold f xs)"

lemma rfold_sim:
  assumes "\<And>x a st. x \<in> set xs \<Longrightarrow> I a st \<Longrightarrow> \<exists>st'. f x st = Inr st' \<and> I (g x a) st'" and "I a st"
  shows "\<exists>st'. rfold f xs st = Inr st' \<and> I (fold g xs a) st'"
  using assms
proof (induction xs arbitrary: a st)
  case (Cons x xs)
  obtain st1 where "f x st = Inr st1" "I (g x a) st1" using Cons.prems by (metis list.set_intros(1))
  moreover from this have "\<exists>st'. rfold f xs st1 = Inr st' \<and> I (fold g xs (g x a)) st'"
    using Cons.prems(1) by (intro Cons.IH) auto
  ultimately show ?case by simp
qed simp

section \<open>Words as numbers\<close>

text \<open>Facts that move a word goal to the natural numbers.\<close>

named_theorems word_nat

lemma word_less_unat [word_nat]: "(a :: 'a::len word) < b \<longleftrightarrow> unat a < unat b"
  by (rule word_less_nat_alt)

lemma word_le_unat [word_nat]: "(a :: 'a::len word) \<le> b \<longleftrightarrow> unat a \<le> unat b"
  by (rule word_le_nat_alt)

lemma unat_u64_bound: "unat (a :: u64) < 18446744073709551616"
  using unsigned_less [of a] by simp

lemma unat_add_u64 [word_nat]:
  "unat ((a :: u64) + b) = (unat a + unat b) mod 18446744073709551616"
  by (simp add: unat_word_ariths)

lemma unat_mult_u64 [word_nat]:
  "unat ((a :: u64) * b) = (unat a * unat b) mod 18446744073709551616"
  by (simp add: unat_word_ariths)

lemma unat_minus_u64: "b \<le> (a :: u64) \<Longrightarrow> unat (a - b) = unat a - unat b"
  by (rule unat_sub)

lemma unat_pred_u64: "0 < unat (a :: u64) \<Longrightarrow> unat (a - 1) = unat a - 1"
  by (simp add: unat_minus_u64 word_le_unat)

lemma unat_div_u64 [word_nat]: "unat ((a :: u64) div b) = unat a div unat b"
  by (rule unat_div)

lemma unat_mod_u64 [word_nat]: "unat ((a :: u64) mod b) = unat a mod unat b"
  by (rule unat_mod)

lemma unat_add_exact:
  "unat a + unat b < 18446744073709551616 \<Longrightarrow> unat ((a :: u64) + b) = unat a + unat b"
  by (simp add: unat_add_u64)

lemma unat_mult_exact:
  "unat a * unat b < 18446744073709551616 \<Longrightarrow> unat ((a :: u64) * b) = unat a * unat b"
  by (simp add: unat_mult_u64)

lemma u64_eq_iff: "(a :: u64) = b \<longleftrightarrow> unat a = unat b"
  by (rule word_unat_eq_iff)

lemma u64_pos_iff: "(0 :: u64) < b \<longleftrightarrow> 0 < unat b"
  by (simp add: word_less_nat_alt)

text \<open>Signed values in range are left alone by \<open>i64\<close>.\<close>

lemma i64_id: "MinInt \<le> x \<Longrightarrow> x \<le> MaxInt \<Longrightarrow> i64 x = x"
  by (simp add: i64_def signed_take_bit_int_eq_self)

lemma i64_nonneg: "0 \<le> x \<Longrightarrow> x \<le> MaxInt \<Longrightarrow> i64 x = x"
  by (rule i64_id) simp_all

lemma i64_range: "MinInt \<le> i64 x \<and> i64 x \<le> MaxInt"
  using signed_take_bit_int_greater_eq_minus_exp [of 63 x]
    signed_take_bit_int_less_exp [of 63 x]
  by (simp add: i64_def)

lemma div_bounds:
  fixes d k :: int
  assumes "0 < k"
  shows "d div k * k \<le> d" "d < d div k * k + k"
  using div_mult_mod_eq [of d k] pos_mod_sign [OF assms, of d] pos_mod_bound [OF assms, of d]
  by linarith+

lemma unat_sum_list:
  "sum_list (map unat ws) < 2 ^ 64 \<Longrightarrow> unat (sum_list (ws :: u64 list)) = sum_list (map unat ws)"
  by (induction ws) (simp_all add: unat_add_exact)

end
