(* ===== verification/Math_Helper.thy ===== *)
theory Math_Helper
  imports Prelude
begin

text \<open>
  The integer helpers of \<^verbatim>\<open>math/math_helper.go\<close>: checked 64-bit arithmetic, the cached
  Newton square root, powers of two and checked conversions.
\<close>

unbundle bit_operations_syntax

section \<open>Checked arithmetic\<close>

text \<open>
  \<open>bits_Mul64\<close>, \<open>bits_Add64\<close> and \<open>bits_Sub64\<close> are the functions of Go's \<^verbatim>\<open>math/bits\<close>: the
  high and low words of a product, a sum with its carry, a difference with its borrow.
\<close>

definition bits_Mul64 :: "u64 \<Rightarrow> u64 \<Rightarrow> u64 \<times> u64" where
  "bits_Mul64 a b = (of_nat (unat a * unat b div 2 ^ 64), a * b)"

definition bits_Add64 :: "u64 \<Rightarrow> u64 \<Rightarrow> u64 \<times> u64" where
  "bits_Add64 a b = (a + b, of_nat ((unat a + unat b) div 2 ^ 64))"

definition bits_Sub64 :: "u64 \<Rightarrow> u64 \<Rightarrow> u64 \<times> u64" where
  "bits_Sub64 a b = (a - b, if a < b then 1 else 0)"

definition Mul64 :: "u64 \<Rightarrow> u64 \<Rightarrow> u64 result" where
  "Mul64 a b = (case bits_Mul64 a b of (overflows, val) \<Rightarrow>
     if overflows > 0 then Inl ErrMulOverflow else Inr val)"

definition Div64 :: "u64 \<Rightarrow> u64 \<Rightarrow> u64 result" where
  "Div64 a b = (if b = 0 then Inl ErrDivByZero else Inr (a div b))"

definition Add64 :: "u64 \<Rightarrow> u64 \<Rightarrow> u64 result" where
  "Add64 a b = (case bits_Add64 a b of (res, carry) \<Rightarrow>
     if carry > 0 then Inl ErrAddOverflow else Inr res)"

definition Sub64 :: "u64 \<Rightarrow> u64 \<Rightarrow> u64 result" where
  "Sub64 a b = (case bits_Sub64 a b of (res, borrow) \<Rightarrow>
     if borrow > 0 then Inl ErrSubUnderflow else Inr res)"

definition Mod64 :: "u64 \<Rightarrow> u64 \<Rightarrow> u64 result" where
  "Mod64 a b = (if b = 0 then Inl ErrDivByZero else Inr (a mod b))"

section \<open>The cached Newton square root\<close>

text \<open>
  The package variable \<^verbatim>\<open>cachedSquareRoot\<close>: the last balance and its root. Every call
  updates it under a mutex, so calls are steps of this state, one after the other.
\<close>

record sqrtCache =
  c_squareRoot :: u64
  c_balance :: u64

definition cachedSquareRoot :: sqrtCache where
  "cachedSquareRoot = \<lparr>c_squareRoot = 126491106, c_balance = 15999999897103236\<rparr>"

text \<open>
  The loop. It leaves the new root in the cache at every round; a round that reaches the
  root \<open>0\<close> divides by it.
\<close>

function newtonLoop :: "u64 \<Rightarrow> sqrtCache \<Rightarrow> u64 \<Rightarrow> (sqrtCache, u64) outcome" where
  "newtonLoop balance c val =
     (let r = (c_squareRoot c + val) div 2; c' = c\<lparr>c_squareRoot := r\<rparr> in
      if r = 0 then (Inl Panic, c')
      else let val' = balance div r in
        if r \<le> val' then (Inr r, c') else newtonLoop balance c' val')"
  by pat_completeness auto

lemma half_sum_less:
  assumes "val < (r :: u64)"
  shows "unat ((r + val) div 2) < unat r"
proof -
  have "unat ((r + val) div 2) = unat (r + val) div 2"
    by (simp add: unat_div_u64)
  also have "\<dots> \<le> (unat r + unat val) div 2"
    by (intro div_le_mono) (simp add: unat_add_u64)
  also have "\<dots> < unat r"
    using assms by (simp add: word_less_unat)
  finally show ?thesis .
qed

termination newtonLoop
  by (relation "measure (\<lambda>(balance, c, val).
        if val < c_squareRoot c then unat (c_squareRoot c) else 2 ^ 64)")
     (auto simp: half_sum_less not_le unat_u64_bound)

declare newtonLoop.simps [simp del]

definition CachedSquareRoot :: "u64 \<Rightarrow> sqrtCache \<Rightarrow> (sqrtCache, u64) outcome" where
  "CachedSquareRoot balance c =
     (if balance = 0 then (Inr 0, c)
      else if balance = c_balance c then (Inr (c_squareRoot c), c)
      else let c1 = c\<lparr>c_balance := balance\<rparr> in
        if c_squareRoot c1 = 0 then (Inl Panic, c1)
        else newtonLoop balance c1 (balance div c_squareRoot c1))"

text \<open>The integer square root, and the cache invariant: a positive balance with its root.\<close>

definition is_isqrt :: "nat \<Rightarrow> nat \<Rightarrow> bool" where
  "is_isqrt n r \<longleftrightarrow> r * r \<le> n \<and> n < (r + 1) * (r + 1)"

definition cache_ok :: "sqrtCache \<Rightarrow> bool" where
  "cache_ok c \<longleftrightarrow> c_balance c \<noteq> 0 \<and> is_isqrt (unat (c_balance c)) (unat (c_squareRoot c))"

lemma cache_ok_init: "cache_ok cachedSquareRoot"
  by (simp add: cache_ok_def cachedSquareRoot_def is_isqrt_def)

text \<open>One Newton step from any positive guess is at least the root.\<close>

lemma newton_step_upper:
  fixes n s :: nat
  assumes "0 < s"
  defines "t \<equiv> (s + n div s) div 2"
  shows "n < (t + 1) * (t + 1)"
proof -
  define q where "q = n div s"
  have "n < s * (q + 1)"
    using assms(1) by (simp add: q_def) (metis add.commute div_mult_mod_eq mult.commute
      mod_less_divisor nat_add_left_cancel_less)
  moreover have half: "s + q + 1 \<le> 2 * (t + 1)"
    unfolding t_def q_def [symmetric] by presburger
  then have "(s + q + 1) * (s + q + 1) \<le> 2 * (t + 1) * (2 * (t + 1))"
    using mult_le_mono [OF half half] by simp
  moreover have "4 * (s * (q + 1)) \<le> (s + (q + 1)) * (s + (q + 1))"
  proof -
    have "0 \<le> (int s - int (q + 1)) * (int s - int (q + 1))" by simp
    then have "int (4 * (s * (q + 1))) \<le> int ((s + (q + 1)) * (s + (q + 1)))"
      by (simp add: algebra_simps)
    then show ?thesis by (simp only: of_nat_le_iff)
  qed
  ultimately show ?thesis by (simp add: algebra_simps)
qed

lemma isqrt_pos: "is_isqrt n r \<Longrightarrow> 0 < n \<Longrightarrow> 0 < r"
  by (cases r) (auto simp: is_isqrt_def)

text \<open>Below the balance and above the root, the loop finds the root.\<close>

lemma newtonLoop_correct:
  assumes "0 < unat balance" and "0 < unat (c_squareRoot c)"
    and "val = balance div c_squareRoot c"
    and "unat (c_squareRoot c) + unat val < 2 ^ 64"
  shows "\<exists>r. newtonLoop balance c val = (Inr r, c\<lparr>c_squareRoot := r\<rparr>)
    \<and> is_isqrt (unat balance) (unat r)"
  using assms
proof (induction balance c val rule: newtonLoop.induct)
  case (1 balance c val)
  define r where "r = (c_squareRoot c + val) div 2"
  have ur: "unat r = (unat (c_squareRoot c) + unat val) div 2"
    using "1.prems"(4) by (simp add: r_def unat_div_u64 unat_add_exact)
  have uval: "unat val = unat balance div unat (c_squareRoot c)"
    using "1.prems"(3) by (simp add: unat_div_u64)
  have up: "unat balance < (unat r + 1) * (unat r + 1)"
    using newton_step_upper [OF "1.prems"(2), of "unat balance"] by (simp add: ur uval)
  then have r0: "0 < unat r"
    using "1.prems"(1) by (cases "unat r") auto
  then have rn: "r \<noteq> 0" by auto
  show ?case
  proof (cases "r \<le> balance div r")
    case True
    then have "unat r \<le> unat balance div unat r"
      by (simp add: word_le_unat unat_div_u64)
    then have "unat r * unat r \<le> unat balance"
      using r0 by (simp add: less_eq_div_iff_mult_less_eq)
    with up have "is_isqrt (unat balance) (unat r)" by (simp add: is_isqrt_def)
    with True rn show ?thesis
      by (subst newtonLoop.simps) (simp add: r_def [symmetric] Let_def)
  next
    case False
    let ?c = "c\<lparr>c_squareRoot := r\<rparr>"
    have "unat r + unat (balance div r) < 2 * unat r"
      using False by (simp add: word_le_unat)
    also have "\<dots> < 2 ^ 64"
      using "1.prems"(4) by (simp add: ur)
    finally have "unat (c_squareRoot ?c) + unat (balance div r) < 2 ^ 64" by simp
    then obtain x where x: "newtonLoop balance ?c (balance div r) = (Inr x, ?c\<lparr>c_squareRoot := x\<rparr>)"
      "is_isqrt (unat balance) (unat x)"
      using "1.IH" [OF r_def refl rn refl False] "1.prems"(1) r0 by auto
    with False rn show ?thesis
      by (subst newtonLoop.simps) (simp add: r_def [symmetric] Let_def)
  qed
qed

text \<open>
  The sum of a guess and the quotient overflows for one input only: the guess \<open>1\<close> and the
  balance \<^verbatim>\<open>MaxUint64\<close>.
\<close>

lemma guess_quotient_sum:
  assumes "0 < (s :: nat)" and "n < 2 ^ 64" and "s < 2 ^ 32" and "\<not> (s = 1 \<and> n = 2 ^ 64 - 1)"
  shows "s + n div s < 2 ^ 64"
proof (cases "s = 1")
  case True
  with assms show ?thesis by simp
next
  case False
  with assms(1) have "n div s \<le> n div 2"
    by (intro div_le_mono2) simp_all
  with assms(2,3) show ?thesis by simp
qed

lemma isqrt_u64_bound: "is_isqrt n r \<Longrightarrow> n < 2 ^ 64 \<Longrightarrow> r < 2 ^ 32"
proof (rule ccontr)
  assume r: "is_isqrt n r" "n < 2 ^ 64" "\<not> r < 2 ^ 32"
  then have "(2::nat) ^ 32 * 2 ^ 32 \<le> r * r"
    by (intro mult_le_mono) simp_all
  with r show False by (simp add: is_isqrt_def)
qed

lemma CachedSquareRoot_ok:
  assumes ok: "cache_ok c" and "\<not> (c_squareRoot c = 1 \<and> balance = MaxUint64)"
  shows "\<exists>r c'. CachedSquareRoot balance c = (Inr r, c') \<and> is_isqrt (unat balance) (unat r)
    \<and> cache_ok c'"
proof -
  let ?s = "c_squareRoot c"
  have s0: "0 < unat ?s"
    using ok isqrt_pos [of "unat (c_balance c)" "unat ?s"] by (simp add: cache_ok_def unat_gt_0)
  have "unat ?s < 2 ^ 32"
    using ok isqrt_u64_bound [of "unat (c_balance c)" "unat ?s"] unat_u64_bound [of "c_balance c"]
    by (simp add: cache_ok_def)
  then have "unat ?s + unat balance div unat ?s < 2 ^ 64"
    using guess_quotient_sum [OF s0, of "unat balance"] assms(2) unat_u64_bound [of balance]
    by (auto simp: u64_eq_iff)
  then have "\<exists>r. newtonLoop balance (c\<lparr>c_balance := balance\<rparr>) (balance div ?s)
      = (Inr r, c\<lparr>c_balance := balance, c_squareRoot := r\<rparr>) \<and> is_isqrt (unat balance) (unat r)"
    if "balance \<noteq> 0"
    using newtonLoop_correct [of balance "c\<lparr>c_balance := balance\<rparr>"] that s0
    by (simp add: unat_div_u64 unat_gt_0)
  with ok s0 show ?thesis
    by (cases "balance = 0 \<or> balance = c_balance c")
       (auto simp: CachedSquareRoot_def cache_ok_def Let_def is_isqrt_def)
qed

lemma CachedSquareRoot_panics:
  assumes "cache_ok c" and "c_squareRoot c = 1"
  shows "CachedSquareRoot MaxUint64 c =
    (Inl Panic, c\<lparr>c_balance := MaxUint64, c_squareRoot := 0\<rparr>)"
proof -
  have "c_balance c \<noteq> MaxUint64"
    using assms by (auto simp: cache_ok_def is_isqrt_def)
  with assms(2) show ?thesis
    by (simp add: CachedSquareRoot_def Let_def newtonLoop.simps)
qed

section \<open>Powers of two, minima, ceilings and conversions\<close>

definition CeilDiv8 :: "int \<Rightarrow> int" where
  "CeilDiv8 n = (let ret = n sdiv 8 in if n smod 8 > 0 then i64 (ret + 1) else ret)"

definition IsPowerOf2 :: "u64 \<Rightarrow> bool" where
  "IsPowerOf2 n \<longleftrightarrow> n \<noteq> 0 \<and> (n AND (n - 1)) = 0"

definition PowerOf2 :: "u64 \<Rightarrow> u64 result" where
  "PowerOf2 n = (if n \<ge> 64 then Inl Panic else Inr (push_bit (unat n) 1))"

definition math_Max :: "u64 \<Rightarrow> u64 \<Rightarrow> u64" where
  "math_Max a b = (if a > b then a else b)"

definition math_Min :: "u64 \<Rightarrow> u64 \<Rightarrow> u64" where
  "math_Min a b = (if a < b then a else b)"

definition math_Int :: "u64 \<Rightarrow> int result" where
  "math_Int u = (if u > 9223372036854775807 then Inl ErrOverflow else Inr (uint u))"

fun addIntLoop :: "int \<Rightarrow> int list \<Rightarrow> int result" where
  "addIntLoop acc [] = Inr acc"
| "addIntLoop acc (ii # rest) =
     (if ii > 0 \<and> acc > i64 (MaxInt - ii) then Inl ErrOverflow
      else if ii < 0 \<and> acc < i64 (MinInt - ii) then Inl ErrOverflow
      else addIntLoop (i64 (acc + ii)) rest)"

definition AddInt :: "int list \<Rightarrow> int result" where
  "AddInt i = addIntLoop 0 i"

text \<open>\<^verbatim>\<open>big.Int.BitLen\<close>: the length of the absolute value in bits.\<close>

fun natBitLen :: "nat \<Rightarrow> nat" where
  "natBitLen n = (if n = 0 then 0 else Suc (natBitLen (n div 2)))"

declare natBitLen.simps [simp del]

definition IsValidUint256 :: "int \<Rightarrow> bool" where
  "IsValidUint256 bi \<longleftrightarrow> bi \<ge> 0 \<and> natBitLen (nat \<bar>bi\<bar>) \<le> 256"

section \<open>What the helpers compute\<close>

text \<open>Code equations over the binary integers.\<close>

lemma of_int_div_u64: "(of_int (int n div 2 ^ 64) :: u64) = of_nat (n div 2 ^ 64)"
proof -
  have "int n div 2 ^ 64 = int (n div 2 ^ 64)" by (simp only: zdiv_int of_nat_power of_nat_numeral)
  then show ?thesis by (simp only: of_int_of_nat_eq)
qed

lemma bits_Mul64_code [code]: "bits_Mul64 a b = (of_int (uint a * uint b div 2 ^ 64), a * b)"
  unfolding bits_Mul64_def uint_nat of_nat_mult [symmetric] of_int_div_u64 by (rule refl)

lemma bits_Add64_code [code]: "bits_Add64 a b = (a + b, of_int ((uint a + uint b) div 2 ^ 64))"
  unfolding bits_Add64_def uint_nat of_nat_add [symmetric] of_int_div_u64 by (rule refl)

lemma Mul64_eq:
  "Mul64 a b = (if unat a * unat b < 2 ^ 64 then Inr (a * b) else Inl ErrMulOverflow)"
proof -
  have "unat a * unat b div 2 ^ 64 < 2 ^ 64"
  proof -
    have "unat a * unat b \<le> (2 ^ 64 - 1) * (2 ^ 64 - 1)"
      using unat_u64_bound [of a] unat_u64_bound [of b] by (intro mult_le_mono) simp_all
    then show ?thesis by (simp add: div_less_iff_less_mult)
  qed
  then have "(of_nat (unat a * unat b div 2 ^ 64) :: u64) = 0 \<longleftrightarrow> unat a * unat b div 2 ^ 64 = 0"
    by (simp add: word_unat_eq_iff unat_of_nat)
  then show ?thesis
    by (simp add: Mul64_def bits_Mul64_def word_neq_0_conv [symmetric] div_eq_0_iff)
qed

lemma Add64_eq:
  "Add64 a b = (if unat a + unat b < 2 ^ 64 then Inr (a + b) else Inl ErrAddOverflow)"
proof -
  have "(unat a + unat b) div 2 ^ 64 < 2"
    using unat_u64_bound [of a] unat_u64_bound [of b] by (simp add: div_less_iff_less_mult)
  then have "(of_nat ((unat a + unat b) div 2 ^ 64) :: u64) = 0 \<longleftrightarrow> (unat a + unat b) div 2 ^ 64 = 0"
    by (simp add: word_unat_eq_iff unat_of_nat)
  then show ?thesis
    by (simp add: Add64_def bits_Add64_def word_neq_0_conv [symmetric] div_eq_0_iff)
qed

lemma Sub64_eq: "Sub64 a b = (if b \<le> a then Inr (a - b) else Inl ErrSubUnderflow)"
  by (simp add: Sub64_def bits_Sub64_def not_less [symmetric])

lemmas checked_arith_eq = Mul64_eq Add64_eq Sub64_eq Div64_def Mod64_def

lemma nat_and_pred_0:
  "0 < n \<Longrightarrow> (n AND (n - 1)) = (0::nat) \<longleftrightarrow> (\<exists>k. n = 2 ^ k)"
proof (induction n rule: less_induct)
  case (less n)
  show ?case
  proof (cases "even n")
    case True
    then obtain m where m: "n = 2 * m" by blast
    with less.prems have m0: "0 < m" by simp
    have "(n AND (n - 1)) = 2 * (m AND (m - 1))"
    proof -
      from m0 obtain j where "m = Suc j" by (cases m) auto
      with m show ?thesis by (subst and_nat_rec) simp
    qed
    moreover have "(\<exists>k. n = 2 ^ k) \<longleftrightarrow> (\<exists>k. m = 2 ^ k)"
    proof
      assume "\<exists>k. n = 2 ^ k"
      then obtain k where "2 * m = 2 ^ k" using m by auto
      then show "\<exists>k. m = 2 ^ k" by (cases k) auto
    next
      assume "\<exists>k. m = 2 ^ k"
      then show "\<exists>k. n = 2 ^ k" using m by (metis power_Suc)
    qed
    ultimately show ?thesis using less.IH [of m] m m0 by simp
  next
    case False
    then obtain m where m: "n = 2 * m + 1" by (blast elim: oddE)
    have "(n AND (n - 1)) = 2 * m"
      using m by (subst and_nat_rec) simp
    moreover have "(\<exists>k. n = 2 ^ k) \<longleftrightarrow> m = 0"
    proof
      assume "\<exists>k. n = 2 ^ k"
      then obtain k where "2 * m + 1 = 2 ^ k" using m by auto
      then show "m = 0" by (cases k) (auto dest: arg_cong [where f = even])
    next
      assume "m = 0"
      then have "n = 2 ^ 0" using m by simp
      then show "\<exists>k. n = 2 ^ k" by blast
    qed
    ultimately show ?thesis by simp
  qed
qed

lemma IsPowerOf2_iff: "IsPowerOf2 n \<longleftrightarrow> (\<exists>k<64. unat n = 2 ^ k)"
proof (cases "n = 0")
  case True
  then show ?thesis by (simp add: IsPowerOf2_def)
next
  case False
  then have n0: "0 < unat n" by (simp add: unat_gt_0)
  have "unat (n - 1) = unat n - 1"
    using n0 by (simp add: unat_minus_u64 word_le_unat)
  then have "IsPowerOf2 n \<longleftrightarrow> (\<exists>k. unat n = 2 ^ k)"
    using False nat_and_pred_0 [OF n0]
    by (simp add: IsPowerOf2_def word_unat_eq_iff unsigned_and_eq)
  moreover have "k < 64" if "unat n = 2 ^ k" for k
    using that unat_u64_bound [of n] power_less_imp_less_exp [of "2::nat" k 64] by simp
  ultimately show ?thesis by blast
qed

lemma addIntLoop_eq:
  assumes "MinInt \<le> acc" "acc \<le> MaxInt" and "\<forall>x \<in> set xs. MinInt \<le> x \<and> x \<le> MaxInt"
  shows "addIntLoop acc xs =
    (if \<forall>k \<le> length xs. MinInt \<le> acc + sum_list (take k xs) \<and> acc + sum_list (take k xs) \<le> MaxInt
     then Inr (acc + sum_list xs) else Inl ErrOverflow)"
  using assms
proof (induction xs arbitrary: acc)
  case Nil
  then show ?case by simp
next
  case (Cons x xs)
  have all_Suc: "(\<forall>k \<le> Suc n. P k) \<longleftrightarrow> P 0 \<and> (\<forall>k \<le> n. P (Suc k))" for P n
    by (metis Suc_le_mono le0 not0_implies_Suc)
  have x: "MinInt \<le> x" "x \<le> MaxInt" using Cons.prems(3) by auto
  consider "acc + x > MaxInt" | "acc + x < MinInt" | "MinInt \<le> acc + x" "acc + x \<le> MaxInt"
    by linarith
  then show ?case
  proof cases
    case 1
    then have "\<exists>k \<le> length (x # xs). \<not> (acc + sum_list (take k (x # xs)) \<le> MaxInt)"
      by (intro exI [of _ 1]) simp
    with 1 Cons.prems(1,2) x show ?thesis by (auto simp: i64_id)
  next
    case 2
    then have "\<exists>k \<le> length (x # xs). \<not> (MinInt \<le> acc + sum_list (take k (x # xs)))"
      by (intro exI [of _ 1]) simp
    with 2 Cons.prems(1,2) x show ?thesis by (auto simp: i64_id)
  next
    case 3
    with Cons.prems x have "addIntLoop acc (x # xs) = addIntLoop (acc + x) xs"
      by (auto simp: i64_id)
    with 3 Cons show ?thesis by (simp add: all_Suc add.assoc)
  qed
qed

section \<open>Properties\<close>

text \<open>Calls of \<^verbatim>\<open>CachedSquareRoot\<close> one after the other, on the cache each leaves to the next.\<close>

fun squareRoots :: "u64 list \<Rightarrow> sqrtCache \<Rightarrow> (sqrtCache, u64 list) outcome" where
  "squareRoots [] c = (Inr [], c)"
| "squareRoots (b # bs) c =
     obind (CachedSquareRoot b c) (\<lambda>r c'. obind (squareRoots bs c') (\<lambda>rs c''. (Inr (r # rs), c'')))"

lemma squareRoots_ok:
  assumes "cache_ok c" and "MaxUint64 \<notin> set bs"
  shows "\<exists>rs c'. squareRoots bs c = (Inr rs, c') \<and> cache_ok c'
    \<and> list_all2 (\<lambda>b r. is_isqrt (unat b) (unat r)) bs rs"
  using assms
proof (induction bs arbitrary: c)
  case (Cons b bs)
  then obtain r c' where "CachedSquareRoot b c = (Inr r, c')" "is_isqrt (unat b) (unat r)" "cache_ok c'"
    using CachedSquareRoot_ok [of c b] by auto
  with Cons.IH [of c'] Cons.prems show ?case by auto
qed simp

text \<open>C8. Whatever balances are asked one after the other, starting from the initial cache and as long
  as none of them is \<^verbatim>\<open>MaxUint64\<close>, every call of \<^verbatim>\<open>CachedSquareRoot\<close> returns the integer square root
  of its balance: the Newton iteration ends, never divides by zero and never wraps around.\<close>

theorem CachedSquareRoot_correct:
  assumes "MaxUint64 \<notin> set bs"
  shows "\<exists>rs c. squareRoots bs cachedSquareRoot = (Inr rs, c)
    \<and> list_all2 (\<lambda>b r. is_isqrt (unat b) (unat r)) bs rs"
  using squareRoots_ok [OF cache_ok_init assms] by blast

theorem CachedSquareRoot_correct_witness:
  "MaxUint64 \<notin> set [0, 7, 32000000000 :: u64] \<and>
   (\<exists>rs c. squareRoots [0, 7, 32000000000] cachedSquareRoot = (Inr rs, c)
      \<and> list_all2 (\<lambda>b r. is_isqrt (unat b) (unat r)) [0, 7, 32000000000 :: u64] rs)"
  using CachedSquareRoot_correct [of "[0, 7, 32000000000]"] by simp

text \<open>C27. The one call that breaks the iteration: on a cache that holds a balance and its root, \<^verbatim>\<open>CachedSquareRoot\<close> panics
  exactly if the cached root is \<open>1\<close>, as after a balance of 1, 2 or 3, and the balance is \<^verbatim>\<open>MaxUint64\<close>: the sum of guess and
  quotient wraps to zero. The cache is then broken for good: its root is 0, so the same balance is answered with 0 and every other
  balance but 0 panics.\<close>

theorem CachedSquareRoot_MaxUint64_panics:
  assumes "cache_ok c"
  shows "(fst (CachedSquareRoot b c) = Inl Panic \<longleftrightarrow> c_squareRoot c = 1 \<and> b = MaxUint64)
    \<and> (c_squareRoot c = 1 \<longrightarrow> (let c' = snd (CachedSquareRoot MaxUint64 c) in
         c_squareRoot c' = 0 \<and> fst (CachedSquareRoot MaxUint64 c') = Inr 0
         \<and> (\<forall>b. b \<noteq> 0 \<and> b \<noteq> MaxUint64 \<longrightarrow>
              fst (CachedSquareRoot b c') = Inl Panic \<and> c_squareRoot (snd (CachedSquareRoot b c')) = 0)))"
proof -
  have 1: "CachedSquareRoot MaxUint64 c = (Inl Panic, c\<lparr>c_balance := MaxUint64, c_squareRoot := 0\<rparr>)" if "c_squareRoot c = 1"
    by (rule CachedSquareRoot_panics [OF assms that])
  have "fst (CachedSquareRoot b c) \<noteq> Inl Panic" if "\<not> (c_squareRoot c = 1 \<and> b = MaxUint64)"
    using CachedSquareRoot_ok [OF assms that] by auto
  then show ?thesis using 1 by (auto simp: CachedSquareRoot_def [of _ "c\<lparr>c_balance := b', c_squareRoot := 0\<rparr>" for b'] Let_def)
qed

theorem CachedSquareRoot_MaxUint64_panics_witness:
  "cache_ok \<lparr>c_squareRoot = 1, c_balance = 2\<rparr> \<and> fst (squareRoots [2] cachedSquareRoot) = Inr [1]
   \<and> fst (CachedSquareRoot MaxUint64 \<lparr>c_squareRoot = 1, c_balance = 2\<rparr>) = Inl Panic
   \<and> fst (CachedSquareRoot 9 (snd (CachedSquareRoot MaxUint64 \<lparr>c_squareRoot = 1, c_balance = 2\<rparr>))) = Inl Panic"
proof -
  have ok: "cache_ok \<lparr>c_squareRoot = 1, c_balance = 2\<rparr>" by (simp add: cache_ok_def is_isqrt_def)
  have "fst (squareRoots [2] cachedSquareRoot) = Inr [1]"
    by (simp add: CachedSquareRoot_def cachedSquareRoot_def newtonLoop.simps Let_def)
  then show ?thesis using CachedSquareRoot_MaxUint64_panics [OF ok, of MaxUint64] ok by (simp add: Let_def)
qed

text \<open>\<^verbatim>\<open>IsPowerOf2\<close> holds of the powers of two below \<open>2^64\<close> and of nothing else, and \<^verbatim>\<open>PowerOf2\<close>
  returns such a power for every exponent below 64.\<close>

theorem IsPowerOf2_correct:
  "(IsPowerOf2 n \<longleftrightarrow> (\<exists>k<64. unat n = 2 ^ k))
   \<and> (PowerOf2 k = (if unat k < 64 then Inr (2 ^ unat k) else Inl Panic))"
  by (simp add: IsPowerOf2_iff PowerOf2_def push_bit_eq_mult word_le_unat not_less)

text \<open>\<^verbatim>\<open>AddInt\<close> returns the exact sum of its arguments if every partial sum from the left is an
  \<^verbatim>\<open>int\<close>, and an overflow error otherwise; it never returns a wrapped sum.\<close>

theorem AddInt_exact:
  assumes "\<forall>x \<in> set xs. MinInt \<le> x \<and> x \<le> MaxInt"
  shows "AddInt xs =
    (if \<forall>k \<le> length xs. MinInt \<le> sum_list (take k xs) \<and> sum_list (take k xs) \<le> MaxInt
     then Inr (sum_list xs) else Inl ErrOverflow)"
  using addIntLoop_eq [of 0 xs] assms by (simp add: AddInt_def)

theorem AddInt_exact_witness:
  "AddInt [MaxInt, 1] = Inl ErrOverflow \<and> AddInt [MaxInt, - 1] = Inr (MaxInt - 1)"
proof
  have "\<not> (\<forall>k \<le> length [MaxInt, 1]. MinInt \<le> sum_list (take k [MaxInt, 1]) \<and> sum_list (take k [MaxInt, 1]) \<le> MaxInt)"
    by (auto intro!: exI [of _ 2])
  with AddInt_exact [of "[MaxInt, 1]"] show "AddInt [MaxInt, 1] = Inl ErrOverflow" by simp
  have "\<forall>k \<le> length [MaxInt, - 1]. MinInt \<le> sum_list (take k [MaxInt, - 1]) \<and> sum_list (take k [MaxInt, - 1]) \<le> MaxInt"
    by (auto simp: le_Suc_eq)
  with AddInt_exact [of "[MaxInt, - 1]"] show "AddInt [MaxInt, - 1] = Inr (MaxInt - 1)" by simp
qed

end
