(* ===== verification/Primitives.thy ===== *)
theory Primitives
  imports Math_Helper
begin

text \<open>
  The arithmetic of the consensus primitives: \<^verbatim>\<open>Epoch\<close> and \<^verbatim>\<open>Slot\<close>
  (\<^verbatim>\<open>consensus-types/primitives/epoch.go\<close>, \<^verbatim>\<open>slot.go\<close>) and \<^verbatim>\<open>ValidatorIndex\<close>
  (\<^verbatim>\<open>validator.go\<close>). Each checked operation comes twice: a \<^verbatim>\<open>Safe\<close> one that returns the error
  and one that panics on it. The contract the two types share is the locale
  \<open>checked_uint64\<close>, interpreted for both.
\<close>

text \<open>The panicking operations share this last step.\<close>

definition must :: "'a result \<Rightarrow> 'a result" where
  "must r = (case r of Inl e \<Rightarrow> Inl Panic | Inr res \<Rightarrow> Inr res)"

lemma must_simps [simp]: "must (Inl e) = Inl Panic" "must (Inr x) = Inr x"
  by (simp_all add: must_def)

lemma must_eq_Inr: "must r = Inr x \<longleftrightarrow> r = Inr x"
  by (cases r) simp_all

section \<open>Epoch\<close>

definition MaxEpoch :: "Epoch \<Rightarrow> Epoch \<Rightarrow> Epoch" where
  "MaxEpoch a b = (if a > b then a else b)"

definition Epoch_SafeMul :: "Epoch \<Rightarrow> u64 \<Rightarrow> Epoch result" where
  "Epoch_SafeMul e x = Mul64 e x"

definition Epoch_Mul :: "Epoch \<Rightarrow> u64 \<Rightarrow> Epoch result" where
  "Epoch_Mul e x = must (Epoch_SafeMul e x)"

definition Epoch_SafeDiv :: "Epoch \<Rightarrow> u64 \<Rightarrow> Epoch result" where
  "Epoch_SafeDiv e x = Div64 e x"

definition Epoch_Div :: "Epoch \<Rightarrow> u64 \<Rightarrow> Epoch result" where
  "Epoch_Div e x = must (Epoch_SafeDiv e x)"

definition Epoch_SafeAdd :: "Epoch \<Rightarrow> u64 \<Rightarrow> Epoch result" where
  "Epoch_SafeAdd e x = Add64 e x"

definition Epoch_Add :: "Epoch \<Rightarrow> u64 \<Rightarrow> Epoch result" where
  "Epoch_Add e x = must (Epoch_SafeAdd e x)"

definition Epoch_AddEpoch :: "Epoch \<Rightarrow> Epoch \<Rightarrow> Epoch result" where
  "Epoch_AddEpoch e x = Epoch_Add e x"

definition Epoch_SafeAddEpoch :: "Epoch \<Rightarrow> Epoch \<Rightarrow> Epoch result" where
  "Epoch_SafeAddEpoch e x = Epoch_SafeAdd e x"

definition Epoch_SafeSub :: "Epoch \<Rightarrow> u64 \<Rightarrow> Epoch result" where
  "Epoch_SafeSub e x = Sub64 e x"

definition Epoch_Sub :: "Epoch \<Rightarrow> u64 \<Rightarrow> Epoch result" where
  "Epoch_Sub e x = must (Epoch_SafeSub e x)"

definition Epoch_SafeMod :: "Epoch \<Rightarrow> u64 \<Rightarrow> Epoch result" where
  "Epoch_SafeMod e x = Mod64 e x"

definition Epoch_Mod :: "Epoch \<Rightarrow> u64 \<Rightarrow> Epoch result" where
  "Epoch_Mod e x = must (Epoch_SafeMod e x)"

section \<open>Slot\<close>

definition Slot_SafeMul :: "Slot \<Rightarrow> u64 \<Rightarrow> Slot result" where
  "Slot_SafeMul s x = Mul64 s x"

definition Slot_Mul :: "Slot \<Rightarrow> u64 \<Rightarrow> Slot result" where
  "Slot_Mul s x = must (Slot_SafeMul s x)"

definition Slot_MulSlot :: "Slot \<Rightarrow> Slot \<Rightarrow> Slot result" where
  "Slot_MulSlot s x = Slot_Mul s x"

definition Slot_SafeMulSlot :: "Slot \<Rightarrow> Slot \<Rightarrow> Slot result" where
  "Slot_SafeMulSlot s x = Slot_SafeMul s x"

definition Slot_SafeDiv :: "Slot \<Rightarrow> u64 \<Rightarrow> Slot result" where
  "Slot_SafeDiv s x = Div64 s x"

definition Slot_Div :: "Slot \<Rightarrow> u64 \<Rightarrow> Slot result" where
  "Slot_Div s x = must (Slot_SafeDiv s x)"

definition Slot_DivSlot :: "Slot \<Rightarrow> Slot \<Rightarrow> Slot result" where
  "Slot_DivSlot s x = Slot_Div s x"

definition Slot_SafeDivSlot :: "Slot \<Rightarrow> Slot \<Rightarrow> Slot result" where
  "Slot_SafeDivSlot s x = Slot_SafeDiv s x"

definition Slot_SafeAdd :: "Slot \<Rightarrow> u64 \<Rightarrow> Slot result" where
  "Slot_SafeAdd s x = Add64 s x"

definition Slot_Add :: "Slot \<Rightarrow> u64 \<Rightarrow> Slot result" where
  "Slot_Add s x = must (Slot_SafeAdd s x)"

definition Slot_AddSlot :: "Slot \<Rightarrow> Slot \<Rightarrow> Slot result" where
  "Slot_AddSlot s x = Slot_Add s x"

definition Slot_SafeAddSlot :: "Slot \<Rightarrow> Slot \<Rightarrow> Slot result" where
  "Slot_SafeAddSlot s x = Slot_SafeAdd s x"

definition Slot_SafeSub :: "Slot \<Rightarrow> u64 \<Rightarrow> Slot result" where
  "Slot_SafeSub s x = Sub64 s x"

definition Slot_Sub :: "Slot \<Rightarrow> u64 \<Rightarrow> Slot result" where
  "Slot_Sub s x = must (Slot_SafeSub s x)"

definition Slot_SubSlot :: "Slot \<Rightarrow> Slot \<Rightarrow> Slot result" where
  "Slot_SubSlot s x = Slot_Sub s x"

definition FlooredSubSlot :: "Slot \<Rightarrow> Slot \<Rightarrow> Slot" where
  "FlooredSubSlot s x = (if s < x then 0 else s - x)"

definition Slot_SafeSubSlot :: "Slot \<Rightarrow> Slot \<Rightarrow> Slot result" where
  "Slot_SafeSubSlot s x = Slot_SafeSub s x"

definition Slot_SafeMod :: "Slot \<Rightarrow> u64 \<Rightarrow> Slot result" where
  "Slot_SafeMod s x = Mod64 s x"

definition Slot_Mod :: "Slot \<Rightarrow> u64 \<Rightarrow> Slot result" where
  "Slot_Mod s x = must (Slot_SafeMod s x)"

definition Slot_ModSlot :: "Slot \<Rightarrow> Slot \<Rightarrow> Slot result" where
  "Slot_ModSlot s x = Slot_Mod s x"

definition Slot_SafeModSlot :: "Slot \<Rightarrow> Slot \<Rightarrow> Slot result" where
  "Slot_SafeModSlot s x = Slot_SafeMod s x"

section \<open>ValidatorIndex\<close>

definition ValidatorIndex_Div :: "ValidatorIndex \<Rightarrow> u64 \<Rightarrow> ValidatorIndex result" where
  "ValidatorIndex_Div v x = (if x = 0 then Inl Panic else Inr (v div x))"

definition ValidatorIndex_Add :: "ValidatorIndex \<Rightarrow> u64 \<Rightarrow> ValidatorIndex" where
  "ValidatorIndex_Add v x = v + x"

definition ValidatorIndex_Sub :: "ValidatorIndex \<Rightarrow> u64 \<Rightarrow> ValidatorIndex result" where
  "ValidatorIndex_Sub v x = (if v < x then Inl Panic else Inr (v - x))"

text \<open>\<^verbatim>\<open>Mod\<close> has no check of its own: Go's \<^verbatim>\<open>%\<close> panics on zero.\<close>

definition ValidatorIndex_Mod :: "ValidatorIndex \<Rightarrow> u64 \<Rightarrow> ValidatorIndex result" where
  "ValidatorIndex_Mod v x = (if x = 0 then Inl Panic else Inr (v mod x))"

lemmas primitives_defs =
  Epoch_SafeMul_def Epoch_Mul_def Epoch_SafeDiv_def Epoch_Div_def Epoch_SafeAdd_def Epoch_Add_def
  Epoch_AddEpoch_def Epoch_SafeAddEpoch_def Epoch_SafeSub_def Epoch_Sub_def Epoch_SafeMod_def
  Epoch_Mod_def Slot_SafeMul_def Slot_Mul_def Slot_MulSlot_def Slot_SafeMulSlot_def
  Slot_SafeDiv_def Slot_Div_def Slot_DivSlot_def Slot_SafeDivSlot_def Slot_SafeAdd_def
  Slot_Add_def Slot_AddSlot_def Slot_SafeAddSlot_def Slot_SafeSub_def Slot_Sub_def
  Slot_SubSlot_def Slot_SafeSubSlot_def Slot_SafeMod_def Slot_Mod_def Slot_ModSlot_def
  Slot_SafeModSlot_def ValidatorIndex_Div_def ValidatorIndex_Sub_def ValidatorIndex_Mod_def

section \<open>The contract of the checked types\<close>

text \<open>
  What a client of \<^verbatim>\<open>Epoch\<close> or \<^verbatim>\<open>Slot\<close> may rely on: a \<^verbatim>\<open>Safe\<close> operation returns the exact
  mathematical result or an error, never a wrapped one, and the other form panics exactly
  where the safe one errs.
\<close>

definition exactly :: "u64 result \<Rightarrow> u64 result \<Rightarrow> bool \<Rightarrow> nat \<Rightarrow> bool" where
  "exactly safe unsafe possible n =
     (if possible \<and> n < 2 ^ 64 then safe = Inr (of_nat n) \<and> unsafe = Inr (of_nat n) else (\<exists>e. safe = Inl e) \<and> unsafe = Inl Panic)"

lemma exactlyI:
  assumes "\<And>y. safe = Inr y \<longleftrightarrow> possible \<and> unat y = n" and "unsafe = must safe"
  shows "exactly safe unsafe possible n"
proof (cases "possible \<and> n < 2 ^ 64")
  case True
  then have "safe = Inr (of_nat n)" unfolding assms(1) by (simp add: unat_of_nat)
  then show ?thesis using True assms(2) by (simp add: exactly_def)
next
  case False
  have "safe \<noteq> Inr y" for y using assms(1) [of y] False unat_u64_bound [of y] by auto
  then obtain e where "safe = Inl e" by (cases safe) auto
  then show ?thesis using False assms(2) by (auto simp: exactly_def)
qed

locale checked_uint64 =
  fixes SafeMul SafeDiv SafeAdd SafeSub SafeMod :: "u64 \<Rightarrow> u64 \<Rightarrow> u64 result"
    and UMul UDiv UAdd USub UMod :: "u64 \<Rightarrow> u64 \<Rightarrow> u64 result"
  assumes SafeMul_exact: "SafeMul e x = Inr y \<longleftrightarrow> unat y = unat e * unat x"
    and SafeAdd_exact: "SafeAdd e x = Inr y \<longleftrightarrow> unat y = unat e + unat x"
    and SafeSub_exact: "SafeSub e x = Inr y \<longleftrightarrow> unat y + unat x = unat e"
    and SafeDiv_exact: "SafeDiv e x = Inr y \<longleftrightarrow> x \<noteq> 0 \<and> unat y = unat e div unat x"
    and SafeMod_exact: "SafeMod e x = Inr y \<longleftrightarrow> x \<noteq> 0 \<and> unat y = unat e mod unat x"
    and unsafe: "UMul e x = must (SafeMul e x)" "UDiv e x = must (SafeDiv e x)"
      "UAdd e x = must (SafeAdd e x)" "USub e x = must (SafeSub e x)"
      "UMod e x = must (SafeMod e x)"
begin

lemma unsafe_exact:
  "UMul e x = Inr y \<longleftrightarrow> unat y = unat e * unat x" "UAdd e x = Inr y \<longleftrightarrow> unat y = unat e + unat x"
  "USub e x = Inr y \<longleftrightarrow> unat y + unat x = unat e"
  by (simp_all add: unsafe must_eq_Inr SafeMul_exact SafeAdd_exact SafeSub_exact)

lemma all_exact:
  "exactly (SafeAdd e x) (UAdd e x) True (unat e + unat x)" "exactly (SafeSub e x) (USub e x) (x \<le> e) (unat e - unat x)"
  "exactly (SafeMul e x) (UMul e x) True (unat e * unat x)" "exactly (SafeDiv e x) (UDiv e x) (x \<noteq> 0) (unat e div unat x)"
  "exactly (SafeMod e x) (UMod e x) (x \<noteq> 0) (unat e mod unat x)"
  by (auto intro!: exactlyI simp: unsafe SafeAdd_exact SafeSub_exact SafeMul_exact SafeDiv_exact SafeMod_exact word_le_unat)

end

lemma Mul64_exact: "Mul64 e x = Inr y \<longleftrightarrow> unat y = unat e * unat x"
  using unat_u64_bound [of y] by (auto simp: Mul64_eq u64_eq_iff unat_mult_u64)

lemma Add64_exact: "Add64 e x = Inr y \<longleftrightarrow> unat y = unat e + unat x"
  using unat_u64_bound [of y] by (auto simp: Add64_eq u64_eq_iff unat_add_u64)

lemma Sub64_exact: "Sub64 e x = Inr y \<longleftrightarrow> unat y + unat x = unat e"
  by (auto simp: Sub64_eq u64_eq_iff word_le_unat unat_minus_u64)

lemma Div64_exact: "Div64 e x = Inr y \<longleftrightarrow> x \<noteq> 0 \<and> unat y = unat e div unat x"
  by (auto simp: Div64_def u64_eq_iff unat_div_u64)

lemma Mod64_exact: "Mod64 e x = Inr y \<longleftrightarrow> x \<noteq> 0 \<and> unat y = unat e mod unat x"
  by (auto simp: Mod64_def u64_eq_iff unat_mod_u64)

lemmas exact_facts = Mul64_exact Add64_exact Sub64_exact Div64_exact Mod64_exact

interpretation epoch: checked_uint64 Epoch_SafeMul Epoch_SafeDiv Epoch_SafeAdd Epoch_SafeSub
  Epoch_SafeMod Epoch_Mul Epoch_Div Epoch_Add Epoch_Sub Epoch_Mod
  by unfold_locales (simp_all add: primitives_defs exact_facts)

interpretation slot: checked_uint64 Slot_SafeMul Slot_SafeDiv Slot_SafeAdd Slot_SafeSub
  Slot_SafeMod Slot_Mul Slot_Div Slot_Add Slot_Sub Slot_Mod
  by unfold_locales (simp_all add: primitives_defs exact_facts)

text \<open>C25. Arithmetic on slots and epochs is exact or refused: the checked sum, difference, product, quotient and remainder are the
  mathematical ones whenever these exist and fit in 64 bits, and an error otherwise; the unchecked forms return the same numbers and
  panic otherwise. No operation returns a wrapped number.\<close>

theorem checked_arithmetic_exact:
  "exactly (Slot_SafeAdd s x) (Slot_Add s x) True (unat s + unat x)
   \<and> exactly (Slot_SafeSub s x) (Slot_Sub s x) (x \<le> s) (unat s - unat x)
   \<and> exactly (Slot_SafeMul s x) (Slot_Mul s x) True (unat s * unat x)
   \<and> exactly (Slot_SafeDiv s x) (Slot_Div s x) (x \<noteq> 0) (unat s div unat x)
   \<and> exactly (Slot_SafeMod s x) (Slot_Mod s x) (x \<noteq> 0) (unat s mod unat x)
   \<and> exactly (Epoch_SafeAdd e x) (Epoch_Add e x) True (unat e + unat x)
   \<and> exactly (Epoch_SafeSub e x) (Epoch_Sub e x) (x \<le> e) (unat e - unat x)
   \<and> exactly (Epoch_SafeMul e x) (Epoch_Mul e x) True (unat e * unat x)
   \<and> exactly (Epoch_SafeDiv e x) (Epoch_Div e x) (x \<noteq> 0) (unat e div unat x)
   \<and> exactly (Epoch_SafeMod e x) (Epoch_Mod e x) (x \<noteq> 0) (unat e mod unat x)"
  by (intro conjI slot.all_exact epoch.all_exact)

end
