(* ===== verification/Beacon_Config.thy ===== *)
theory Beacon_Config
  imports Prelude
begin

text \<open>
  The constants of \<^verbatim>\<open>params.BeaconConfig()\<close> (\<^verbatim>\<open>config/params/config.go\<close>) that the modelled
  code reads, the mainnet values (\<^verbatim>\<open>config/params/mainnet_config.go\<close>) and the fork numbers of
  \<^verbatim>\<open>runtime/version/fork.go\<close>. A function that reads the configuration takes it as its first
  argument. \<open>ZeroHash\<close> is the all-zero root; no configuration overrides it.
\<close>

record BeaconChainConfig =
  SecondsPerSlot :: u64
  SlotsPerEpoch :: Slot
  EpochsPerEth1VotingPeriod :: Epoch
  ProposerScoreBoost :: u64
  ReorgHeadWeightThreshold :: u64
  ReorgParentWeightThreshold :: u64
  ReorgMaxEpochsSinceFinalization :: Epoch
  IntervalsPerSlot :: u64
  AltairForkEpoch :: Epoch
  BellatrixForkEpoch :: Epoch
  CapellaForkEpoch :: Epoch
  DenebForkEpoch :: Epoch
  ElectraForkEpoch :: Epoch
  FuluForkEpoch :: Epoch
  EpochsPerSyncCommitteePeriod :: Epoch
  FarFutureEpoch :: Epoch
  MaxValidatorsPerCommittee :: u64
  MaxCommitteesPerSlot :: u64
  TargetCommitteeSize :: u64
  MinPerEpochChurnLimit :: u64
  ChurnLimitQuotient :: u64
  ShuffleRoundCount :: u64
  HysteresisQuotient :: u64
  HysteresisDownwardMultiplier :: u64
  HysteresisUpwardMultiplier :: u64
  MaxEffectiveBalance :: u64
  EjectionBalance :: u64
  EffectiveBalanceIncrement :: u64
  MinSeedLookahead :: Epoch
  MaxSeedLookahead :: Epoch
  MinValidatorWithdrawabilityDelay :: Epoch
  ShardCommitteePeriod :: Epoch
  MinEpochsToInactivityPenalty :: Epoch
  EpochsPerHistoricalVector :: Epoch
  EpochsPerSlashingsVector :: Epoch
  WhistleBlowerRewardQuotient :: u64
  ProposerRewardQuotient :: u64
  MinSlashingPenaltyQuotient :: u64
  ProportionalSlashingMultiplier :: u64
  MaxProposerSlashings :: u64
  MaxAttesterSlashings :: u64
  MaxAttesterSlashingsElectra :: u64
  MinSlashingPenaltyQuotientAltair :: u64
  ProportionalSlashingMultiplierAltair :: u64
  MinSlashingPenaltyQuotientBellatrix :: u64
  ProportionalSlashingMultiplierBellatrix :: u64
  MaxPerEpochActivationChurnLimit :: u64
  MinPerEpochChurnLimitElectra :: u64
  MaxPerEpochActivationExitChurnLimit :: u64
  MaxEffectiveBalanceElectra :: u64
  MinSlashingPenaltyQuotientElectra :: u64
  WhistleBlowerRewardQuotientElectra :: u64
  MinActivationBalance :: u64

definition mainnetBeaconConfig :: BeaconChainConfig where
  "mainnetBeaconConfig = \<lparr>
     SecondsPerSlot = 12,
     SlotsPerEpoch = 32,
     EpochsPerEth1VotingPeriod = 64,
     ProposerScoreBoost = 40,
     ReorgHeadWeightThreshold = 20,
     ReorgParentWeightThreshold = 160,
     ReorgMaxEpochsSinceFinalization = 2,
     IntervalsPerSlot = 3,
     AltairForkEpoch = 74240,
     BellatrixForkEpoch = 144896,
     CapellaForkEpoch = 194048,
     DenebForkEpoch = 269568,
     ElectraForkEpoch = 364032,
     FuluForkEpoch = MaxUint64,
     EpochsPerSyncCommitteePeriod = 256,
     FarFutureEpoch = MaxUint64,
     MaxValidatorsPerCommittee = 2048,
     MaxCommitteesPerSlot = 64,
     TargetCommitteeSize = 128,
     MinPerEpochChurnLimit = 4,
     ChurnLimitQuotient = 65536,
     ShuffleRoundCount = 90,
     HysteresisQuotient = 4,
     HysteresisDownwardMultiplier = 1,
     HysteresisUpwardMultiplier = 5,
     MaxEffectiveBalance = 32000000000,
     EjectionBalance = 16000000000,
     EffectiveBalanceIncrement = 1000000000,
     MinSeedLookahead = 1,
     MaxSeedLookahead = 4,
     MinValidatorWithdrawabilityDelay = 256,
     ShardCommitteePeriod = 256,
     MinEpochsToInactivityPenalty = 4,
     EpochsPerHistoricalVector = 65536,
     EpochsPerSlashingsVector = 8192,
     WhistleBlowerRewardQuotient = 512,
     ProposerRewardQuotient = 8,
     MinSlashingPenaltyQuotient = 128,
     ProportionalSlashingMultiplier = 1,
     MaxProposerSlashings = 16,
     MaxAttesterSlashings = 2,
     MaxAttesterSlashingsElectra = 1,
     MinSlashingPenaltyQuotientAltair = 64,
     ProportionalSlashingMultiplierAltair = 2,
     MinSlashingPenaltyQuotientBellatrix = 32,
     ProportionalSlashingMultiplierBellatrix = 3,
     MaxPerEpochActivationChurnLimit = 8,
     MinPerEpochChurnLimitElectra = 128000000000,
     MaxPerEpochActivationExitChurnLimit = 256000000000,
     MaxEffectiveBalanceElectra = 2048000000000,
     MinSlashingPenaltyQuotientElectra = 4096,
     WhistleBlowerRewardQuotientElectra = 4096,
     MinActivationBalance = 32000000000\<rparr>"

abbreviation ZeroHash :: bytes32 where "ZeroHash \<equiv> 0"

abbreviation GenesisEpoch :: Epoch where "GenesisEpoch \<equiv> 0"

text \<open>
  The constants the code divides by. Every configuration of the repository has them
  positive, and the model is of the code under such a configuration: with one of them zero
  the divisions panic.
\<close>

definition cfg_ok :: "BeaconChainConfig \<Rightarrow> bool" where
  "cfg_ok cfg \<longleftrightarrow> SecondsPerSlot cfg \<noteq> 0 \<and> SlotsPerEpoch cfg \<noteq> 0 \<and> IntervalsPerSlot cfg \<noteq> 0
     \<and> EpochsPerSyncCommitteePeriod cfg \<noteq> 0 \<and> EpochsPerEth1VotingPeriod cfg \<noteq> 0
     \<and> ChurnLimitQuotient cfg \<noteq> 0 \<and> EffectiveBalanceIncrement cfg \<noteq> 0 \<and> HysteresisQuotient cfg \<noteq> 0
     \<and> TargetCommitteeSize cfg \<noteq> 0 \<and> EpochsPerSlashingsVector cfg \<noteq> 0 \<and> EpochsPerHistoricalVector cfg \<noteq> 0"

lemma cfg_ok_mainnet [simp]: "cfg_ok mainnetBeaconConfig"
  by (simp add: cfg_ok_def mainnetBeaconConfig_def)

lemma cfg_okD:
  assumes "cfg_ok cfg"
  shows "0 < unat (SecondsPerSlot cfg)" "0 < unat (SlotsPerEpoch cfg)"
    "0 < unat (IntervalsPerSlot cfg)" "0 < unat (EpochsPerSyncCommitteePeriod cfg)"
  using assms by (simp_all add: cfg_ok_def unat_gt_0)

section \<open>Fork numbers\<close>

datatype forkVersion = Phase0 | Altair | Bellatrix | Capella | Deneb | Electra | Fulu

text \<open>The numbers Go's \<^verbatim>\<open>iota\<close> gives them, and their order.\<close>

fun versionNumber :: "forkVersion \<Rightarrow> nat" where
  "versionNumber Phase0 = 0"
| "versionNumber Altair = 1"
| "versionNumber Bellatrix = 2"
| "versionNumber Capella = 3"
| "versionNumber Deneb = 4"
| "versionNumber Electra = 5"
| "versionNumber Fulu = 6"

lemma versionNumber_inj: "versionNumber v = versionNumber w \<longleftrightarrow> v = w"
  by (cases v; cases w) simp_all

instantiation forkVersion :: linorder
begin

definition less_eq_forkVersion :: "forkVersion \<Rightarrow> forkVersion \<Rightarrow> bool" where
  "less_eq_forkVersion v w \<longleftrightarrow> versionNumber v \<le> versionNumber w"

definition less_forkVersion :: "forkVersion \<Rightarrow> forkVersion \<Rightarrow> bool" where
  "less_forkVersion v w \<longleftrightarrow> versionNumber v < versionNumber w"

instance
  by standard (auto simp: less_eq_forkVersion_def less_forkVersion_def versionNumber_inj)

end

end
