(* ===== verification/Slots.thy ===== *)
theory Slots
  imports Primitives Beacon_Config
begin

text \<open>
  Slot and epoch time arithmetic, \<^verbatim>\<open>time/slots/slottime.go\<close>. An instant is its distance
  from the Unix epoch in nanoseconds. A duration is Go's \<^verbatim>\<open>time.Duration\<close>: a signed 64-bit
  number of nanoseconds, whose products wrap and which \<^verbatim>\<open>Time.Sub\<close> saturates. Where the code
  reads the clock, the reading is the argument \<open>now\<close>.
\<close>

type_synonym Time = int
type_synonym Duration = int

abbreviation Second :: Duration where "Second \<equiv> 1000000000"
abbreviation Millisecond :: Duration where "Millisecond \<equiv> 1000000"

text \<open>The operations of Go's \<^verbatim>\<open>time\<close> package the code uses.\<close>

definition Time_Add :: "Time \<Rightarrow> Duration \<Rightarrow> Time" where
  "Time_Add t d = t + d"

definition Time_Sub :: "Time \<Rightarrow> Time \<Rightarrow> Duration" where
  "Time_Sub t u = max MinInt (min MaxInt (t - u))"

definition Time_Before :: "Time \<Rightarrow> Time \<Rightarrow> bool" where
  "Time_Before t u \<longleftrightarrow> t < u"

definition Time_Unix :: "Time \<Rightarrow> int" where
  "Time_Unix t = t div Second"

definition Time_TruncateSecond :: "Time \<Rightarrow> Time" where
  "Time_TruncateSecond t = t - t mod Second"

text \<open>The conversion \<^verbatim>\<open>time.Duration(x)\<close> of an unsigned number, and the product of durations.\<close>

definition toDuration :: "u64 \<Rightarrow> Duration" where
  "toDuration x = sint x"

definition Duration_mul :: "Duration \<Rightarrow> Duration \<Rightarrow> Duration" where
  "Duration_mul a b = i64 (a * b)"

abbreviation MaxSlotBuffer :: u64 where "MaxSlotBuffer \<equiv> 128"

section \<open>Slots and epochs\<close>

definition ToEpoch :: "BeaconChainConfig \<Rightarrow> Slot \<Rightarrow> Epoch" where
  "ToEpoch cfg slot = slot div SlotsPerEpoch cfg"

definition ToForkVersion :: "BeaconChainConfig \<Rightarrow> Slot \<Rightarrow> forkVersion" where
  "ToForkVersion cfg slot = (let epoch = ToEpoch cfg slot in
     if epoch \<ge> FuluForkEpoch cfg then Fulu
     else if epoch \<ge> ElectraForkEpoch cfg then Electra
     else if epoch \<ge> DenebForkEpoch cfg then Deneb
     else if epoch \<ge> CapellaForkEpoch cfg then Capella
     else if epoch \<ge> BellatrixForkEpoch cfg then Bellatrix
     else if epoch \<ge> AltairForkEpoch cfg then Altair
     else Phase0)"

definition EpochStart :: "BeaconChainConfig \<Rightarrow> Epoch \<Rightarrow> Slot result" where
  "EpochStart cfg epoch =
     (case Slot_SafeMul (SlotsPerEpoch cfg) epoch of
        Inl e \<Rightarrow> Inl e
      | Inr slot \<Rightarrow> Inr slot)"

definition UnsafeEpochStart :: "BeaconChainConfig \<Rightarrow> Epoch \<Rightarrow> Slot result" where
  "UnsafeEpochStart cfg epoch =
     (case EpochStart cfg epoch of Inl e \<Rightarrow> Inl Panic | Inr es \<Rightarrow> Inr es)"

definition EpochEnd :: "BeaconChainConfig \<Rightarrow> Epoch \<Rightarrow> Slot result" where
  "EpochEnd cfg epoch =
     (if epoch = MaxUint64 then Inl ErrMulOverflow
      else case EpochStart cfg (epoch + 1) of
        Inl e \<Rightarrow> Inl e
      | Inr slot \<Rightarrow> Inr (slot - 1))"

definition IsEpochStart :: "BeaconChainConfig \<Rightarrow> Slot \<Rightarrow> bool" where
  "IsEpochStart cfg slot \<longleftrightarrow> slot mod SlotsPerEpoch cfg = 0"

definition IsEpochEnd :: "BeaconChainConfig \<Rightarrow> Slot \<Rightarrow> bool" where
  "IsEpochEnd cfg slot \<longleftrightarrow> IsEpochStart cfg (slot + 1)"

definition SinceEpochStarts :: "BeaconChainConfig \<Rightarrow> Slot \<Rightarrow> Slot" where
  "SinceEpochStarts cfg slot = slot mod SlotsPerEpoch cfg"

definition AbsoluteValueSlotDifference :: "Slot \<Rightarrow> Slot \<Rightarrow> u64 result" where
  "AbsoluteValueSlotDifference x y = (if x > y then Slot_SubSlot x y else Slot_SubSlot y x)"

definition RoundUpToNearestEpoch :: "BeaconChainConfig \<Rightarrow> Slot \<Rightarrow> Slot" where
  "RoundUpToNearestEpoch cfg slot =
     (if slot mod SlotsPerEpoch cfg \<noteq> 0
      then slot - slot mod SlotsPerEpoch cfg + SlotsPerEpoch cfg
      else slot)"

definition VotingPeriodStartTime :: "BeaconChainConfig \<Rightarrow> u64 \<Rightarrow> Slot \<Rightarrow> u64 result" where
  "VotingPeriodStartTime cfg genesis slot =
     rbind (Slot_Mul (SlotsPerEpoch cfg) (EpochsPerEth1VotingPeriod cfg)) (\<lambda>slots.
     rbind (Slot_ModSlot slot slots) (\<lambda>m.
     rbind (Slot_Mul (slot - m) (SecondsPerSlot cfg)) (\<lambda>startTime.
     Inr (genesis + startTime))))"

definition PrevSlot :: "Slot \<Rightarrow> Slot result" where
  "PrevSlot slot = (if slot > 0 then Slot_Sub slot 1 else Inr 0)"

definition SyncCommitteePeriod :: "BeaconChainConfig \<Rightarrow> Epoch \<Rightarrow> u64" where
  "SyncCommitteePeriod cfg e = e div EpochsPerSyncCommitteePeriod cfg"

definition SyncCommitteePeriodStartEpoch :: "BeaconChainConfig \<Rightarrow> Epoch \<Rightarrow> Epoch result" where
  "SyncCommitteePeriodStartEpoch cfg e =
     (case Mul64 (SyncCommitteePeriod cfg e) (EpochsPerSyncCommitteePeriod cfg) of
        Inl er \<Rightarrow> Inl er
      | Inr startEpoch \<Rightarrow> Inr startEpoch)"

definition MaxSafeEpoch :: "BeaconChainConfig \<Rightarrow> Epoch" where
  "MaxSafeEpoch cfg = MaxUint64 div SlotsPerEpoch cfg"

section \<open>Slots and wall-clock time\<close>

definition DivideSlotBy :: "BeaconChainConfig \<Rightarrow> int \<Rightarrow> Duration result" where
  "DivideSlotBy cfg timesPerSlot =
     (if timesPerSlot = 0 then Inl Panic
      else Inr (Duration_mul (i64 (sint (SecondsPerSlot cfg * 1000) sdiv timesPerSlot)) Millisecond))"

definition MultiplySlotBy :: "BeaconChainConfig \<Rightarrow> int \<Rightarrow> Duration" where
  "MultiplySlotBy cfg n = Duration_mul (i64 (sint (SecondsPerSlot cfg) * n)) Second"

definition StartTime :: "BeaconChainConfig \<Rightarrow> Time \<Rightarrow> Slot \<Rightarrow> Time result" where
  "StartTime cfg genesis slot =
     (case Slot_SafeMul slot (SecondsPerSlot cfg) of
        Inl e \<Rightarrow> Inl ErrFarFutureSlot
      | Inr _ \<Rightarrow>
          let sd = Duration_mul (Duration_mul Second (toDuration (SecondsPerSlot cfg)))
                     (toDuration slot)
          in Inr (Time_Add genesis sd))"

definition UnsafeStartTime :: "BeaconChainConfig \<Rightarrow> Time \<Rightarrow> Slot \<Rightarrow> Time result" where
  "UnsafeStartTime cfg genesis slot =
     (case StartTime cfg genesis slot of Inl e \<Rightarrow> Inl Panic | Inr tm \<Rightarrow> Inr tm)"

definition At :: "BeaconChainConfig \<Rightarrow> Time \<Rightarrow> Time \<Rightarrow> Slot" where
  "At cfg genesis tm =
     (if Time_Before tm genesis then 0
      else of_int ((Time_Sub tm genesis sdiv Second) sdiv toDuration (SecondsPerSlot cfg)))"

definition CurrentSlot :: "BeaconChainConfig \<Rightarrow> Time \<Rightarrow> Time \<Rightarrow> Slot" where
  "CurrentSlot cfg now genesis = At cfg genesis now"

definition EpochsSinceGenesis :: "BeaconChainConfig \<Rightarrow> Time \<Rightarrow> Time \<Rightarrow> Epoch" where
  "EpochsSinceGenesis cfg now genesis = CurrentSlot cfg now genesis div SlotsPerEpoch cfg"

definition slots_Duration :: "BeaconChainConfig \<Rightarrow> Time \<Rightarrow> Time \<Rightarrow> Slot" where
  "slots_Duration cfg start fin =
     (if Time_Before fin start then 0
      else (of_int (i64 (Time_Unix fin - Time_Unix start)) :: u64) div SecondsPerSlot cfg)"

definition ValidateClock :: "BeaconChainConfig \<Rightarrow> Time \<Rightarrow> Slot \<Rightarrow> Time \<Rightarrow> unit result" where
  "ValidateClock cfg now slot genesis =
     rbind (Slot_Add (CurrentSlot cfg now genesis) MaxSlotBuffer) (\<lambda>maxPossibleSlot.
     if slot > maxPossibleSlot then Inl ErrMaxSlot else Inr ())"

text \<open>\<^verbatim>\<open>VerifyTime\<close> reads the clock twice, in \<^verbatim>\<open>ValidateClock\<close> and after it.\<close>

definition VerifyTime ::
    "BeaconChainConfig \<Rightarrow> Time \<Rightarrow> Time \<Rightarrow> Time \<Rightarrow> Slot \<Rightarrow> Duration \<Rightarrow> unit result" where
  "VerifyTime cfg now1 now2 genesis slot timeTolerance =
     rbind (StartTime cfg genesis slot) (\<lambda>slotTime.
     rbind (ValidateClock cfg now1 slot genesis) (\<lambda>_.
     let diff = Time_Sub slotTime now2 in
     if diff > timeTolerance then Inl ErrSlotFromFuture else Inr ()))"

definition SinceSlotStart :: "BeaconChainConfig \<Rightarrow> Slot \<Rightarrow> Time \<Rightarrow> Time \<Rightarrow> Duration result" where
  "SinceSlotStart cfg s genesis timestamp =
     (let limit = Time_Add genesis (Duration_mul (toDuration (s * SecondsPerSlot cfg)) Second) in
      if Time_Before timestamp limit then Inl ErrInvalidTimestamp
      else Inr (Time_Sub timestamp limit))"

definition WithinVotingWindow :: "BeaconChainConfig \<Rightarrow> Time \<Rightarrow> Time \<Rightarrow> Slot \<Rightarrow> bool result" where
  "WithinVotingWindow cfg now genesis slot =
     (let votingWindow = SecondsPerSlot cfg div IntervalsPerSlot cfg in
      rbind (UnsafeStartTime cfg genesis slot) (\<lambda>st.
      Inr (Time_Sub now st < Duration_mul (toDuration votingWindow) Second)))"

definition SecondsUntilNextEpochStart ::
    "BeaconChainConfig \<Rightarrow> Time \<Rightarrow> Time \<Rightarrow> Time \<Rightarrow> u64 result" where
  "SecondsUntilNextEpochStart cfg now1 now2 genesis =
     (let currentSlot = CurrentSlot cfg now1 genesis in
      rbind (EpochStart cfg (ToEpoch cfg currentSlot + 1)) (\<lambda>firstSlotOfNextEpoch.
      rbind (StartTime cfg genesis firstSlotOfNextEpoch) (\<lambda>nextEpochStartTime.
      let es = Time_Unix nextEpochStartTime; n = Time_Unix now2 in
      Inr (of_int (es - n)))))"

section \<open>Epoch boundaries\<close>

lemma EpochStart_eq: "EpochStart cfg e = Slot_SafeMul (SlotsPerEpoch cfg) e"
  by (simp add: EpochStart_def split: sum.splits)

lemma EpochStart_exact:
  "EpochStart cfg e = Inr s \<longleftrightarrow> unat s = unat (SlotsPerEpoch cfg) * unat e"
  by (simp add: EpochStart_eq slot.SafeMul_exact)

lemma EpochStart_Inl: "EpochStart cfg e = Inl er \<Longrightarrow> er = ErrMulOverflow"
  by (auto simp: EpochStart_eq Slot_SafeMul_def Mul64_eq split: if_splits)

lemma EpochStart_total:
  "unat (SlotsPerEpoch cfg) * unat e < 2 ^ 64 \<Longrightarrow> EpochStart cfg e = Inr (SlotsPerEpoch cfg * e)"
  by (simp add: EpochStart_exact unat_mult_exact)

lemma EpochStart_ToEpoch:
  "EpochStart cfg (ToEpoch cfg s) = Inr (SlotsPerEpoch cfg * ToEpoch cfg s)"
proof (rule EpochStart_total)
  have "unat (SlotsPerEpoch cfg) * unat (ToEpoch cfg s) \<le> unat s"
    by (simp add: ToEpoch_def unat_div_u64)
  then show "unat (SlotsPerEpoch cfg) * unat (ToEpoch cfg s) < 2 ^ 64"
    using unat_u64_bound [of s] by simp
qed

lemma EpochStart_le_iff:
  assumes "cfg_ok cfg" and "EpochStart cfg e = Inr es"
  shows "es \<le> s \<longleftrightarrow> e \<le> ToEpoch cfg s"
  using assms cfg_okD(2) [OF assms(1)]
  by (simp add: EpochStart_exact ToEpoch_def word_le_unat unat_div_u64 less_eq_div_iff_mult_less_eq
      mult.commute)

lemma EpochEnd_exact:
  assumes "cfg_ok cfg"
  shows "EpochEnd cfg e = Inr s \<longleftrightarrow>
    unat s + 1 = unat (SlotsPerEpoch cfg) * (unat e + 1) \<and> unat s + 1 < 2 ^ 64"
proof (cases "e = MaxUint64")
  case True
  have "1 * (unat e + 1) \<le> unat (SlotsPerEpoch cfg) * (unat e + 1)"
    using cfg_okD(2) [OF assms] by (intro mult_le_mono) simp_all
  with True show ?thesis by (auto simp: EpochEnd_def)
next
  case False
  then have "unat e \<noteq> 18446744073709551615" by (simp add: u64_eq_iff)
  then have e1: "unat (e + 1) = unat e + 1"
    using unat_u64_bound [of e] by (simp add: unat_add_u64)
  have pos: "unat (SlotsPerEpoch cfg) * (unat e + 1) \<noteq> 0"
    using cfg_okD(2) [OF assms] by simp
  have "EpochEnd cfg e = Inr s \<longleftrightarrow> (\<exists>x. EpochStart cfg (e + 1) = Inr x \<and> s = x - 1)"
    using False by (auto simp: EpochEnd_def split: sum.splits)
  also have "\<dots> \<longleftrightarrow> unat s + 1 = unat (SlotsPerEpoch cfg) * (unat e + 1) \<and> unat s + 1 < 2 ^ 64"
  proof
    assume "\<exists>x. EpochStart cfg (e + 1) = Inr x \<and> s = x - 1"
    then obtain x where "unat x = unat (SlotsPerEpoch cfg) * (unat e + 1)" "s = x - 1"
      by (auto simp: EpochStart_exact e1)
    moreover from this pos have "0 < unat x" by simp
    ultimately show "unat s + 1 = unat (SlotsPerEpoch cfg) * (unat e + 1) \<and> unat s + 1 < 2 ^ 64"
      using unat_u64_bound [of x] by (simp add: unat_pred_u64)
  next
    assume s: "unat s + 1 = unat (SlotsPerEpoch cfg) * (unat e + 1) \<and> unat s + 1 < 2 ^ 64"
    then have "unat (s + 1) = unat s + 1" by (simp add: unat_add_u64)
    then show "\<exists>x. EpochStart cfg (e + 1) = Inr x \<and> s = x - 1"
      using s by (intro exI [of _ "s + 1"]) (simp add: EpochStart_exact e1)
  qed
  finally show ?thesis .
qed

text \<open>Every slot lies between the start and the end of its epoch.\<close>

lemma slot_between_epoch_bounds:
  assumes "cfg_ok cfg"
  obtains es where "EpochStart cfg (ToEpoch cfg s) = Inr es" "es \<le> s" "ToEpoch cfg es = ToEpoch cfg s"
    "s - es = SinceEpochStarts cfg s" "IsEpochStart cfg es"
    "\<And>ee. EpochEnd cfg (ToEpoch cfg s) = Inr ee \<Longrightarrow> s \<le> ee"
proof
  let ?n = "SlotsPerEpoch cfg" and ?es = "SlotsPerEpoch cfg * ToEpoch cfg s"
  have n: "0 < unat ?n" using cfg_okD(2) [OF assms] .
  show start: "EpochStart cfg (ToEpoch cfg s) = Inr ?es" by (rule EpochStart_ToEpoch)
  then have ues: "unat ?es = unat ?n * (unat s div unat ?n)"
    by (simp add: EpochStart_exact ToEpoch_def unat_div_u64)
  show le: "?es \<le> s"
    by (simp add: word_le_unat ues)
  show "ToEpoch cfg ?es = ToEpoch cfg s"
    using n by (simp add: ToEpoch_def u64_eq_iff unat_div_u64) (use ues in \<open>simp add: ToEpoch_def\<close>)
  show "s - ?es = SinceEpochStarts cfg s"
    using le by (simp add: SinceEpochStarts_def u64_eq_iff unat_minus_u64 unat_mod_u64 ues
        minus_mult_div_eq_mod)
  show "IsEpochStart cfg ?es"
    by (simp add: IsEpochStart_def u64_eq_iff unat_mod_u64 ues)
  fix ee assume "EpochEnd cfg (ToEpoch cfg s) = Inr ee"
  then have "unat ee + 1 = unat ?n * (unat s div unat ?n + 1)"
    by (simp add: EpochEnd_exact [OF assms] ToEpoch_def unat_div_u64)
  moreover have "unat s < unat ?n * (unat s div unat ?n + 1)"
    using n by (metis add.commute mult.commute mult_Suc_right plus_1_eq_Suc dividend_less_div_times)
  ultimately show "s \<le> ee" by (simp add: word_le_unat)
qed

section \<open>The slot of an instant\<close>

lemma sdiv_nonneg: "0 \<le> (a::int) \<Longrightarrow> 0 < b \<Longrightarrow> a sdiv b = a div b"
  by (simp add: signed_divide_int_def sgn_if)

lemma sint_small: "uint (x :: u64) < 2 ^ 63 \<Longrightarrow> sint x = uint x"
  by (simp add: sint_uint signed_take_bit_int_eq_self_iff)
     (use uint_ge_0 [of x] in linarith)

lemma cfg_ok_seconds: "cfg_ok cfg \<Longrightarrow> 0 < uint (SecondsPerSlot cfg)"
  using uint_ge_0 [of "SecondsPerSlot cfg"]
  by (auto simp: cfg_ok_def less_le unsigned_eq_0_iff)

lemma uint_of_int_u64: "0 \<le> q \<Longrightarrow> q \<le> MaxInt \<Longrightarrow> uint (of_int q :: u64) = q"
  by (simp add: uint_word_of_int_eq take_bit_int_eq_self_iff)

lemma quotient_range:
  "0 \<le> (d::int) \<Longrightarrow> 0 < n \<Longrightarrow> 0 \<le> d div n \<and> d div n \<le> d"
  by (simp add: pos_imp_zdiv_nonneg_iff)
     (metis div_by_1 int_one_le_iff_zero_less zdiv_mono2 zero_less_one)

text \<open>
  The slot number of an instant after genesis, for a slot length below \<open>2^63\<close> seconds and an
  instant that a \<^verbatim>\<open>time.Duration\<close> can reach.
\<close>

lemma At_eq:
  assumes "cfg_ok cfg" and "uint (SecondsPerSlot cfg) < 2 ^ 63" and "g \<le> tm" and "tm - g \<le> MaxInt"
  shows "uint (At cfg g tm) = (tm - g) div (Second * uint (SecondsPerSlot cfg))"
proof -
  let ?q = "(tm - g) div (Second * uint (SecondsPerSlot cfg))"
  note sec = cfg_ok_seconds [OF assms(1)]
  have "At cfg g tm = of_int ?q"
    using assms(2-4) sec
    by (simp add: At_def Time_Before_def Time_Sub_def toDuration_def sint_small sdiv_nonneg
        zdiv_zmult2_eq pos_imp_zdiv_nonneg_iff)
  moreover have "0 \<le> ?q \<and> ?q \<le> tm - g"
    using assms(3) sec by (intro quotient_range) simp_all
  ultimately show ?thesis
    using assms(4) by (simp add: uint_of_int_u64)
qed

text \<open>The start of a slot that a duration can reach, and the time since then.\<close>

lemma slot_time_bounds:
  fixes n sec :: int
  assumes "n * sec * Second \<le> MaxInt" and "0 < sec" and "0 < n"
  shows "sec * Second \<le> MaxInt" "n \<le> MaxInt" "n * sec \<le> MaxInt" "sec \<le> MaxInt"
proof -
  have "1 * (sec * Second) \<le> n * (sec * Second)"
    using assms by (intro mult_right_mono) auto
  with assms(1) show sec: "sec * Second \<le> MaxInt" by (simp add: mult.assoc)
  have "n * 1 \<le> n * (sec * Second)" using assms by (intro mult_left_mono) auto
  with assms(1) show "n \<le> MaxInt" by (simp add: mult.assoc)
  have "n * sec * 1 \<le> n * sec * Second" using assms by (intro mult_left_mono) auto
  with assms(1) show "n * sec \<le> MaxInt" by linarith
  from sec assms(2) show "sec \<le> MaxInt" by simp
qed

lemma Slot_SafeMul_small:
  assumes "uint a * uint b \<le> MaxInt"
  shows "Slot_SafeMul a b = Inr (a * b)" and "uint (a * b) = uint a * uint b"
proof -
  have "int (unat a * unat b) \<le> MaxInt" using assms by simp
  then have "int (unat a * unat b) < int (2 ^ 64)" by simp
  then have lt: "unat a * unat b < 2 ^ 64" by (simp only: of_nat_less_iff)
  then show "Slot_SafeMul a b = Inr (a * b)" by (simp add: Slot_SafeMul_def Mul64_eq)
  have "int (unat (a * b)) = int (unat a * unat b)" using lt by (simp add: unat_mult_exact)
  then show "uint (a * b) = uint a * uint b" by simp
qed





lemma StartTime_eq:
  assumes "uint slot * uint (SecondsPerSlot cfg) * Second \<le> MaxInt" and "0 < uint (SecondsPerSlot cfg)"
  shows "StartTime cfg g slot = Inr (g + uint slot * uint (SecondsPerSlot cfg) * Second)"
proof (cases "slot = 0")
  case True
  then show ?thesis
    by (simp add: StartTime_def Slot_SafeMul_small toDuration_def Duration_mul_def Time_Add_def i64_def)
next
  case False
  then have n: "0 < uint slot" using uint_ge_0 [of slot] by (auto simp: less_le unsigned_eq_0_iff)
  note b = slot_time_bounds [OF assms n]
  have "0 \<le> uint slot * uint (SecondsPerSlot cfg) * Second" by simp
  with b assms(1) show ?thesis
    by (simp add: StartTime_def Slot_SafeMul_small toDuration_def sint_small Duration_mul_def
        Time_Add_def i64_nonneg mult.commute mult.left_commute)
qed

lemma SinceSlotStart_eq:
  assumes "uint slot * uint (SecondsPerSlot cfg) * Second \<le> MaxInt" and "0 < uint (SecondsPerSlot cfg)"
    and "g + uint slot * uint (SecondsPerSlot cfg) * Second \<le> tm"
  shows "SinceSlotStart cfg slot g tm =
    Inr (min MaxInt (tm - (g + uint slot * uint (SecondsPerSlot cfg) * Second)))"
proof -
  have le: "uint slot * uint (SecondsPerSlot cfg) \<le> MaxInt"
  proof (cases "slot = 0")
    case False
    then have n: "0 < uint slot" using uint_ge_0 [of slot] by (auto simp: less_le unsigned_eq_0_iff)
    show ?thesis using slot_time_bounds(3) [OF assms(1,2) n] .
  qed simp
  have "toDuration (slot * SecondsPerSlot cfg) = uint slot * uint (SecondsPerSlot cfg)"
    using le by (simp add: toDuration_def sint_small Slot_SafeMul_small)
  moreover have "0 \<le> uint slot * uint (SecondsPerSlot cfg) * Second" by simp
  ultimately show ?thesis
    using assms(1,3) by (simp add: SinceSlotStart_def Duration_mul_def i64_nonneg Time_Add_def
        Time_Before_def Time_Sub_def Let_def)
qed

text \<open>The slot at an instant started at or before it and ends after it.\<close>

lemma At_StartTime:
  assumes "cfg_ok cfg" and "uint (SecondsPerSlot cfg) < 2 ^ 63" and "g \<le> tm" and "tm - g \<le> MaxInt"
  shows "\<exists>st. StartTime cfg g (At cfg g tm) = Inr st \<and> st \<le> tm
      \<and> tm < st + uint (SecondsPerSlot cfg) * Second
      \<and> SinceSlotStart cfg (At cfg g tm) g tm = Inr (tm - st)"
proof -
  let ?sec = "uint (SecondsPerSlot cfg)" and ?d = "tm - g"
  let ?n = "?d div (Second * ?sec)"
  note sec = cfg_ok_seconds [OF assms(1)]
  have at: "uint (At cfg g tm) = ?n" by (rule At_eq [OF assms])
  have k: "0 < Second * ?sec" using sec by simp
  note le = div_bounds(1) [OF k, of ?d] and lt = div_bounds(2) [OF k, of ?d]
  let ?st = "g + ?n * ?sec * Second"
  have max: "uint (At cfg g tm) * ?sec * Second \<le> MaxInt"
    using le assms(4) by (simp add: at mult.commute mult.left_commute)
  have st: "?st \<le> tm" "tm < ?st + ?sec * Second"
    using le lt by (simp_all add: mult.commute mult.left_commute)
  have "0 \<le> ?n * ?sec * Second"
    using assms(3) sec by (simp add: pos_imp_zdiv_nonneg_iff)
  with assms(4) have "tm - ?st \<le> MaxInt" by linarith
  with st show ?thesis
    using StartTime_eq [OF max sec, of g] SinceSlotStart_eq [OF max sec, of g tm]
    by (intro exI [of _ ?st]) (simp add: at)
qed

section \<open>Properties\<close>

text \<open>Every slot lies in its epoch: the start of the epoch exists, is itself in the epoch and an
  epoch start, lies at or before the slot by as many slots as \<^verbatim>\<open>SinceEpochStarts\<close> says, and the end
  of the epoch, where it fits in 64 bits, is not before the slot.\<close>

theorem slot_in_its_epoch:
  assumes "cfg_ok cfg"
  shows "\<exists>es. EpochStart cfg (ToEpoch cfg s) = Inr es \<and> es \<le> s \<and> ToEpoch cfg es = ToEpoch cfg s
    \<and> s - es = SinceEpochStarts cfg s \<and> IsEpochStart cfg es
    \<and> (\<forall>ee. EpochEnd cfg (ToEpoch cfg s) = Inr ee \<longrightarrow> s \<le> ee)"
  using slot_between_epoch_bounds [OF assms, of s] by metis

theorem slot_in_its_epoch_witness:
  "cfg_ok mainnetBeaconConfig \<and> EpochStart mainnetBeaconConfig (ToEpoch mainnetBeaconConfig 100) = Inr 96
   \<and> (\<exists>es. EpochStart mainnetBeaconConfig (ToEpoch mainnetBeaconConfig 100) = Inr es \<and> es \<le> 100
      \<and> 100 - es = SinceEpochStarts mainnetBeaconConfig 100)"
proof -
  have "EpochStart mainnetBeaconConfig (ToEpoch mainnetBeaconConfig 100) = Inr 96"
    by (simp add: EpochStart_exact ToEpoch_def mainnetBeaconConfig_def)
  then show ?thesis using slot_in_its_epoch [of mainnetBeaconConfig 100] by auto
qed

text \<open>C24. The clock round trip: the slot \<^verbatim>\<open>At\<close> computes for an instant after genesis starts, by
  \<^verbatim>\<open>StartTime\<close>, at or before that instant and less than one slot length before it, and
  \<^verbatim>\<open>SinceSlotStart\<close> returns the time passed since then. It holds for every instant a Go duration
  can reach from genesis.\<close>

theorem slot_clock_roundtrip:
  assumes "cfg_ok cfg" and "uint (SecondsPerSlot cfg) < 2 ^ 63" and "g \<le> tm" and "tm - g \<le> MaxInt"
  shows "\<exists>st. StartTime cfg g (At cfg g tm) = Inr st \<and> st \<le> tm
      \<and> tm < st + uint (SecondsPerSlot cfg) * Second
      \<and> SinceSlotStart cfg (At cfg g tm) g tm = Inr (tm - st)"
  by (rule At_StartTime [OF assms])

theorem slot_clock_roundtrip_witness:
  "cfg_ok mainnetBeaconConfig \<and> uint (SecondsPerSlot mainnetBeaconConfig) < 2 ^ 63
   \<and> (\<exists>st. StartTime mainnetBeaconConfig 1606824023000000000
             (At mainnetBeaconConfig 1606824023000000000 1606824050000000000) = Inr st
       \<and> st \<le> 1606824050000000000 \<and> 1606824050000000000 < st + 12 * Second)"
  using slot_clock_roundtrip [of mainnetBeaconConfig 1606824023000000000 1606824050000000000]
  by (auto simp: mainnetBeaconConfig_def cfg_ok_def)



end
