(* ===== verification/FC_Types.thy ===== *)
theory FC_Types
  imports Slots
begin

text \<open>
  The data of the fork choice store, \<^verbatim>\<open>beacon-chain/forkchoice/doubly-linked-tree/types.go\<close>
  and \<^verbatim>\<open>beacon-chain/forkchoice/types/types.go\<close>, and the tree structure of its node heap.

  The Go code links \<^verbatim>\<open>*Node\<close> objects by pointers and mutates them in place. Here the nodes
  ever allocated are a list, a pointer is an index into it (\<open>addr\<close>), \<^verbatim>\<open>nil\<close> is \<open>None\<close> and
  allocation appends. Nothing is ever deallocated: a node no map refers to any more is
  garbage that pointers may still reach, as in Go. A Go map is an association list with
  distinct keys; its order stands for the iteration order, which Go leaves open.
\<close>

type_synonym addr = nat

record Checkpoint =
  cp_Epoch :: Epoch
  cp_Root :: bytes32

record Node =
  n_slot :: Slot
  n_root :: bytes32
  n_payloadHash :: bytes32
  n_parent :: "addr option"
  n_target :: "addr option"
  n_children :: "addr list"
  n_justifiedEpoch :: Epoch
  n_unrealizedJustifiedEpoch :: Epoch
  n_finalizedEpoch :: Epoch
  n_unrealizedFinalizedEpoch :: Epoch
  n_balance :: u64
  n_weight :: u64
  n_bestDescendant :: "addr option"
  n_optimistic :: bool
  n_timestamp :: Time

type_synonym heap = "Node list"

record Vote =
  v_currentRoot :: bytes32
  v_nextRoot :: bytes32
  v_nextEpoch :: Epoch

record Store =
  s_heap :: heap
  s_justifiedCheckpoint :: Checkpoint
  s_unrealizedJustifiedCheckpoint :: Checkpoint
  s_unrealizedFinalizedCheckpoint :: Checkpoint
  s_prevJustifiedCheckpoint :: Checkpoint
  s_finalizedCheckpoint :: Checkpoint
  s_proposerBoostRoot :: bytes32
  s_previousProposerBoostRoot :: bytes32
  s_previousProposerBoostScore :: u64
  s_committeeWeight :: u64
  s_treeRootNode :: "addr option"
  s_headNode :: "addr option"
  s_nodeByRoot :: "(bytes32 \<times> addr) list"
  s_nodeByPayload :: "(bytes32 \<times> addr) list"
  s_slashedIndices :: "ValidatorIndex set"
  s_originRoot :: bytes32
  s_genesisTime :: Time
  s_highestReceivedNode :: "addr option"
  s_receivedBlocksLastEpoch :: "Slot list"
  s_allTipsAreInvalid :: bool

text \<open>
  \<^verbatim>\<open>balancesByRoot\<close> is the handler the blockchain service installs; it is a parameter of the
  model, as a field of the object as in the code.
\<close>

record ForkChoice =
  f_store :: Store
  f_votes :: "Vote list"
  f_balances :: "u64 list"
  f_justifiedBalances :: "u64 list"
  f_numActiveValidators :: u64
  f_balancesByRoot :: "bytes32 \<Rightarrow> u64 list result"

text \<open>What the store reads of a block (\<^verbatim>\<open>consensus_blocks.ROBlock\<close>).\<close>

record ROBlock =
  b_root :: bytes32
  b_slot :: Slot
  b_parentRoot :: bytes32
  b_version :: forkVersion
  b_executionBlockHash :: "bytes32 result"

record BlockAndCheckpoints =
  bc_Block :: ROBlock
  bc_JustifiedCheckpoint :: Checkpoint
  bc_FinalizedCheckpoint :: Checkpoint

text \<open>
  A context is asked for its error at every node a traversal visits, and by some methods of
  the store before they start. It is the predicate that tells at which of these checks it is
  found cancelled, \<open>Some n\<close> for a check at the node \<open>n\<close> and \<open>None\<close> for one at no node, so that
  a cancellation may arrive at any point of a traversal. \<open>background\<close> is never cancelled.
\<close>

type_synonym ctx = "addr option \<Rightarrow> bool"

abbreviation background :: ctx where "background \<equiv> (\<lambda>_. False)"

abbreviation modify :: "addr \<Rightarrow> (Node \<Rightarrow> Node) \<Rightarrow> heap \<Rightarrow> heap" where
  "modify a f h \<equiv> h[a := f (h ! a)]"

section \<open>Well-formed node heaps\<close>

text \<open>
  Children are allocated after their parent, point back to it and are listed once. This
  holds of every node of the heap, garbage included.
\<close>

definition tree_heap :: "heap \<Rightarrow> bool" where
  "tree_heap h \<longleftrightarrow> (\<forall>a < length h. distinct (n_children (h ! a))
     \<and> (\<forall>c \<in> set (n_children (h ! a)). a < c \<and> c < length h \<and> n_parent (h ! c) = Some a)
     \<and> (\<forall>p. n_parent (h ! a) = Some p \<longrightarrow> p < a))"

lemma tree_heapD:
  assumes "tree_heap h" and "a < length h"
  shows "distinct (n_children (h ! a))"
    and "c \<in> set (n_children (h ! a)) \<Longrightarrow> a < c"
    and "c \<in> set (n_children (h ! a)) \<Longrightarrow> c < length h"
    and "c \<in> set (n_children (h ! a)) \<Longrightarrow> n_parent (h ! c) = Some a"
    and "n_parent (h ! a) = Some p \<Longrightarrow> p < a"
  using assms unfolding tree_heap_def by blast+

lemma tree_heapI:
  assumes "\<And>a. a < length h \<Longrightarrow> distinct (n_children (h ! a))"
    and "\<And>a c. a < length h \<Longrightarrow> c \<in> set (n_children (h ! a)) \<Longrightarrow>
      a < c \<and> c < length h \<and> n_parent (h ! c) = Some a"
    and "\<And>a p. a < length h \<Longrightarrow> n_parent (h ! a) = Some p \<Longrightarrow> p < a"
  shows "tree_heap h"
  using assms unfolding tree_heap_def by blast

text \<open>\<open>desc h a d\<close>: the node \<open>d\<close> is \<open>a\<close> or below it.\<close>

inductive desc :: "heap \<Rightarrow> addr \<Rightarrow> addr \<Rightarrow> bool" for h where
  desc_refl: "desc h a a"
| desc_step: "desc h a b \<Longrightarrow> c \<in> set (n_children (h ! b)) \<Longrightarrow> desc h a c"

declare desc_refl [simp, intro]

lemma desc_trans: "desc h b d \<Longrightarrow> desc h a b \<Longrightarrow> desc h a d"
  by (induction rule: desc.induct) (auto intro: desc_step)

lemma desc_child: "c \<in> set (n_children (h ! a)) \<Longrightarrow> desc h c d \<Longrightarrow> desc h a d"
  by (rule desc_trans) (auto intro: desc_step)

lemma desc_unfold:
  "desc h a d \<longleftrightarrow> d = a \<or> (\<exists>c \<in> set (n_children (h ! a)). desc h c d)"
proof
  assume "desc h a d"
  then show "d = a \<or> (\<exists>c \<in> set (n_children (h ! a)). desc h c d)"
    by (induction rule: desc.induct) (auto intro: desc_step)
next
  assume "d = a \<or> (\<exists>c \<in> set (n_children (h ! a)). desc h c d)"
  then show "desc h a d" by (auto intro: desc_child)
qed

lemma desc_range:
  "desc h a d \<Longrightarrow> tree_heap h \<Longrightarrow> a < length h \<Longrightarrow> a \<le> d \<and> d < length h"
proof (induction rule: desc.induct)
  case (desc_step a b c)
  then have "a \<le> b" "b < length h" by auto
  with desc_step tree_heapD(2,3) [of h b c] show ?case by auto
qed simp

lemma desc_parent:
  assumes "desc h a d" and "tree_heap h" and "a < length h" and "d \<noteq> a"
  obtains p where "n_parent (h ! d) = Some p" "desc h a p" "d \<in> set (n_children (h ! p))"
  using assms
proof (cases rule: desc.cases)
  case (desc_step b)
  then have "b < length h" using assms desc_range by blast
  with desc_step assms tree_heapD(4) [of h b d] show ?thesis using that by blast
qed simp

text \<open>Two nodes above the same node lie on one branch.\<close>

lemma desc_linear:
  assumes "desc h a d" and "desc h b d" and "tree_heap h" and "a < length h" and "b < length h"
  shows "desc h a b \<or> desc h b a"
  using assms
proof (induction rule: desc.induct)
  case (desc_refl a)
  then show ?case by blast
next
  case (desc_step a e c)
  show ?case
  proof (cases "c = b")
    case True
    with desc_step show ?thesis by (auto intro: desc.intros)
  next
    case False
    obtain p where p: "n_parent (h ! c) = Some p" "desc h b p"
      using desc_parent [OF desc_step.prems(1,2) desc_step.prems(4)] False by metis
    have "e < length h" using desc_range [OF desc_step.hyps(1)] desc_step.prems by blast
    then have "n_parent (h ! c) = Some e"
      using desc_step.hyps(2) desc_step.prems(2) by (blast dest: tree_heapD(4))
    with p desc_step show ?thesis by simp
  qed
qed

lemma siblings_disjoint:
  assumes "tree_heap h" and "a < length h" and "c \<in> set (n_children (h ! a))"
    and "c' \<in> set (n_children (h ! a))" and "c \<noteq> c'" and "desc h c d"
  shows "\<not> desc h c' d"
proof
  assume "desc h c' d"
  have r: "c < length h" "c' < length h" "a < c" "a < c'"
    and par: "n_parent (h ! c) = Some a" "n_parent (h ! c') = Some a"
    using assms tree_heapD [OF assms(1,2)] by auto
  from desc_linear [OF assms(6) \<open>desc h c' d\<close> assms(1) r(1,2)]
  show False
  proof
    assume "desc h c c'"
    then obtain p where "n_parent (h ! c') = Some p" "desc h c p"
      using desc_parent assms(1,5) r(1) by metis
    then show False using par r desc_range [OF _ assms(1) r(1)] by fastforce
  next
    assume "desc h c' c"
    then obtain p where "n_parent (h ! c) = Some p" "desc h c' p"
      using desc_parent assms(1,5) r(2) by metis
    then show False using par r desc_range [OF _ assms(1) r(2)] by fastforce
  qed
qed

text \<open>The structure of a heap: its links between parents and children.\<close>

definition same_links :: "heap \<Rightarrow> heap \<Rightarrow> bool" where
  "same_links h h' \<longleftrightarrow> length h' = length h
     \<and> (\<forall>a < length h. n_children (h' ! a) = n_children (h ! a) \<and> n_parent (h' ! a) = n_parent (h ! a))"

lemma same_links_refl [simp]: "same_links h h"
  by (simp add: same_links_def)

lemma same_links_trans: "same_links h1 h2 \<Longrightarrow> same_links h2 h3 \<Longrightarrow> same_links h1 h3"
  by (simp add: same_links_def)

lemma same_links_tree_heap: "same_links h h' \<Longrightarrow> tree_heap h \<Longrightarrow> tree_heap h'"
  unfolding same_links_def tree_heap_def by metis

lemma same_links_modify:
  assumes "\<And>n. n_children (f n) = n_children n" "\<And>n. n_parent (f n) = n_parent n"
  shows "same_links h (modify a f h)"
  using assms
  by (cases "a < length h") (simp_all add: same_links_def nth_list_update list_update_beyond)

lemma same_links_desc:
  assumes "desc h a d" and "same_links h h'" and "tree_heap h" and "a < length h"
  shows "desc h' a d"
  using assms
proof (induction rule: desc.induct)
  case (desc_step a b c)
  then have "b < length h" by (blast dest: desc_range)
  with desc_step show ?case by (auto intro: desc.desc_step simp: same_links_def)
qed simp

lemma same_links_sym: "same_links h h' \<Longrightarrow> same_links h' h"
  by (simp add: same_links_def)

lemma same_links_desc_iff:
  assumes "same_links h h'" and "tree_heap h" and "a < length h"
  shows "desc h' a d \<longleftrightarrow> desc h a d"
  using assms same_links_desc [of h a d h'] same_links_desc [of h' a d h]
    same_links_sym [OF assms(1)] same_links_tree_heap [OF assms(1,2)]
  by (auto simp: same_links_def)

text \<open>A sum over a subtree is the node's own term and the sums over its children.\<close>

lemma finite_desc: "tree_heap h \<Longrightarrow> a < length h \<Longrightarrow> finite {d. desc h a d}"
  by (rule finite_subset [of _ "{..<length h}"]) (auto dest: desc_range)

lemma sum_desc:
  fixes f :: "addr \<Rightarrow> nat"
  assumes t: "tree_heap h" and a: "a < length h"
  shows "sum f {d. desc h a d} =
    f a + sum_list (map (\<lambda>c. sum f {d. desc h c d}) (n_children (h ! a)))"
proof -
  let ?cs = "n_children (h ! a)"
  have kids: "c < length h" "a < c" if "c \<in> set ?cs" for c
    using that tree_heapD [OF t a] by auto
  have fin: "finite {d. desc h c d}" if "c \<in> set ?cs" for c
    using finite_desc [OF t kids(1) [OF that]] .
  have "a \<notin> (\<Union>c \<in> set ?cs. {d. desc h c d})"
    using kids desc_range [OF _ t kids(1)] by fastforce
  moreover have "{d. desc h a d} = insert a (\<Union>c \<in> set ?cs. {d. desc h c d})"
    by (auto simp: desc_unfold [of h a])
  moreover have "sum f (\<Union>c \<in> set ?cs. {d. desc h c d}) = (\<Sum>c \<in> set ?cs. sum f {d. desc h c d})"
    by (rule sum.UNION_disjoint) (use fin siblings_disjoint [OF t a] in auto)
  ultimately show ?thesis
    using fin tree_heapD(1) [OF t a] by (simp add: sum_list_distinct_conv_sum_set)
qed

end
