(* ===== verification/FC_Node.thy ===== *)
theory FC_Node
  imports FC_Types
begin

text \<open>
  The methods of a fork choice node, \<^verbatim>\<open>doubly-linked-tree/node.go\<close>: the weight and the
  best-descendant traversals, viability, validation of a branch, arrival times and the dump.

  A method that recurses over the tree takes a recursion bound as its first argument and
  reports \<open>OutOfFuel\<close> when it is used up; on a well-formed heap a bound of the number of
  allocated nodes is never used up.
\<close>

abbreviation ProcessAttestationsThreshold :: Duration where
  "ProcessAttestationsThreshold \<equiv> 10 * Second"

section \<open>The methods\<close>

text \<open>\<^verbatim>\<open>applyWeightChanges\<close>: the loop over the children, and the method.\<close>

primrec childrenWeightLoop ::
    "(addr \<Rightarrow> heap \<Rightarrow> (heap, unit) outcome) \<Rightarrow> ctx \<Rightarrow> addr list \<Rightarrow> u64 \<Rightarrow> heap \<Rightarrow> (heap, u64) outcome"
where
  "childrenWeightLoop rec ctx [] childrenWeight h = (Inr childrenWeight, h)"
| "childrenWeightLoop rec ctx (child # cs) childrenWeight h =
     (if ctx (Some child) then (Inl ErrCtx, h)
      else obind (rec child h) (\<lambda>_ h'.
        childrenWeightLoop rec ctx cs (childrenWeight + n_weight (h' ! child)) h'))"

primrec applyWeightChanges :: "nat \<Rightarrow> ctx \<Rightarrow> addr \<Rightarrow> heap \<Rightarrow> (heap, unit) outcome" where
  "applyWeightChanges 0 ctx n h = (Inl OutOfFuel, h)"
| "applyWeightChanges (Suc k) ctx n h =
     obind (childrenWeightLoop (applyWeightChanges k ctx) ctx (n_children (h ! n)) 0 h)
       (\<lambda>childrenWeight h'.
         if n_root (h' ! n) = ZeroHash then (Inr (), h')
         else (Inr (), modify n (\<lambda>nd. nd\<lparr>n_weight := n_balance nd + childrenWeight\<rparr>) h'))"

definition viableForHead :: "Node \<Rightarrow> Epoch \<Rightarrow> Epoch \<Rightarrow> bool" where
  "viableForHead n justifiedEpoch currentEpoch =
     (if justifiedEpoch = 0 then True
      else n_justifiedEpoch n = justifiedEpoch \<or> n_justifiedEpoch n + 2 \<ge> currentEpoch)"

definition leadsToViableHead :: "heap \<Rightarrow> addr \<Rightarrow> Epoch \<Rightarrow> Epoch \<Rightarrow> bool" where
  "leadsToViableHead h n justifiedEpoch currentEpoch =
     (case n_bestDescendant (h ! n) of
        None \<Rightarrow> viableForHead (h ! n) justifiedEpoch currentEpoch
      | Some d \<Rightarrow> viableForHead (h ! d) justifiedEpoch currentEpoch)"

text \<open>
  The body of the loop of \<^verbatim>\<open>updateBestDescendant\<close> on its variables \<^verbatim>\<open>bestChild\<close>,
  \<^verbatim>\<open>bestWeight\<close> and \<^verbatim>\<open>hasViableDescendant\<close>. \<^verbatim>\<open>bestChild\<close> is \<^verbatim>\<open>nil\<close> only while
  \<^verbatim>\<open>hasViableDescendant\<close> is false.
\<close>

type_synonym bestVars = "addr option \<times> u64 \<times> bool"

fun considerChild :: "Epoch \<Rightarrow> Epoch \<Rightarrow> heap \<Rightarrow> addr \<Rightarrow> bestVars \<Rightarrow> bestVars" where
  "considerChild justifiedEpoch currentEpoch h child (bestChild, bestWeight, hasViableDescendant) =
     (let childLeadsToViableHead = leadsToViableHead h child justifiedEpoch currentEpoch in
      if childLeadsToViableHead \<and> \<not> hasViableDescendant
      then (Some child, n_weight (h ! child), True)
      else if childLeadsToViableHead then
        (if n_weight (h ! child) = bestWeight then
           (case bestChild of
              None \<Rightarrow> (bestChild, bestWeight, hasViableDescendant)
            | Some b \<Rightarrow>
                if n_root (h ! child) > n_root (h ! b)
                then (Some child, bestWeight, hasViableDescendant)
                else (bestChild, bestWeight, hasViableDescendant))
         else if n_weight (h ! child) > bestWeight
         then (Some child, n_weight (h ! child), hasViableDescendant)
         else (bestChild, bestWeight, hasViableDescendant))
      else (bestChild, bestWeight, hasViableDescendant))"

primrec bestChildLoop ::
    "(addr \<Rightarrow> heap \<Rightarrow> (heap, unit) outcome) \<Rightarrow> Epoch \<Rightarrow> Epoch \<Rightarrow> addr list \<Rightarrow> bestVars \<Rightarrow> heap
      \<Rightarrow> (heap, bestVars) outcome"
where
  "bestChildLoop rec justifiedEpoch currentEpoch [] vars h = (Inr vars, h)"
| "bestChildLoop rec justifiedEpoch currentEpoch (child # cs) vars h =
     obind (rec child h) (\<lambda>_ h'.
       bestChildLoop rec justifiedEpoch currentEpoch cs
         (considerChild justifiedEpoch currentEpoch h' child vars) h')"

definition chosenDescendant :: "heap \<Rightarrow> bestVars \<Rightarrow> addr option" where
  "chosenDescendant h vars =
     (case vars of (bestChild, bestWeight, hasViableDescendant) \<Rightarrow>
        if hasViableDescendant then
          (case bestChild of
             None \<Rightarrow> None
           | Some b \<Rightarrow> (case n_bestDescendant (h ! b) of None \<Rightarrow> bestChild | Some d \<Rightarrow> Some d))
        else None)"

primrec updateBestDescendant ::
    "nat \<Rightarrow> ctx \<Rightarrow> Epoch \<Rightarrow> Epoch \<Rightarrow> Epoch \<Rightarrow> addr \<Rightarrow> heap \<Rightarrow> (heap, unit) outcome"
where
  "updateBestDescendant 0 ctx justifiedEpoch finalizedEpoch currentEpoch n h = (Inl OutOfFuel, h)"
| "updateBestDescendant (Suc k) ctx justifiedEpoch finalizedEpoch currentEpoch n h =
     (if ctx (Some n) then (Inl ErrCtx, h)
      else if n_children (h ! n) = []
      then (Inr (), modify n (\<lambda>nd. nd\<lparr>n_bestDescendant := None\<rparr>) h)
      else obind (bestChildLoop
             (updateBestDescendant k ctx justifiedEpoch finalizedEpoch currentEpoch)
             justifiedEpoch currentEpoch (n_children (h ! n)) (None, 0, False) h)
           (\<lambda>vars h'. (Inr (),
             modify n (\<lambda>nd. nd\<lparr>n_bestDescendant := chosenDescendant h' vars\<rparr>) h')))"

text \<open>\<^verbatim>\<open>setNodeAndParentValidated\<close> walks up to the first node already validated.\<close>

primrec setNodeAndParentValidated :: "nat \<Rightarrow> ctx \<Rightarrow> addr \<Rightarrow> heap \<Rightarrow> (heap, unit) outcome" where
  "setNodeAndParentValidated 0 ctx n h = (Inl OutOfFuel, h)"
| "setNodeAndParentValidated (Suc k) ctx n h =
     (if ctx (Some n) then (Inl ErrCtx, h)
      else if \<not> n_optimistic (h ! n) then (Inr (), h)
      else let h' = modify n (\<lambda>nd. nd\<lparr>n_optimistic := False\<rparr>) h in
        case n_parent (h' ! n) of
          None \<Rightarrow> (Inr (), h')
        | Some p \<Rightarrow> setNodeAndParentValidated k ctx p h')"

definition arrivedEarly :: "BeaconChainConfig \<Rightarrow> Node \<Rightarrow> Time \<Rightarrow> bool result" where
  "arrivedEarly cfg n genesis =
     rbind (SinceSlotStart cfg (n_slot n) genesis (Time_TruncateSecond (n_timestamp n))) (\<lambda>sss.
     let votingWindow =
       Duration_mul (toDuration (SecondsPerSlot cfg div IntervalsPerSlot cfg)) Second
     in Inr (sss < votingWindow))"

definition arrivedAfterOrphanCheck :: "BeaconChainConfig \<Rightarrow> Node \<Rightarrow> Time \<Rightarrow> bool result" where
  "arrivedAfterOrphanCheck cfg n genesis =
     rbind (SinceSlotStart cfg (n_slot n) genesis (Time_TruncateSecond (n_timestamp n))) (\<lambda>secs.
     Inr (secs \<ge> ProcessAttestationsThreshold))"

text \<open>\<^verbatim>\<open>nodeTreeDump\<close> and the record it fills, \<^verbatim>\<open>consensus-types/forkchoice/types.go\<close>.\<close>

datatype NodeValidity = Valid | Invalid | Optimistic

record DumpNode =
  d_Validity :: NodeValidity
  d_ExecutionOptimistic :: bool
  d_Slot :: Slot
  d_JustifiedEpoch :: Epoch
  d_FinalizedEpoch :: Epoch
  d_UnrealizedJustifiedEpoch :: Epoch
  d_UnrealizedFinalizedEpoch :: Epoch
  d_Balance :: u64
  d_Weight :: u64
  d_Timestamp :: Time
  d_BlockRoot :: bytes32
  d_ParentRoot :: bytes32
  d_ExecutionBlockHash :: bytes32
  d_Target :: bytes32

definition dumpNode :: "heap \<Rightarrow> Node \<Rightarrow> DumpNode" where
  "dumpNode h n = \<lparr>
     d_Validity = (if n_optimistic n then Optimistic else Valid),
     d_ExecutionOptimistic = n_optimistic n,
     d_Slot = n_slot n,
     d_JustifiedEpoch = n_justifiedEpoch n,
     d_FinalizedEpoch = n_finalizedEpoch n,
     d_UnrealizedJustifiedEpoch = n_unrealizedJustifiedEpoch n,
     d_UnrealizedFinalizedEpoch = n_unrealizedFinalizedEpoch n,
     d_Balance = n_balance n,
     d_Weight = n_weight n,
     d_Timestamp = n_timestamp n,
     d_BlockRoot = n_root n,
     d_ParentRoot = (case n_parent n of None \<Rightarrow> 0 | Some p \<Rightarrow> n_root (h ! p)),
     d_ExecutionBlockHash = n_payloadHash n,
     d_Target = (case n_target n of None \<Rightarrow> 0 | Some t \<Rightarrow> n_root (h ! t))\<rparr>"

primrec dumpChildren ::
    "(addr \<Rightarrow> DumpNode list \<Rightarrow> DumpNode list result) \<Rightarrow> addr list \<Rightarrow> DumpNode list
      \<Rightarrow> DumpNode list result"
where
  "dumpChildren rec [] nodes = Inr nodes"
| "dumpChildren rec (child # cs) nodes =
     rbind (rec child nodes) (\<lambda>nodes'. dumpChildren rec cs nodes')"

primrec nodeTreeDump :: "nat \<Rightarrow> ctx \<Rightarrow> heap \<Rightarrow> addr \<Rightarrow> DumpNode list \<Rightarrow> DumpNode list result" where
  "nodeTreeDump 0 ctx h n nodes = Inl OutOfFuel"
| "nodeTreeDump (Suc k) ctx h n nodes =
     (if ctx (Some n) then Inl ErrCtx
      else dumpChildren (nodeTreeDump k ctx h) (n_children (h ! n)) (nodes @ [dumpNode h (h ! n)]))"

section \<open>Post-order traversals\<close>

text \<open>
  Both recomputing traversals visit the children of a node and then set the node from what
  they find there. \<open>post upd\<close> is that traversal for an update \<open>upd\<close> of a node from its
  children, each with its address.
\<close>

primrec post :: "(Node \<Rightarrow> (addr \<times> Node) list \<Rightarrow> Node) \<Rightarrow> nat \<Rightarrow> addr \<Rightarrow> heap \<Rightarrow> heap" where
  "post upd 0 n h = h"
| "post upd (Suc k) n h =
     (let h' = fold (post upd k) (n_children (h ! n)) h
      in h'[n := upd (h' ! n) (map (\<lambda>c. (c, h' ! c)) (n_children (h ! n)))])"

text \<open>
  The contract: the update keeps the links of the node. Then the traversal from \<open>n\<close> leaves
  every node below \<open>n\<close> as the update of its old value from the new values of its children,
  and every other node as it was.
\<close>

locale postorder =
  fixes upd :: "Node \<Rightarrow> (addr \<times> Node) list \<Rightarrow> Node"
  assumes upd_children: "n_children (upd n cs) = n_children n"
    and upd_parent: "n_parent (upd n cs) = n_parent n"
begin

definition settled :: "heap \<Rightarrow> heap \<Rightarrow> addr \<Rightarrow> bool" where
  "settled h h' d \<longleftrightarrow> h' ! d = upd (h ! d) (map (\<lambda>c. (c, h' ! c)) (n_children (h ! d)))"

lemma post_fold:
  assumes t: "tree_heap h" and cs: "distinct cs" "set cs \<subseteq> set (n_children (h ! n))" and n: "n < length h"
    and IH: "\<And>c g. c \<in> set (n_children (h ! n)) \<Longrightarrow> same_links h g \<Longrightarrow>
      same_links h (post upd k c g) \<and> (\<forall>d. desc h c d \<longrightarrow> settled g (post upd k c g) d)
        \<and> (\<forall>d < length h. \<not> desc h c d \<longrightarrow> post upd k c g ! d = g ! d)"
    and g: "same_links h g"
  shows "same_links h (fold (post upd k) cs g)
    \<and> (\<forall>c \<in> set cs. \<forall>d. desc h c d \<longrightarrow> settled g (fold (post upd k) cs g) d)
    \<and> (\<forall>d < length h. (\<forall>c \<in> set cs. \<not> desc h c d) \<longrightarrow> fold (post upd k) cs g ! d = g ! d)"
  using cs g
proof (induction cs arbitrary: g)
  case Nil
  then show ?case by simp
next
  case (Cons c cs)
  let ?g = "post upd k c g" and ?h' = "fold (post upd k) cs (post upd k c g)"
  have c: "c \<in> set (n_children (h ! n))" and c_len: "c < length h"
    using Cons.prems tree_heapD [OF t n] by auto
  have 1: "same_links h ?g" "\<And>d. desc h c d \<Longrightarrow> settled g ?g d"
    "\<And>d. d < length h \<Longrightarrow> \<not> desc h c d \<Longrightarrow> ?g ! d = g ! d"
    using IH [OF c Cons.prems(3)] by auto
  have 2: "same_links h ?h'" "\<And>c' d. c' \<in> set cs \<Longrightarrow> desc h c' d \<Longrightarrow> settled ?g ?h' d"
    "\<And>d. d < length h \<Longrightarrow> (\<forall>c' \<in> set cs. \<not> desc h c' d) \<Longrightarrow> ?h' ! d = ?g ! d"
    using Cons.IH [of ?g] Cons.prems 1(1) by auto
  have c_frame: "?h' ! d = ?g ! d" if "desc h c d" for d
  proof (rule 2(3))
    show "d < length h" using that desc_range t c_len by blast
    show "\<forall>c' \<in> set cs. \<not> desc h c' d"
    proof
      fix c' assume "c' \<in> set cs"
      then have "c' \<in> set (n_children (h ! n))" "c' \<noteq> c" using Cons.prems by auto
      then show "\<not> desc h c' d" using siblings_disjoint [OF t n c] that by blast
    qed
  qed
  have "settled g ?h' d" if "desc h c d" for d
  proof -
    have "d < length h" using that desc_range t c_len by blast
    then have "n_children (g ! d) = n_children (h ! d)"
      using Cons.prems(3) by (simp add: same_links_def)
    then have "\<forall>e \<in> set (n_children (g ! d)). ?h' ! e = ?g ! e"
      using that by (auto intro: c_frame desc_step)
    with 1(2) [OF that] c_frame [OF that] show ?thesis
      by (simp add: settled_def cong: map_cong)
  qed
  moreover have "settled g ?h' d" if "c' \<in> set cs" "desc h c' d" for c' d
  proof -
    have c': "c' \<in> set (n_children (h ! n))" "c' \<noteq> c" using that(1) Cons.prems by auto
    then have "c' < length h" using tree_heapD [OF t n] by blast
    then have d: "d < length h" using that desc_range t by blast
    have "\<not> desc h c d" using siblings_disjoint [OF t n c'(1) c c'(2) that(2)] .
    then have "?g ! d = g ! d" using 1(3) d by blast
    then show ?thesis using 2(2) [OF that] by (simp add: settled_def)
  qed
  moreover have "?h' ! d = g ! d" if "d < length h" "\<forall>c' \<in> set (c # cs). \<not> desc h c' d" for d
    using that 1(3) 2(3) by auto
  ultimately show ?case using 2(1) by auto
qed

lemma fold_frame:
  assumes t: "tree_heap h" and cs: "distinct (c # cs)" "set (c # cs) \<subseteq> set (n_children (h ! n))"
    and n: "n < length h"
    and IH: "\<And>c g. c \<in> set (n_children (h ! n)) \<Longrightarrow> same_links h g \<Longrightarrow>
      same_links h (post upd k c g) \<and> (\<forall>d. desc h c d \<longrightarrow> settled g (post upd k c g) d)
        \<and> (\<forall>d < length h. \<not> desc h c d \<longrightarrow> post upd k c g ! d = g ! d)"
    and g: "same_links h g" and d: "desc h c d"
  shows "fold (post upd k) cs g ! d = g ! d"
proof -
  have "c < length h" using cs tree_heapD [OF t n] by auto
  then have "d < length h" using d t desc_range by blast
  moreover have "\<forall>c' \<in> set cs. \<not> desc h c' d"
    using siblings_disjoint [OF t n _ _ _ d] cs by auto
  ultimately show ?thesis
    using post_fold [OF t _ _ n IH g, of cs] cs by auto
qed

theorem post_spec:
  assumes t: "tree_heap h" and "same_links h g" and "n < length h" and "length h - n \<le> k"
  shows "same_links h (post upd k n g) \<and> (\<forall>d. desc h n d \<longrightarrow> settled g (post upd k n g) d)
    \<and> (\<forall>d < length h. \<not> desc h n d \<longrightarrow> post upd k n g ! d = g ! d)"
  using assms(2-)
proof (induction k arbitrary: n g)
  case 0
  then show ?case by simp
next
  case (Suc k)
  let ?cs = "n_children (h ! n)" and ?h' = "fold (post upd k) (n_children (h ! n)) g"
  let ?r = "post upd (Suc k) n g"
  have gn: "n_children (g ! n) = ?cs" and len: "length g = length h"
    using Suc.prems by (auto simp: same_links_def)
  have IH: "same_links h (post upd k c f) \<and> (\<forall>d. desc h c d \<longrightarrow> settled f (post upd k c f) d)
        \<and> (\<forall>d < length h. \<not> desc h c d \<longrightarrow> post upd k c f ! d = f ! d)"
    if "c \<in> set ?cs" "same_links h f" for c f
  proof -
    have "n < c" "c < length h" using that tree_heapD [OF t Suc.prems(2)] by auto
    then show ?thesis using Suc.IH [OF that(2)] Suc.prems(3) by auto
  qed
  have F: "same_links h ?h'" "\<And>c d. c \<in> set ?cs \<Longrightarrow> desc h c d \<Longrightarrow> settled g ?h' d"
    "\<And>d. d < length h \<Longrightarrow> (\<forall>c \<in> set ?cs. \<not> desc h c d) \<Longrightarrow> ?h' ! d = g ! d"
    using post_fold [OF t _ _ Suc.prems(2) IH Suc.prems(1), of ?cs] tree_heapD(1) [OF t Suc.prems(2)]
    by auto
  have below: "n < d" if "c \<in> set ?cs" "desc h c d" for c d
    using that tree_heapD [OF t Suc.prems(2)] desc_range [OF that(2) t] by fastforce
  then have n_out: "\<forall>c \<in> set ?cs. \<not> desc h c n" by blast
  have r: "?r = ?h'[n := upd (g ! n) (map (\<lambda>c. (c, ?h' ! c)) ?cs)]"
    using F(3) [OF Suc.prems(2) n_out] by (simp add: Let_def gn)
  have len': "length ?h' = length h" using F(1) by (simp add: same_links_def)
  have r_n: "?r ! n = upd (g ! n) (map (\<lambda>c. (c, ?h' ! c)) ?cs)"
    using Suc.prems(2) len' by (simp only: r) simp
  have r_other: "?r ! d = ?h' ! d" if "d \<noteq> n" for d
    using that by (simp only: r) simp
  have kids: "map (\<lambda>c. (c, ?r ! c)) ?cs = map (\<lambda>c. (c, ?h' ! c)) ?cs"
    using tree_heapD(2) [OF t Suc.prems(2)] by (auto simp del: post.simps intro!: r_other)
  have "settled g ?r d" if "desc h n d" for d
  proof (cases "d = n")
    case True
    then show ?thesis by (simp only: settled_def gn kids r_n)
  next
    case False
    with that obtain c where c: "c \<in> set ?cs" "desc h c d" by (auto simp: desc_unfold [of h n d])
    have d: "d < length h" using that desc_range t Suc.prems(2) by blast
    then have "n_children (g ! d) = n_children (h ! d)"
      using Suc.prems(1) by (simp add: same_links_def)
    then have "n < e" if "e \<in> set (n_children (g ! d))" for e
      using that below [OF c(1) desc_step [OF c(2)]] by simp
    then have eq: "map (\<lambda>c. (c, ?r ! c)) (n_children (g ! d)) = map (\<lambda>c. (c, ?h' ! c)) (n_children (g ! d))"
      by (auto simp del: post.simps intro!: r_other)
    show ?thesis
      using F(2) [OF c] unfolding settled_def eq r_other [OF False] .
  qed
  moreover have "?r ! d = g ! d" if "d < length h" "\<not> desc h n d" for d
    using that F(3) r_other by (metis desc_unfold)
  moreover have "same_links h ?r"
    using F(1) F(3) [OF Suc.prems(2) n_out] Suc.prems(1,2) r_n r_other len'
    by (simp add: same_links_def upd_children upd_parent del: post.simps) 
       (metis r length_list_update upd_children upd_parent)
  ultimately show ?case by blast
qed

end

section \<open>Weights\<close>

definition weightUpd :: "Node \<Rightarrow> (addr \<times> Node) list \<Rightarrow> Node" where
  "weightUpd n cs = (if n_root n = ZeroHash then n
     else n\<lparr>n_weight := n_balance n + sum_list (map (\<lambda>(c, nd). n_weight nd) cs)\<rparr>)"

interpretation weight: postorder weightUpd
  by unfold_locales (simp_all add: weightUpd_def)

lemma childrenWeightLoop_post:
  assumes t: "tree_heap h" and n: "n < length h" and k: "length h - n \<le> Suc k"
    and rec: "\<And>c g. c \<in> set (n_children (h ! n)) \<Longrightarrow> same_links h g \<Longrightarrow>
      rec c g = (Inr (), post weightUpd k c g)"
    and cs: "distinct cs" "set cs \<subseteq> set (n_children (h ! n))" and g: "same_links h g"
  shows "childrenWeightLoop rec background cs acc g =
    (Inr (acc + sum_list (map (\<lambda>c. n_weight (fold (post weightUpd k) cs g ! c)) cs)),
     fold (post weightUpd k) cs g)"
  using cs g
proof (induction cs arbitrary: acc g)
  case Nil
  then show ?case by simp
next
  case (Cons c cs)
  let ?g = "post weightUpd k c g"
  have c: "c \<in> set (n_children (h ! n))" using Cons.prems by simp
  have spec: "same_links h (post weightUpd k c f)
      \<and> (\<forall>d. desc h c d \<longrightarrow> weight.settled f (post weightUpd k c f) d)
      \<and> (\<forall>d < length h. \<not> desc h c d \<longrightarrow> post weightUpd k c f ! d = f ! d)"
    if "c \<in> set (n_children (h ! n))" "same_links h f" for c f
  proof -
    have "n < c" "c < length h" using that tree_heapD [OF t n] by auto
    then show ?thesis using weight.post_spec [OF t that(2)] k by auto
  qed
  have g': "same_links h ?g" using spec [OF c Cons.prems(3)] by blast
  have "fold (post weightUpd k) cs ?g ! c = ?g ! c"
    using weight.fold_frame [OF t Cons.prems(1,2) n spec g' desc_refl] .
  with Cons.IH [OF _ _ g'] Cons.prems rec [OF c Cons.prems(3)] show ?case
    by (simp add: add.assoc)
qed

theorem applyWeightChanges_post:
  assumes t: "tree_heap h" and "same_links h g" and "n < length h" and "length h - n \<le> k"
  shows "applyWeightChanges k background n g = (Inr (), post weightUpd k n g)"
  using assms(2-)
proof (induction k arbitrary: n g)
  case 0
  then show ?case by simp
next
  case (Suc k)
  let ?cs = "n_children (h ! n)" and ?h' = "fold (post weightUpd k) (n_children (h ! n)) g"
  have gn: "n_children (g ! n) = ?cs" using Suc.prems by (simp add: same_links_def)
  have "applyWeightChanges k background c f = (Inr (), post weightUpd k c f)"
    if "c \<in> set ?cs" "same_links h f" for c f
  proof -
    have "n < c" "c < length h" using that tree_heapD [OF t Suc.prems(2)] by auto
    then show ?thesis using Suc.IH [OF that(2)] Suc.prems(3) by auto
  qed
  then have "childrenWeightLoop (applyWeightChanges k background) background ?cs 0 g =
      (Inr (sum_list (map (\<lambda>c. n_weight (?h' ! c)) ?cs)), ?h')"
    using childrenWeightLoop_post [OF t Suc.prems(2,3) _ _ _ Suc.prems(1), of _ ?cs 0]
      tree_heapD(1) [OF t Suc.prems(2)] by simp
  moreover have "weightUpd (?h' ! n) (map (\<lambda>c. (c, ?h' ! c)) ?cs) =
      (if n_root (?h' ! n) = ZeroHash then ?h' ! n else (?h' ! n)\<lparr>n_weight := n_balance (?h' ! n)
        + sum_list (map (\<lambda>c. n_weight (?h' ! c)) ?cs)\<rparr>)"
    by (simp add: weightUpd_def comp_def)
  ultimately show ?case by (simp add: gn Let_def)
qed

text \<open>
  After the traversal a node weighs the balances of its subtree, if no node of the subtree
  has the zero root (the code skips such a node) and the sum fits in 64 bits.
\<close>

lemma settled_weights:
  assumes t: "tree_heap h"
    and settled: "\<And>d. desc h n d \<Longrightarrow> weight.settled h h' d"
    and roots: "\<And>d. desc h n d \<Longrightarrow> n_root (h ! d) \<noteq> ZeroHash"
    and fits: "(\<Sum>d | desc h n d. unat (n_balance (h ! d))) < 2 ^ 64" and n: "n < length h"
    and "desc h n d"
  shows "unat (n_weight (h' ! d)) = (\<Sum>e | desc h d e. unat (n_balance (h ! e)))"
  using \<open>desc h n d\<close>
proof (induction "length h - d" arbitrary: d rule: less_induct)
  case less
  let ?B = "\<lambda>e. unat (n_balance (h ! e))" and ?cs = "n_children (h ! d)"
  have d: "d < length h" using less.prems desc_range t n by blast
  have IH: "unat (n_weight (h' ! c)) = sum ?B {e. desc h c e}" if "c \<in> set ?cs" for c
  proof (rule less.hyps)
    show "desc h n c" using desc_step [OF less.prems that] .
    show "length h - c < length h - d" using tree_heapD(2,3) [OF t d that] by simp
  qed
  then have kids: "sum_list (map unat (map (\<lambda>c. n_weight (h' ! c)) ?cs)) =
      sum_list (map (\<lambda>c. sum ?B {e. desc h c e}) ?cs)"
    by (simp add: comp_def cong: map_cong)
  have "sum ?B {e. desc h d e} \<le> sum ?B {e. desc h n e}"
    using finite_desc [OF t n] less.prems by (intro sum_mono2) (auto intro: desc_trans)
  with fits have total: "sum ?B {e. desc h d e} < 2 ^ 64" by simp
  then have small: "?B d + sum_list (map unat (map (\<lambda>c. n_weight (h' ! c)) ?cs)) < 2 ^ 64"
    unfolding kids sum_desc [OF t d] .
  have "n_weight (h' ! d) = n_balance (h ! d) + sum_list (map (\<lambda>c. n_weight (h' ! c)) ?cs)"
    using settled [OF less.prems] roots [OF less.prems]
    by (simp add: weight.settled_def weightUpd_def comp_def)
  then have "unat (n_weight (h' ! d)) = ?B d + sum_list (map unat (map (\<lambda>c. n_weight (h' ! c)) ?cs))"
    using small unat_sum_list [of "map (\<lambda>c. n_weight (h' ! c)) ?cs"]
    by (simp add: unat_add_exact)
  then show ?case unfolding kids sum_desc [OF t d] .
qed

end
