(* ===== verification/FC_Best.thy ===== *)
theory FC_Best
  imports FC_Node
begin

text \<open>
  What \<^verbatim>\<open>updateBestDescendant\<close> computes: the fork choice rule. The consensus specification
  starts from a block and repeatedly moves to the heaviest child among those that lead to a
  viable leaf, the greater root winning a tie. The traversal leaves in every node a link to
  the block where that walk ends.
\<close>

section \<open>The traversal as a post-order update\<close>

text \<open>Two heaps that differ in best-descendant links only, and links that stay in the heap.\<close>

definition same_but_best :: "heap \<Rightarrow> heap \<Rightarrow> bool" where
  "same_but_best h g \<longleftrightarrow> length g = length h
     \<and> (\<forall>a < length h. (g ! a)\<lparr>n_bestDescendant := None\<rparr> = (h ! a)\<lparr>n_bestDescendant := None\<rparr>)"

definition best_in :: "heap \<Rightarrow> bool" where
  "best_in h \<longleftrightarrow> (\<forall>a < length h. \<forall>d. n_bestDescendant (h ! a) = Some d \<longrightarrow> d < length h)"

lemma same_but_best_fields:
  assumes "same_but_best h g" and "a < length h"
  shows "n_weight (g ! a) = n_weight (h ! a)" "n_root (g ! a) = n_root (h ! a)"
    "n_justifiedEpoch (g ! a) = n_justifiedEpoch (h ! a)"
    "n_children (g ! a) = n_children (h ! a)" "n_parent (g ! a) = n_parent (h ! a)"
proof -
  have "(g ! a)\<lparr>n_bestDescendant := None\<rparr> = (h ! a)\<lparr>n_bestDescendant := None\<rparr>"
    using assms by (simp add: same_but_best_def)
  then show "n_weight (g ! a) = n_weight (h ! a)" "n_root (g ! a) = n_root (h ! a)"
    "n_justifiedEpoch (g ! a) = n_justifiedEpoch (h ! a)"
    "n_children (g ! a) = n_children (h ! a)" "n_parent (g ! a) = n_parent (h ! a)"
    by (cases "g ! a"; cases "h ! a"; simp)+
qed

lemma same_but_best_refl [simp]: "same_but_best h h"
  by (simp add: same_but_best_def)

lemma same_but_best_sym: "same_but_best h g \<Longrightarrow> same_but_best g h"
  by (simp add: same_but_best_def)

lemma same_but_best_trans: "same_but_best h g \<Longrightarrow> same_but_best g f \<Longrightarrow> same_but_best h f"
  by (simp add: same_but_best_def)

lemma same_but_best_links: "same_but_best h g \<Longrightarrow> same_links h g"
  by (auto simp: same_links_def same_but_best_fields) (simp add: same_but_best_def)

lemma same_but_best_update:
  "same_but_best h g \<Longrightarrow> same_but_best h (modify n (\<lambda>nd. nd\<lparr>n_bestDescendant := x\<rparr>) g)"
  by (cases "n < length g") (auto simp: same_but_best_def nth_list_update list_update_beyond)

lemma best_in_update:
  "best_in h \<Longrightarrow> (\<And>d. x = Some d \<Longrightarrow> d < length h) \<Longrightarrow>
    best_in (modify n (\<lambda>nd. nd\<lparr>n_bestDescendant := x\<rparr>) h)"
  by (cases "n < length h")
     (auto simp: best_in_def nth_list_update list_update_beyond split: if_splits)

lemma viable_cong: "same_but_best h g \<Longrightarrow> a < length h \<Longrightarrow>
    viableForHead (g ! a) je ce = viableForHead (h ! a) je ce"
  by (simp add: viableForHead_def same_but_best_fields)

text \<open>The choice among the children reads their links and otherwise data the traversal keeps.\<close>

lemma leads_cong:
  assumes "same_but_best h g" and "best_in h" and "c < length h"
    and "n_bestDescendant (g ! c) = n_bestDescendant (h ! c)"
  shows "leadsToViableHead g c je ce = leadsToViableHead h c je ce"
  using assms by (auto simp: leadsToViableHead_def viable_cong best_in_def split: option.split)

definition vars_in :: "heap \<Rightarrow> bestVars \<Rightarrow> bool" where
  "vars_in h vars \<longleftrightarrow> (\<forall>b. fst vars = Some b \<longrightarrow> b < length h)"

lemma considerChild_cong:
  assumes "same_but_best h g" and "best_in h" and "c < length h" and "vars_in h vars"
    and "n_bestDescendant (g ! c) = n_bestDescendant (h ! c)"
  shows "considerChild je ce g c vars = considerChild je ce h c vars"
  using assms leads_cong [OF assms(1-3,5)] same_but_best_fields [OF assms(1)]
  by (cases vars) (auto simp: vars_in_def Let_def split: option.split)

lemma considerChild_vars_in:
  "c < length h \<Longrightarrow> vars_in h vars \<Longrightarrow> vars_in h (considerChild je ce g c vars)"
  by (cases vars) (auto simp: vars_in_def Let_def split: option.split)

lemma consider_fold_cong:
  assumes "same_but_best h g" and "best_in h"
    and "\<And>c. c \<in> set cs \<Longrightarrow> c < length h \<and> n_bestDescendant (g ! c) = n_bestDescendant (h ! c)"
    and "vars_in h vars"
  shows "fold (considerChild je ce g) cs vars = fold (considerChild je ce h) cs vars"
  using assms(3-)
proof (induction cs arbitrary: vars)
  case (Cons c cs)
  have "considerChild je ce g c vars = considerChild je ce h c vars"
    using Cons.prems by (intro considerChild_cong [OF assms(1,2)]) auto
  moreover have "vars_in h (considerChild je ce h c vars)"
    using Cons.prems by (intro considerChild_vars_in) auto
  ultimately show ?case using Cons by simp
qed simp

text \<open>The update of a node: the choice made on the old heap with the children's new nodes.\<close>

definition patch :: "(addr \<times> Node) list \<Rightarrow> heap \<Rightarrow> heap" where
  "patch cs h = fold (\<lambda>(c, nd) h. h[c := nd]) cs h"

definition bestUpd :: "heap \<Rightarrow> Epoch \<Rightarrow> Epoch \<Rightarrow> Node \<Rightarrow> (addr \<times> Node) list \<Rightarrow> Node" where
  "bestUpd h je ce nd cs = nd\<lparr>n_bestDescendant := (let g = patch cs h in
     chosenDescendant g (fold (considerChild je ce g) (map fst cs) (None, 0, False)))\<rparr>"

interpretation best: postorder "bestUpd h je ce" for h je ce
  by unfold_locales (simp_all add: bestUpd_def)

lemma length_patch [simp]: "length (patch cs h) = length h"
  unfolding patch_def by (induction cs arbitrary: h) auto

lemma patch_nth:
  assumes "distinct ks" and "set ks \<subseteq> {..<length h}"
  shows "patch (map (\<lambda>c. (c, f c)) ks) h ! x = (if x \<in> set ks then f x else h ! x)"
  using assms
proof (induction ks arbitrary: h)
  case Nil
  then show ?case by (simp add: patch_def)
next
  case (Cons c ks)
  then show ?case using Cons.IH [of "h[c := f c]"] by (auto simp: patch_def nth_list_update)
qed

lemma post_same_but_best: "same_but_best g (post (bestUpd h je ce) k n g)"
proof (induction k arbitrary: n g)
  case (Suc k)
  have "same_but_best f (fold (post (bestUpd h je ce) k) cs f)" for cs f
    by (induction cs arbitrary: f) (auto intro: Suc same_but_best_trans)
  moreover obtain x where "bestUpd h je ce (f ! n) cs = (f ! n)\<lparr>n_bestDescendant := x f cs\<rparr>" for f cs
    by (simp add: bestUpd_def)
  ultimately show ?case by (simp add: Let_def same_but_best_update)
qed simp

lemma chosen_in: "chosenDescendant h vars = Some d \<Longrightarrow> best_in h \<Longrightarrow> vars_in h vars \<Longrightarrow> d < length h"
  by (auto simp: chosenDescendant_def best_in_def vars_in_def split: prod.splits if_splits option.splits)

lemma fold_vars_in:
  "set cs \<subseteq> {..<length h} \<Longrightarrow> vars_in h vars \<Longrightarrow> vars_in h (fold (considerChild je ce g) cs vars)"
  by (induction cs arbitrary: vars) (simp_all add: considerChild_vars_in del: split_paired_All)

lemma chosen_cong:
  assumes "same_but_best h g" and "best_in h"
    and "\<And>c. c \<in> set cs \<Longrightarrow> c < length h \<and> g ! c = h ! c"
  shows "chosenDescendant g (fold (considerChild je ce g) cs (None, 0, False)) =
    chosenDescendant h (fold (considerChild je ce h) cs (None, 0, False))"
proof -
  have vars: "vars_in h (None, 0, False)" by (simp add: vars_in_def)
  have eq: "fold (considerChild je ce g) cs (None, 0, False)
      = fold (considerChild je ce h) cs (None, 0, False)"
    using assms by (intro consider_fold_cong vars) auto
  have "fst (fold (considerChild je ce h) xs v) = Some b \<Longrightarrow> b \<in> set xs \<or> fst v = Some b" for xs v b
  proof (induction xs arbitrary: v)
    case (Cons x xs)
    have "fst (considerChild je ce h x v) = Some b \<Longrightarrow> b = x \<or> fst v = Some b"
      by (cases v) (auto simp: Let_def split: if_splits option.splits)
    with Cons.IH [of "considerChild je ce h x v"] Cons.prems show ?case by auto
  qed simp
  from this [of cs "(None, 0, False)"] show ?thesis
    unfolding eq using assms(3)
    by (cases "fold (considerChild je ce h) cs (None, 0, False)")
       (auto simp: chosenDescendant_def split: option.split)
qed

lemma bestUpd_current:
  assumes t: "tree_heap h" and n: "n < length h" and f: "same_but_best h f" "best_in f"
  shows "bestUpd h je ce nd (map (\<lambda>c. (c, f ! c)) (n_children (h ! n))) =
    nd\<lparr>n_bestDescendant := chosenDescendant f
      (fold (considerChild je ce f) (n_children (h ! n)) (None, 0, False))\<rparr>"
proof -
  let ?cs = "n_children (h ! n)" and ?H = "patch (map (\<lambda>c. (c, f ! c)) (n_children (h ! n))) h"
  have len: "length f = length h" using f by (simp add: same_but_best_def)
  have cs: "distinct ?cs" "set ?cs \<subseteq> {..<length h}" using tree_heapD [OF t n] by auto
  have "same_but_best f ?H"
    using f(1) len by (simp add: same_but_best_def patch_nth [OF cs])
  then have "chosenDescendant ?H (fold (considerChild je ce ?H) ?cs (None, 0, False)) =
      chosenDescendant f (fold (considerChild je ce f) ?cs (None, 0, False))"
    using cs(2) len by (intro chosen_cong f(2)) (auto simp: patch_nth [OF cs])
  then show ?thesis by (simp add: bestUpd_def Let_def comp_def)
qed

lemma bestChildLoop_post:
  assumes t: "tree_heap h" and n: "n < length h" and k: "length h - n \<le> Suc k"
    and rec: "\<And>c g. c \<in> set (n_children (h ! n)) \<Longrightarrow> same_but_best h g \<Longrightarrow> best_in g \<Longrightarrow>
      rec c g = (Inr (), post (bestUpd h je ce) k c g) \<and> best_in (post (bestUpd h je ce) k c g)"
    and cs: "distinct cs" "set cs \<subseteq> set (n_children (h ! n))"
    and g: "same_but_best h g" "best_in g" and vars: "vars_in h vars"
  shows "bestChildLoop rec je ce cs vars g =
      (Inr (fold (considerChild je ce (fold (post (bestUpd h je ce) k) cs g)) cs vars),
       fold (post (bestUpd h je ce) k) cs g)
    \<and> same_but_best h (fold (post (bestUpd h je ce) k) cs g)
    \<and> best_in (fold (post (bestUpd h je ce) k) cs g)"
  using cs g vars
proof (induction cs arbitrary: g vars)
  case Nil
  then show ?case by simp
next
  case (Cons c cs)
  let ?U = "bestUpd h je ce"
  let ?g = "post ?U k c g" and ?F = "fold (post ?U k) cs (post ?U k c g)"
  have c: "c \<in> set (n_children (h ! n))" "c < length h"
    using Cons.prems tree_heapD [OF t n] by auto
  have spec: "same_links h (post ?U k c f)
      \<and> (\<forall>d. desc h c d \<longrightarrow> best.settled h je ce f (post ?U k c f) d)
      \<and> (\<forall>d < length h. \<not> desc h c d \<longrightarrow> post ?U k c f ! d = f ! d)"
    if "c \<in> set (n_children (h ! n))" "same_links h f" for c f
  proof -
    have "n < c" "c < length h" using that tree_heapD [OF t n] by auto
    then show ?thesis using best.post_spec [OF t that(2)] k by auto
  qed
  have g': "same_but_best h ?g"
    using Cons.prems(3) post_same_but_best same_but_best_trans by blast
  have r: "rec c g = (Inr (), ?g)" "best_in ?g" using rec [OF c(1) Cons.prems(3,4)] by auto
  have vars': "vars_in h (considerChild je ce ?g c vars)"
    using Cons.prems(5) c(2) by (intro considerChild_vars_in)
  have IH: "bestChildLoop rec je ce cs (considerChild je ce ?g c vars) ?g =
      (Inr (fold (considerChild je ce ?F) cs (considerChild je ce ?g c vars)), ?F)"
    "same_but_best h ?F" "best_in ?F"
    using Cons.IH [OF _ _ g' r(2) vars'] Cons.prems by auto
  have "?F ! c = ?g ! c"
    using best.fold_frame [OF t Cons.prems(1,2) n spec same_but_best_links [OF g'] desc_refl] .
  moreover have "same_but_best ?g ?F" "length ?g = length h"
    using g' IH(2) by (auto simp: same_but_best_def)
  ultimately have "considerChild je ce ?F c vars = considerChild je ce ?g c vars"
    using Cons.prems(5) r(2) c(2) by (intro considerChild_cong) (auto simp: vars_in_def)
  then show ?case using r(1) IH by simp
qed

theorem updateBestDescendant_post:
  assumes t: "tree_heap h" and "same_but_best h g" and "best_in g"
    and "n < length h" and "length h - n \<le> k"
  shows "updateBestDescendant k background je fe ce n g = (Inr (), post (bestUpd h je ce) k n g)
    \<and> best_in (post (bestUpd h je ce) k n g)"
  using assms(2-)
proof (induction k arbitrary: n g)
  case 0
  then show ?case by simp
next
  case (Suc k)
  let ?U = "bestUpd h je ce" and ?cs = "n_children (h ! n)"
  let ?F = "fold (post ?U k) ?cs g"
  let ?v = "fold (considerChild je ce ?F) ?cs (None, 0, False)"
  have gn: "n_children (g ! n) = ?cs" using Suc.prems by (simp add: same_but_best_fields)
  have "updateBestDescendant k background je fe ce c f = (Inr (), post ?U k c f)
      \<and> best_in (post ?U k c f)"
    if "c \<in> set ?cs" "same_but_best h f" "best_in f" for c f
  proof -
    have "n < c" "c < length h" using that tree_heapD [OF t Suc.prems(3)] by auto
    then show ?thesis using Suc.IH [OF that(2,3)] Suc.prems(4) by auto
  qed
  then have loop: "bestChildLoop (updateBestDescendant k background je fe ce) je ce ?cs
        (None, 0, False) g = (Inr ?v, ?F)" and F: "same_but_best h ?F" "best_in ?F"
    using bestChildLoop_post [OF t Suc.prems(3,4) _ _ _ Suc.prems(1,2), of _ je ce ?cs "(None, 0, False)"]
      tree_heapD(1) [OF t Suc.prems(3)] by (simp_all add: vars_in_def)
  have len: "length ?F = length h" using F(1) by (simp add: same_but_best_def)
  have upd: "post ?U (Suc k) n g = modify n (\<lambda>nd. nd\<lparr>n_bestDescendant := chosenDescendant ?F ?v\<rparr>) ?F"
    using bestUpd_current [OF t Suc.prems(3) F] by (simp add: gn Let_def)
  have "set ?cs \<subseteq> {..<length ?F}" using tree_heapD(3) [OF t Suc.prems(3)] len by auto
  then have "vars_in ?F ?v" by (rule fold_vars_in) (simp add: vars_in_def)
  then have "best_in (post ?U (Suc k) n g)"
    unfolding upd using F(2) chosen_in [OF _ F(2)] by (intro best_in_update)
  moreover have "updateBestDescendant (Suc k) background je fe ce n g = (Inr (), post ?U (Suc k) n g)"
    unfolding upd using loop by (auto simp: gn chosenDescendant_def)
  ultimately show ?case by blast
qed

text \<open>A node whose link is what the loop over its children chooses.\<close>

definition best_settled :: "Epoch \<Rightarrow> Epoch \<Rightarrow> heap \<Rightarrow> addr \<Rightarrow> bool" where
  "best_settled je ce h d \<longleftrightarrow> n_bestDescendant (h ! d) =
     chosenDescendant h (fold (considerChild je ce h) (n_children (h ! d)) (None, 0, False))"

theorem updateBestDescendant_settled:
  assumes t: "tree_heap h" and b: "best_in h" and n: "n < length h" and k: "length h - n \<le> k"
  obtains h' where "updateBestDescendant k background je fe ce n h = (Inr (), h')"
    and "same_but_best h h'" and "best_in h'"
    and "\<And>d. desc h n d \<Longrightarrow> best_settled je ce h' d"
    and "\<And>d. d < length h \<Longrightarrow> \<not> desc h n d \<Longrightarrow> h' ! d = h ! d"
proof -
  let ?h' = "post (bestUpd h je ce) k n h"
  have run: "updateBestDescendant k background je fe ce n h = (Inr (), ?h')" "best_in ?h'"
    using updateBestDescendant_post [OF t same_but_best_refl b n k] by auto
  have same: "same_but_best h ?h'" by (rule post_same_but_best)
  have spec: "\<And>d. desc h n d \<Longrightarrow> best.settled h je ce h ?h' d"
    "\<And>d. d < length h \<Longrightarrow> \<not> desc h n d \<Longrightarrow> ?h' ! d = h ! d"
    using best.post_spec [OF t same_links_refl n k] by auto
  have "best_settled je ce ?h' d" if "desc h n d" for d
  proof -
    have d: "d < length h" using that desc_range t n by blast
    have "?h' ! d = (h ! d)\<lparr>n_bestDescendant := chosenDescendant ?h'
        (fold (considerChild je ce ?h') (n_children (h ! d)) (None, 0, False))\<rparr>"
      using spec(1) [OF that] unfolding best.settled_def bestUpd_current [OF t d same run(2)] .
    then show ?thesis
      unfolding best_settled_def same_but_best_fields(4) [OF same d]
      by (metis (no_types, lifting) Node.select_convs(13) Node.surjective Node.update_convs(13))
  qed
  with run same spec(2) show ?thesis using that by blast
qed

section \<open>The fork choice rule\<close>

text \<open>\<open>outranks h b c\<close>: among siblings, \<open>b\<close> is at least as good as \<open>c\<close>.\<close>

definition outranks :: "heap \<Rightarrow> addr \<Rightarrow> addr \<Rightarrow> bool" where
  "outranks h b c \<longleftrightarrow> n_weight (h ! c) < n_weight (h ! b)
     \<or> n_weight (h ! c) = n_weight (h ! b) \<and> n_root (h ! c) \<le> n_root (h ! b)"

lemma outranks_refl [simp]: "outranks h b b"
  by (simp add: outranks_def)

lemma outranks_trans: "outranks h a b \<Longrightarrow> outranks h b c \<Longrightarrow> outranks h a c"
  by (auto simp: outranks_def)

lemma considerChild_eq:
  "considerChild je ce h c (None, w, False) =
     (if leadsToViableHead h c je ce then (Some c, n_weight (h ! c), True) else (None, w, False))"
  "considerChild je ce h c (Some b, n_weight (h ! b), True) =
     (if leadsToViableHead h c je ce \<and> \<not> outranks h b c
      then (Some c, n_weight (h ! c), True) else (Some b, n_weight (h ! b), True))"
  by (auto simp: Let_def outranks_def)

lemma best_choice:
  fixes h :: heap and je ce :: Epoch
  defines "V cs \<equiv> {c \<in> set cs. leadsToViableHead h c je ce}"
  shows "if V cs = {} then fold (considerChild je ce h) cs (None, 0, False) = (None, 0, False)
    else \<exists>b \<in> V cs. fold (considerChild je ce h) cs (None, 0, False) = (Some b, n_weight (h ! b), True)
      \<and> (\<forall>c \<in> V cs. outranks h b c)"
proof (induction cs rule: rev_induct)
  case Nil
  then show ?case by (simp add: V_def)
next
  case (snoc c cs)
  have V: "V (cs @ [c]) = (if leadsToViableHead h c je ce then insert c (V cs) else V cs)"
    by (auto simp: V_def)
  show ?case
  proof (cases "V cs = {}")
    case True
    with snoc show ?thesis by (simp add: V considerChild_eq del: considerChild.simps)
  next
    case False
    with snoc obtain b where b: "b \<in> V cs" "\<forall>c \<in> V cs. outranks h b c"
      "fold (considerChild je ce h) cs (None, 0, False) = (Some b, n_weight (h ! b), True)" by auto
    have "outranks h c b" if "\<not> outranks h b c" using that by (auto simp: outranks_def)
    with b False show ?thesis
      by (auto simp: V considerChild_eq simp del: considerChild.simps intro: outranks_trans)
  qed
qed

text \<open>
  The walk of the specification's \<^verbatim>\<open>get_head\<close> over the blocks a filter keeps: from a block to
  its best kept child, until no child is kept.
\<close>

inductive ghost :: "heap \<Rightarrow> (addr \<Rightarrow> bool) \<Rightarrow> addr \<Rightarrow> addr \<Rightarrow> bool" for h keep where
  ghost_stop: "\<forall>c \<in> set (n_children (h ! a)). \<not> keep c \<Longrightarrow> ghost h keep a a"
| ghost_step: "c \<in> set (n_children (h ! a)) \<Longrightarrow> keep c \<Longrightarrow>
    \<forall>c' \<in> set (n_children (h ! a)). keep c' \<longrightarrow> outranks h c c' \<Longrightarrow>
    ghost h keep c d \<Longrightarrow> ghost h keep a d"

inductive_cases ghostE: "ghost h keep a d"

lemma ghost_desc: "ghost h keep a d \<Longrightarrow> desc h a d"
  by (induction rule: ghost.induct) (auto intro: desc_child)

text \<open>Siblings have different roots, so the walk has one end.\<close>

definition roots_differ :: "heap \<Rightarrow> addr \<Rightarrow> bool" where
  "roots_differ h a \<longleftrightarrow> (\<forall>d. desc h a d \<longrightarrow> inj_on (\<lambda>c. n_root (h ! c)) (set (n_children (h ! d))))"

lemma ghost_unique:
  "ghost h keep a d \<Longrightarrow> ghost h keep a e \<Longrightarrow> roots_differ h a \<Longrightarrow> d = e"
proof (induction arbitrary: e rule: ghost.induct)
  case (ghost_stop a)
  then show ?case by (blast elim: ghostE)
next
  case (ghost_step c a d)
  from ghost_step.prems(1) ghost_step.hyps(1,2)
  obtain c' where c': "c' \<in> set (n_children (h ! a))" "keep c'" "ghost h keep c' e"
    "outranks h c' c" by (blast elim: ghostE)
  have "outranks h c c'" using ghost_step.hyps(3) c' by blast
  with c'(4) have "n_root (h ! c) = n_root (h ! c')" by (auto simp: outranks_def)
  then have "c' = c"
    using ghost_step.prems(2) ghost_step.hyps(1) c'(1) by (auto simp: roots_differ_def dest: inj_onD)
  moreover have "roots_differ h c"
    using ghost_step.prems(2) ghost_step.hyps(1) by (auto simp: roots_differ_def intro: desc_child)
  ultimately show ?case using ghost_step.IH c'(3) by blast
qed

text \<open>The code keeps a block when it or some block below it is viable.\<close>

definition viable_below :: "heap \<Rightarrow> Epoch \<Rightarrow> Epoch \<Rightarrow> addr \<Rightarrow> bool" where
  "viable_below h je ce a \<longleftrightarrow> (\<exists>d. desc h a d \<and> viableForHead (h ! d) je ce)"

lemma settled_ghost:
  assumes t: "tree_heap h" and n: "n < length h"
    and S: "\<And>d. desc h n d \<Longrightarrow> best_settled je ce h d" and "desc h n d"
  shows "(leadsToViableHead h d je ce \<longleftrightarrow> viable_below h je ce d)
    \<and> (case n_bestDescendant (h ! d) of
         None \<Rightarrow> \<forall>c \<in> set (n_children (h ! d)). \<not> viable_below h je ce c
       | Some e \<Rightarrow> viableForHead (h ! e) je ce \<and> desc h d e)
    \<and> ghost h (viable_below h je ce) d (case n_bestDescendant (h ! d) of None \<Rightarrow> d | Some e \<Rightarrow> e)"
  using \<open>desc h n d\<close>
proof (induction "length h - d" arbitrary: d rule: less_induct)
  case less
  let ?P = "viable_below h je ce" and ?cs = "n_children (h ! d)"
  let ?V = "{c \<in> set (n_children (h ! d)). leadsToViableHead h c je ce}"
  have d: "d < length h" using less.prems desc_range t n by blast
  have IH: "leadsToViableHead h c je ce \<longleftrightarrow> ?P c"
    "case n_bestDescendant (h ! c) of None \<Rightarrow> True | Some e \<Rightarrow> viableForHead (h ! e) je ce \<and> desc h c e"
    "ghost h ?P c (case n_bestDescendant (h ! c) of None \<Rightarrow> c | Some e \<Rightarrow> e)" if "c \<in> set ?cs" for c
  proof -
    have "desc h n c" "length h - c < length h - d"
      using desc_step [OF less.prems that] tree_heapD(2,3) [OF t d that] by auto
    from less.hyps [OF this(2,1)] show "leadsToViableHead h c je ce \<longleftrightarrow> ?P c"
      "case n_bestDescendant (h ! c) of None \<Rightarrow> True | Some e \<Rightarrow> viableForHead (h ! e) je ce \<and> desc h c e"
      "ghost h ?P c (case n_bestDescendant (h ! c) of None \<Rightarrow> c | Some e \<Rightarrow> e)"
      by (auto split: option.splits)
  qed
  have below: "?P d \<longleftrightarrow> viableForHead (h ! d) je ce \<or> (\<exists>c \<in> set ?cs. ?P c)"
    by (auto simp: viable_below_def desc_unfold [of h d])
  have bd: "n_bestDescendant (h ! d) =
      chosenDescendant h (fold (considerChild je ce h) ?cs (None, 0, False))"
    using S [OF less.prems] by (simp add: best_settled_def)
  show ?case
  proof (cases "?V = {}")
    case True
    then have none: "\<forall>c \<in> set ?cs. \<not> ?P c" using IH(1) by blast
    have "n_bestDescendant (h ! d) = None"
      using bd best_choice [where h = h and je = je and ce = ce and cs = ?cs] True by (simp add: chosenDescendant_def)
    with none below show ?thesis by (auto simp: leadsToViableHead_def intro: ghost_stop)
  next
    case False
    then obtain b where b: "b \<in> ?V" "\<forall>c \<in> ?V. outranks h b c"
      "fold (considerChild je ce h) ?cs (None, 0, False) = (Some b, n_weight (h ! b), True)"
      using best_choice [where h = h and je = je and ce = ce and cs = ?cs]
      unfolding if_not_P [OF False] by blast
    have b_cs: "b \<in> set ?cs" and b_leads: "leadsToViableHead h b je ce" using b(1) by auto
    let ?e = "case n_bestDescendant (h ! b) of None \<Rightarrow> b | Some e \<Rightarrow> e"
    have e: "n_bestDescendant (h ! d) = Some ?e"
      using bd b(3) by (simp add: chosenDescendant_def split: option.split)
    moreover have viable: "viableForHead (h ! ?e) je ce"
      using b_leads by (simp add: leadsToViableHead_def split: option.splits)
    moreover have "ghost h ?P d ?e"
    proof (rule ghost_step [OF b_cs _ _ IH(3) [OF b_cs]])
      show "?P b" using IH(1) [OF b_cs] b_leads by blast
      show "\<forall>c \<in> set ?cs. ?P c \<longrightarrow> outranks h b c" using IH(1) b(2) by blast
    qed
    moreover from this have "desc h d ?e" by (rule ghost_desc)
    ultimately show ?thesis
      unfolding e leadsToViableHead_def option.case viable_below_def by blast
  qed
qed

text \<open>
  The specification's \<^verbatim>\<open>filter_block_tree\<close> keeps a block when some leaf below it is viable.
  The two filters agree when a block's justified epoch is at least its parent's and at most
  the store's, as it is for the epochs the state transition computes.
\<close>

definition leaf_viable :: "heap \<Rightarrow> Epoch \<Rightarrow> Epoch \<Rightarrow> addr \<Rightarrow> bool" where
  "leaf_viable h je ce a \<longleftrightarrow>
     (\<exists>d. desc h a d \<and> n_children (h ! d) = [] \<and> viableForHead (h ! d) je ce)"

definition epochs_grow :: "heap \<Rightarrow> Epoch \<Rightarrow> addr \<Rightarrow> bool" where
  "epochs_grow h je a \<longleftrightarrow> (\<forall>d. desc h a d \<longrightarrow> n_justifiedEpoch (h ! d) \<le> je
     \<and> (\<forall>c \<in> set (n_children (h ! d)). n_justifiedEpoch (h ! d) \<le> n_justifiedEpoch (h ! c)))"

lemma viable_mono:
  assumes "viableForHead m je ce" and "n_justifiedEpoch m \<le> n_justifiedEpoch n"
    and "n_justifiedEpoch n \<le> je" and "je \<le> MaxUint64 - 2"
  shows "viableForHead n je ce"
proof -
  have "n_justifiedEpoch m + 2 \<le> n_justifiedEpoch n + 2"
    using assms(2-4) unfolding word_le_unat by (simp add: word_nat)
  then show ?thesis using assms by (auto simp: viableForHead_def)
qed

lemma epochs_grow_desc: "epochs_grow h je a \<Longrightarrow> desc h a d \<Longrightarrow> epochs_grow h je d"
  unfolding epochs_grow_def using desc_trans by blast

lemma viable_leaf:
  assumes t: "tree_heap h" and "a < length h" and "epochs_grow h je a" and "je \<le> MaxUint64 - 2"
    and "viableForHead (h ! a) je ce"
  shows "\<exists>d. desc h a d \<and> n_children (h ! d) = [] \<and> viableForHead (h ! d) je ce"
  using assms(2-)
proof (induction "length h - a" arbitrary: a rule: less_induct)
  case less
  show ?case
  proof (cases "n_children (h ! a)")
    case Nil
    with less.prems show ?thesis by blast
  next
    case (Cons c cs)
    then have c: "c \<in> set (n_children (h ! a))" by simp
    have d: "desc h a c" using desc_child [OF c] by simp
    have range: "c < length h" "length h - c < length h - a"
      using tree_heapD(2,3) [OF t less.prems(1) c] by auto
    have "n_justifiedEpoch (h ! a) \<le> n_justifiedEpoch (h ! c)" "n_justifiedEpoch (h ! c) \<le> je"
      using less.prems(2) c d by (auto simp: epochs_grow_def)
    then have "viableForHead (h ! c) je ce" using viable_mono less.prems(3,4) by blast
    moreover have "epochs_grow h je c"
      using less.prems(2) d by (rule epochs_grow_desc)
    ultimately show ?thesis
      using less.hyps [OF range(2,1)] less.prems(3) c by (blast intro: desc_child)
  qed
qed

lemma viable_below_leaf:
  assumes "tree_heap h" and "n < length h" and "epochs_grow h je n" and "je \<le> MaxUint64 - 2"
    and "desc h n a"
  shows "viable_below h je ce a \<longleftrightarrow> leaf_viable h je ce a"
proof
  assume "viable_below h je ce a"
  then obtain d where d: "desc h a d" "viableForHead (h ! d) je ce" by (auto simp: viable_below_def)
  have "desc h n d" using desc_trans [OF d(1) assms(5)] .
  then have "d < length h" "epochs_grow h je d"
    using desc_range assms(1,2) epochs_grow_desc [OF assms(3)] by blast+
  from viable_leaf [OF assms(1) this assms(4) d(2)] show "leaf_viable h je ce a"
    unfolding leaf_viable_def using desc_trans [OF _ d(1)] by blast
qed (auto simp: leaf_viable_def viable_below_def)

lemma ghost_cong:
  "ghost h keep a d \<Longrightarrow> (\<And>c. desc h a c \<Longrightarrow> keep c = keep' c) \<Longrightarrow> ghost h keep' a d"
proof (induction rule: ghost.induct)
  case (ghost_stop a)
  have "keep' c = keep c" if "c \<in> set (n_children (h ! a))" for c
    using ghost_stop.prems [of c] desc_child [OF that] by simp
  then show ?case using ghost_stop.hyps by (intro ghost.ghost_stop) simp
next
  case (ghost_step c a d)
  have "ghost h keep' c d"
    using ghost_step.IH ghost_step.prems desc_child [OF ghost_step.hyps(1)] by simp
  then have step: "keep' c \<Longrightarrow> \<forall>c' \<in> set (n_children (h ! a)). keep' c' \<longrightarrow> outranks h c c' \<Longrightarrow>
      ghost h keep' a d" using ghost.ghost_step ghost_step.hyps(1) by blast
  have "keep' c' = keep c'" if "c' \<in> set (n_children (h ! a))" for c'
    using ghost_step.prems [of c'] desc_child [OF that] by simp
  then show ?case using ghost_step.hyps by (intro step) simp_all
qed

end
