(* ===== verification/FC_Store.thy ===== *)
theory FC_Store
  imports FC_Best
begin

text \<open>
  The operations of the fork choice store: \<^verbatim>\<open>store.go\<close>, \<^verbatim>\<open>optimistic_sync.go\<close> and the store
  part of \<^verbatim>\<open>unrealized_justification.go\<close> and \<^verbatim>\<open>proposer_boost.go\<close> of the
  \<^verbatim>\<open>doubly-linked-tree\<close> package. Metrics, traces and logs are left out.

  A traversal of the tree runs with the number of allocated nodes as its recursion bound,
  a walk to the root with the address it starts from; both are always enough on a
  well-formed heap. An operation that reads the clock takes the successive readings as a
  function \<open>clk\<close>.
\<close>

type_synonym clock = "nat \<Rightarrow> Time"

abbreviation nodeOf :: "Store \<Rightarrow> bytes32 \<Rightarrow> addr option" where
  "nodeOf s r \<equiv> map_of (s_nodeByRoot s) r"

definition onHeap :: "(heap \<Rightarrow> (heap, 'a) outcome) \<Rightarrow> Store \<Rightarrow> (Store, 'a) outcome" where
  "onHeap f s = (case f (s_heap s) of (r, h) \<Rightarrow> (r, s\<lparr>s_heap := h\<rparr>))"

section \<open>The head\<close>

definition Store_head :: "BeaconChainConfig \<Rightarrow> ctx \<Rightarrow> Time \<Rightarrow> Store \<Rightarrow> (Store, bytes32) outcome" where
  "Store_head cfg ctx now s =
     (if ctx None then (Inl ErrCtx, s)
      else let jc = s_justifiedCheckpoint s; h = s_heap s in
        case (case nodeOf s (cp_Root jc) of
                Some n \<Rightarrow> Inr (Some n)
              | None \<Rightarrow> if cp_Epoch jc = GenesisEpoch then Inr (s_treeRootNode s)
                        else Inl ErrUnknownJustifiedRoot) of
          Inl e \<Rightarrow> (Inl e, s)
        | Inr None \<Rightarrow> (Inl Panic, s)
        | Inr (Some justifiedNode) \<Rightarrow>
            let bestDescendant = (case n_bestDescendant (h ! justifiedNode) of
                  None \<Rightarrow> justifiedNode | Some d \<Rightarrow> d);
                currentEpoch = EpochsSinceGenesis cfg now (s_genesisTime s)
            in if \<not> viableForHead (h ! bestDescendant) (cp_Epoch jc) currentEpoch
               then (Inl ErrHeadNotEligible, s\<lparr>s_allTipsAreInvalid := True\<rparr>)
               else (Inr (n_root (h ! bestDescendant)),
                     s\<lparr>s_allTipsAreInvalid := False, s_headNode := Some bestDescendant\<rparr>))"

section \<open>Removing nodes\<close>

text \<open>
  \<^verbatim>\<open>removeNodeAndChildren\<close>: the children first, each after a check of the context, then the
  node's own entries. The list of removed roots is threaded as in the code; the list that
  accompanies an error is dropped, as both callers of \<^verbatim>\<open>SetOptimisticToInvalid\<close> do.
\<close>

definition dropNode :: "addr \<Rightarrow> Store \<Rightarrow> Store" where
  "dropNode n s =
     (let nd = s_heap s ! n;
          s1 = (if n_root nd = s_proposerBoostRoot s then s\<lparr>s_proposerBoostRoot := 0\<rparr> else s);
          s2 = (if n_root nd = s_previousProposerBoostRoot s1
                then s1\<lparr>s_previousProposerBoostRoot := ZeroHash, s_previousProposerBoostScore := 0\<rparr>
                else s1)
      in s2\<lparr>s_nodeByRoot := AList.delete (n_root nd) (s_nodeByRoot s2),
            s_nodeByPayload := AList.delete (n_payloadHash nd) (s_nodeByPayload s2)\<rparr>)"

primrec removeChildrenLoop ::
    "(addr \<Rightarrow> bytes32 list \<Rightarrow> Store \<Rightarrow> (Store, bytes32 list) outcome) \<Rightarrow> ctx \<Rightarrow> addr list
      \<Rightarrow> bytes32 list \<Rightarrow> Store \<Rightarrow> (Store, bytes32 list) outcome"
where
  "removeChildrenLoop rec ctx [] invalidRoots s = (Inr invalidRoots, s)"
| "removeChildrenLoop rec ctx (child # cs) invalidRoots s =
     (if ctx (Some child) then (Inl ErrCtx, s)
      else obind (rec child invalidRoots s) (\<lambda>invalidRoots' s'.
        removeChildrenLoop rec ctx cs invalidRoots' s'))"

primrec removeNodeAndChildren ::
    "nat \<Rightarrow> ctx \<Rightarrow> addr \<Rightarrow> bytes32 list \<Rightarrow> Store \<Rightarrow> (Store, bytes32 list) outcome"
where
  "removeNodeAndChildren 0 ctx n invalidRoots s = (Inl OutOfFuel, s)"
| "removeNodeAndChildren (Suc k) ctx n invalidRoots s =
     obind (removeChildrenLoop (removeNodeAndChildren k ctx) ctx (n_children (s_heap s ! n))
              invalidRoots s)
       (\<lambda>invalidRoots' s'. (Inr (invalidRoots' @ [n_root (s_heap s' ! n)]), dropNode n s'))"

text \<open>
  \<^verbatim>\<open>removeNode\<close> takes the node out of its parent's children by moving the last child into its
  place; a node that is not among them leaves the list as it is.
\<close>

fun swapRemove :: "addr \<Rightarrow> addr list \<Rightarrow> addr list" where
  "swapRemove n children =
     (if length children = 1 then []
      else case List.find (\<lambda>i. children ! i = n) [0..<length children] of
          None \<Rightarrow> children
        | Some i \<Rightarrow> butlast (if i \<noteq> length children - 1 then children[i := last children] else children))"

definition removeNode :: "ctx \<Rightarrow> addr option \<Rightarrow> Store \<Rightarrow> (Store, bytes32 list) outcome" where
  "removeNode ctx node s =
     (case node of
        None \<Rightarrow> (Inl ErrNilNode, s)
      | Some n \<Rightarrow>
          (case n_parent (s_heap s ! n) of
             None \<Rightarrow> (Inl ErrInvalidOptimisticStatus, s)
           | Some p \<Rightarrow>
               if \<not> n_optimistic (s_heap s ! n) then (Inl ErrInvalidOptimisticStatus, s)
               else let h = modify p (\<lambda>nd. nd\<lparr>n_children := swapRemove n (n_children nd)\<rparr>) (s_heap s)
                    in removeNodeAndChildren (length h) ctx n [] (s\<lparr>s_heap := h\<rparr>)))"

text \<open>
  \<^verbatim>\<open>setOptimisticToInvalid\<close>: the walk up to the first block after the last valid payload, and
  the method. A node of the store without a parent has its parent dereferenced nevertheless.
\<close>

primrec firstInvalidLoop :: "nat \<Rightarrow> ctx \<Rightarrow> heap \<Rightarrow> bytes32 \<Rightarrow> addr \<Rightarrow> addr result" where
  "firstInvalidLoop 0 ctx h lastValidHash n = Inl OutOfFuel"
| "firstInvalidLoop (Suc k) ctx h lastValidHash n =
     (case n_parent (h ! n) of
        None \<Rightarrow> Inr n
      | Some p \<Rightarrow>
          if n_payloadHash (h ! p) = lastValidHash then Inr n
          else if ctx (Some n) then Inl ErrCtx
          else firstInvalidLoop k ctx h lastValidHash p)"

definition invalidateFrom :: "ctx \<Rightarrow> addr \<Rightarrow> bytes32 \<Rightarrow> bytes32 \<Rightarrow> Store \<Rightarrow> (Store, bytes32 list) outcome" where
  "invalidateFrom ctx node parentRoot lastValidHash s =
     (case firstInvalidLoop (Suc node) ctx (s_heap s) lastValidHash node of
        Inl e \<Rightarrow> (Inl e, s)
      | Inr firstInvalid \<Rightarrow>
          if n_parent (s_heap s ! firstInvalid) = None
          then (if n_root (s_heap s ! node) = parentRoot then (Inr [], s)
                else removeNode ctx (Some node) s)
          else removeNode ctx (Some firstInvalid) s)"

definition setOptimisticToInvalid ::
    "ctx \<Rightarrow> bytes32 \<Rightarrow> bytes32 \<Rightarrow> bytes32 \<Rightarrow> Store \<Rightarrow> (Store, bytes32 list) outcome"
where
  "setOptimisticToInvalid ctx root parentRoot lastValidHash s =
     (case nodeOf s root of
        None \<Rightarrow>
          (case nodeOf s parentRoot of
             None \<Rightarrow> (Inl ErrNilNode, s)
           | Some node \<Rightarrow>
               if n_payloadHash (s_heap s ! node) = lastValidHash then (Inr [], s)
               else invalidateFrom ctx node parentRoot lastValidHash s)
      | Some node \<Rightarrow>
          (case n_parent (s_heap s ! node) of
             None \<Rightarrow> (Inl Panic, s)
           | Some p \<Rightarrow>
               if n_root (s_heap s ! p) \<noteq> parentRoot then (Inl ErrInvalidParentRoot, s)
               else invalidateFrom ctx node parentRoot lastValidHash s))"

section \<open>Inserting a block\<close>

definition newNode :: "BeaconChainConfig \<Rightarrow> Time \<Rightarrow> ROBlock \<Rightarrow> bytes32 \<Rightarrow> addr option \<Rightarrow> Epoch \<Rightarrow> Epoch
    \<Rightarrow> heap \<Rightarrow> Node" where
  "newNode cfg now b payloadHash parent justifiedEpoch finalizedEpoch h = \<lparr>
     n_slot = b_slot b,
     n_root = b_root b,
     n_payloadHash = payloadHash,
     n_parent = parent,
     n_target =
       (if b_slot b mod SlotsPerEpoch cfg = 0 then Some (length h)
        else case parent of
            None \<Rightarrow> None
          | Some p \<Rightarrow> if ToEpoch cfg (b_slot b) = ToEpoch cfg (n_slot (h ! p)) then n_target (h ! p)
                      else Some p),
     n_children = [],
     n_justifiedEpoch = justifiedEpoch,
     n_unrealizedJustifiedEpoch = justifiedEpoch,
     n_finalizedEpoch = finalizedEpoch,
     n_unrealizedFinalizedEpoch = finalizedEpoch,
     n_balance = 0,
     n_weight = 0,
     n_bestDescendant = None,
     n_optimistic = True,
     n_timestamp = now\<rparr>"

text \<open>\<^verbatim>\<open>s.treeRootNode.updateBestDescendant\<close>; on a \<^verbatim>\<open>nil\<close> node it panics after its first check.\<close>

definition rootBestDescendant :: "ctx \<Rightarrow> Epoch \<Rightarrow> Epoch \<Rightarrow> Epoch \<Rightarrow> Store \<Rightarrow> (Store, unit) outcome" where
  "rootBestDescendant ctx je fe ce s =
     (case s_treeRootNode s of
        None \<Rightarrow> (Inl (if ctx None then ErrCtx else Panic), s)
      | Some t \<Rightarrow> onHeap (updateBestDescendant (length (s_heap s)) ctx je fe ce t) s)"

definition insertReceived :: "BeaconChainConfig \<Rightarrow> Time \<Rightarrow> Slot \<Rightarrow> addr \<Rightarrow> Store \<Rightarrow> (Store, addr) outcome" where
  "insertReceived cfg now slot n s =
     (let i = unat (slot mod SlotsPerEpoch cfg);
          recent = slot + SlotsPerEpoch cfg > CurrentSlot cfg now (s_genesisTime s);
          s' = (if recent then s\<lparr>s_receivedBlocksLastEpoch := (s_receivedBlocksLastEpoch s)[i := slot]\<rparr> else s)
      in if recent \<and> \<not> i < length (s_receivedBlocksLastEpoch s) then (Inl Panic, s)
         else case s_highestReceivedNode s' of
             None \<Rightarrow> (Inl Panic, s')
           | Some hr \<Rightarrow>
               (Inr n, if slot > n_slot (s_heap s' ! hr) then s'\<lparr>s_highestReceivedNode := Some n\<rparr> else s'))"

definition boostThreshold :: "BeaconChainConfig \<Rightarrow> Duration" where
  "boostThreshold cfg = Duration_mul (toDuration (SecondsPerSlot cfg div IntervalsPerSlot cfg)) Second"

text \<open>The branch of \<^verbatim>\<open>insert\<close> for a block with a known parent, after the node is linked.\<close>

definition insertLinked ::
    "BeaconChainConfig \<Rightarrow> ctx \<Rightarrow> clock \<Rightarrow> ROBlock \<Rightarrow> addr \<Rightarrow> Store \<Rightarrow> (Store, addr) outcome"
where
  "insertLinked cfg ctx clk b n s =
     (let now = clk 1; genesis = s_genesisTime s in
      if Time_Before now genesis then (Inr n, s)
      else let currentSlot = CurrentSlot cfg (clk 2) genesis in
        case SinceSlotStart cfg currentSlot genesis now of
          Inl e \<Rightarrow> (Inl e, s)
        | Inr sss \<Rightarrow>
            let isFirstBlock = (s_proposerBoostRoot s = 0);
                s1 = (if currentSlot = b_slot b \<and> sss < boostThreshold cfg \<and> isFirstBlock
                      then s\<lparr>s_proposerBoostRoot := b_root b\<rparr> else s)
            in case rootBestDescendant ctx (cp_Epoch (s_justifiedCheckpoint s1))
                      (cp_Epoch (s_finalizedCheckpoint s1)) (ToEpoch cfg currentSlot) s1 of
                (Inl e, s2) \<Rightarrow> (Inl e, if goValue e then snd (removeNode ctx (Some n) s2) else s2)
              | (Inr _, s2) \<Rightarrow> insertReceived cfg (clk 3) (b_slot b) n s2)"

definition blockPayloadHash :: "ROBlock \<Rightarrow> bytes32 result" where
  "blockPayloadHash b = (if b_version b \<ge> Bellatrix then b_executionBlockHash b else Inr 0)"

definition Store_insert ::
    "BeaconChainConfig \<Rightarrow> ctx \<Rightarrow> clock \<Rightarrow> ROBlock \<Rightarrow> Epoch \<Rightarrow> Epoch \<Rightarrow> Store \<Rightarrow> (Store, addr) outcome"
where
  "Store_insert cfg ctx clk b justifiedEpoch finalizedEpoch s =
     (case blockPayloadHash b of
        Inl e \<Rightarrow> (Inl e, s)
      | Inr payloadHash \<Rightarrow>
          (case nodeOf s (b_root b) of
             Some n \<Rightarrow> (Inr n, s)
           | None \<Rightarrow>
               let parent = nodeOf s (b_parentRoot b);
                   n = length (s_heap s);
                   node = newNode cfg (clk 0) b payloadHash parent justifiedEpoch finalizedEpoch (s_heap s);
                   s1 = s\<lparr>s_heap := s_heap s @ [node],
                          s_nodeByPayload := AList.update payloadHash n (s_nodeByPayload s),
                          s_nodeByRoot := AList.update (b_root b) n (s_nodeByRoot s)\<rparr>
               in case parent of
                   None \<Rightarrow>
                     (if s_treeRootNode s1 = None
                      then insertReceived cfg (clk 3) (b_slot b) n
                             (s1\<lparr>s_treeRootNode := Some n, s_headNode := Some n,
                                 s_highestReceivedNode := Some n\<rparr>)
                      else (Inl ErrInvalidParentRoot,
                            s1\<lparr>s_nodeByRoot := AList.delete (b_root b) (s_nodeByRoot s1),
                               s_nodeByPayload := AList.delete payloadHash (s_nodeByPayload s1)\<rparr>))
                 | Some p \<Rightarrow>
                     insertLinked cfg ctx clk b n
                       (s1\<lparr>s_heap := modify p (\<lambda>nd. nd\<lparr>n_children := n_children nd @ [n]\<rparr>) (s_heap s1)\<rparr>)))"

section \<open>Pruning\<close>

primrec pruneLoop ::
    "(addr \<Rightarrow> Store \<Rightarrow> (Store, unit) outcome) \<Rightarrow> addr list \<Rightarrow> Store \<Rightarrow> (Store, unit) outcome"
where
  "pruneLoop rec [] s = (Inr (), s)"
| "pruneLoop rec (child # cs) s = obind (rec child s) (\<lambda>_ s'. pruneLoop rec cs s')"

definition cutNode :: "addr \<Rightarrow> Store \<Rightarrow> Store" where
  "cutNode n s = s\<lparr>s_heap := modify n (\<lambda>nd. nd\<lparr>n_children := []\<rparr>) (s_heap s),
     s_nodeByRoot := AList.delete (n_root (s_heap s ! n)) (s_nodeByRoot s),
     s_nodeByPayload := AList.delete (n_payloadHash (s_heap s ! n)) (s_nodeByPayload s)\<rparr>"

primrec pruneFinalizedNodeByRootMap ::
    "nat \<Rightarrow> ctx \<Rightarrow> addr \<Rightarrow> addr \<Rightarrow> Store \<Rightarrow> (Store, unit) outcome"
where
  "pruneFinalizedNodeByRootMap 0 ctx finalizedNode node s = (Inl OutOfFuel, s)"
| "pruneFinalizedNodeByRootMap (Suc k) ctx finalizedNode node s =
     (if ctx (Some node) then (Inl ErrCtx, s)
      else if node = finalizedNode
      then (Inr (), if n_target (s_heap s ! node) \<noteq> Some node
                    then s\<lparr>s_heap := modify node (\<lambda>nd. nd\<lparr>n_target := None\<rparr>) (s_heap s)\<rparr> else s)
      else obind (pruneLoop (pruneFinalizedNodeByRootMap k ctx finalizedNode)
                    (n_children (s_heap s ! node)) s)
             (\<lambda>_ s'. (Inr (), cutNode node s')))"

definition incompatible :: "heap \<Rightarrow> Slot \<Rightarrow> addr \<Rightarrow> bool" where
  "incompatible h checkpointMaxSlot child \<longleftrightarrow> n_slot (h ! child) \<le> checkpointMaxSlot"

text \<open>
  The loop over the children of the new tree root, which tests each child's slot when it
  gets to it.
\<close>

primrec pruneIncompatible :: "ctx \<Rightarrow> addr \<Rightarrow> Slot \<Rightarrow> addr list \<Rightarrow> Store \<Rightarrow> (Store, unit) outcome" where
  "pruneIncompatible ctx finalizedNode checkpointMaxSlot [] s = (Inr (), s)"
| "pruneIncompatible ctx finalizedNode checkpointMaxSlot (child # cs) s =
     (if incompatible (s_heap s) checkpointMaxSlot child
      then obind (pruneFinalizedNodeByRootMap (length (s_heap s)) ctx finalizedNode child s)
             (\<lambda>_ s'. pruneIncompatible ctx finalizedNode checkpointMaxSlot cs s')
      else pruneIncompatible ctx finalizedNode checkpointMaxSlot cs s)"

definition pruneRoot :: "ctx \<Rightarrow> addr \<Rightarrow> Store \<Rightarrow> (Store, unit) outcome" where
  "pruneRoot ctx finalizedNode s =
     (case s_treeRootNode s of
        None \<Rightarrow> (Inl (if ctx None then ErrCtx else Panic), s)
      | Some t \<Rightarrow> pruneFinalizedNodeByRootMap (length (s_heap s)) ctx finalizedNode t s)"

definition Store_prune :: "BeaconChainConfig \<Rightarrow> ctx \<Rightarrow> Store \<Rightarrow> (Store, unit) outcome" where
  "Store_prune cfg ctx s =
     (case nodeOf s (cp_Root (s_finalizedCheckpoint s)) of
        None \<Rightarrow> (Inl ErrUnknownFinalizedRoot, s)
      | Some finalizedNode \<Rightarrow>
          if n_parent (s_heap s ! finalizedNode) = None then (Inr (), s)
          else obind (pruneRoot ctx finalizedNode s) (\<lambda>_ s1.
            let s2 = s1\<lparr>s_heap := modify finalizedNode (\<lambda>nd. nd\<lparr>n_parent := None\<rparr>) (s_heap s1),
                        s_treeRootNode := Some finalizedNode\<rparr>
            in case EpochStart cfg (cp_Epoch (s_finalizedCheckpoint s)) of
                Inl e \<Rightarrow> (Inl e, s2)
              | Inr checkpointMaxSlot \<Rightarrow>
                  if n_slot (s_heap s2 ! finalizedNode) = checkpointMaxSlot then (Inr (), s2)
                  else pruneIncompatible ctx finalizedNode checkpointMaxSlot
                         (n_children (s_heap s2 ! finalizedNode)) s2))"

section \<open>Tips, boost and unrealized epochs\<close>

definition Store_tips :: "Store \<Rightarrow> (bytes32 \<times> Slot) list" where
  "Store_tips s = [(r, n_slot (s_heap s ! n)). (r, n) \<leftarrow> s_nodeByRoot s, n_children (s_heap s ! n) = []]"

definition Store_proposerBoost :: "Store \<Rightarrow> bytes32" where
  "Store_proposerBoost s = s_proposerBoostRoot s"

abbreviation onNode :: "addr \<Rightarrow> (Node \<Rightarrow> Node) \<Rightarrow> Store \<Rightarrow> Store" where
  "onNode n f s \<equiv> s\<lparr>s_heap := modify n f (s_heap s)\<rparr>"

definition setUnrealizedJustifiedEpoch :: "bytes32 \<Rightarrow> Epoch \<Rightarrow> Store \<Rightarrow> (Store, unit) outcome" where
  "setUnrealizedJustifiedEpoch root epoch s =
     (case nodeOf s root of
        None \<Rightarrow> (Inl ErrNilNode, s)
      | Some n \<Rightarrow>
          if epoch < n_unrealizedJustifiedEpoch (s_heap s ! n)
          then (Inl ErrInvalidUnrealizedJustifiedEpoch, s)
          else (Inr (), onNode n (\<lambda>nd. nd\<lparr>n_unrealizedJustifiedEpoch := epoch\<rparr>) s))"

definition setUnrealizedFinalizedEpoch :: "bytes32 \<Rightarrow> Epoch \<Rightarrow> Store \<Rightarrow> (Store, unit) outcome" where
  "setUnrealizedFinalizedEpoch root epoch s =
     (case nodeOf s root of
        None \<Rightarrow> (Inl ErrNilNode, s)
      | Some n \<Rightarrow>
          if epoch < n_unrealizedFinalizedEpoch (s_heap s ! n)
          then (Inl ErrInvalidUnrealizedFinalizedEpoch, s)
          else (Inr (), onNode n (\<lambda>nd. nd\<lparr>n_unrealizedFinalizedEpoch := epoch\<rparr>) s))"

text \<open>
  What \<^verbatim>\<open>pullTips\<close> reads of the state: its slot, its checkpoints and the value
  \<^verbatim>\<open>precompute.UnrealizedCheckpoints\<close> computes from it.
\<close>

record BeaconStateView =
  st_slot :: Slot
  st_currentJustifiedCheckpoint :: "Checkpoint option"
  st_finalizedCheckpoint :: "Checkpoint option"
  st_unrealizedCheckpoints :: "(Checkpoint \<times> Checkpoint) result"

text \<open>The store's own unrealized checkpoints, raised to the ones given.\<close>

definition raiseUnrealized :: "Checkpoint \<Rightarrow> Checkpoint \<Rightarrow> Store \<Rightarrow> Store" where
  "raiseUnrealized uj uf s =
     (let s1 = (if cp_Epoch uj > cp_Epoch (s_unrealizedJustifiedCheckpoint s)
                then s\<lparr>s_unrealizedJustifiedCheckpoint := uj\<rparr> else s)
      in if cp_Epoch uf > cp_Epoch (s_unrealizedFinalizedCheckpoint s1)
         then s1\<lparr>s_unrealizedJustifiedCheckpoint := uj, s_unrealizedFinalizedCheckpoint := uf\<rparr>
         else s1)"

definition pullTips :: "BeaconChainConfig \<Rightarrow> Time \<Rightarrow> BeaconStateView \<Rightarrow> addr \<Rightarrow> Checkpoint \<Rightarrow> Checkpoint
    \<Rightarrow> Store \<Rightarrow> (Checkpoint \<times> Checkpoint) \<times> Store" where
  "pullTips cfg now st n jc fc s =
     (case n_parent (s_heap s ! n) of
        None \<Rightarrow> ((jc, fc), s)
      | Some p \<Rightarrow>
          let parent = s_heap s ! p;
              currentEpoch = ToEpoch cfg (CurrentSlot cfg now (s_genesisTime s));
              stateEpoch = ToEpoch cfg (st_slot st);
              currJustified = (n_unrealizedJustifiedEpoch parent = currentEpoch);
              prevJustified = (n_unrealizedJustifiedEpoch parent + 1 = currentEpoch);
              tooEarlyForCurr = SinceEpochStarts cfg (st_slot st) * 3 < SlotsPerEpoch cfg * 2
          in if currJustified \<or> (stateEpoch = currentEpoch \<and> prevJustified \<and> tooEarlyForCurr)
             then ((jc, fc), onNode n (\<lambda>nd. nd\<lparr>n_unrealizedJustifiedEpoch := n_unrealizedJustifiedEpoch parent,
                               n_unrealizedFinalizedEpoch := n_unrealizedFinalizedEpoch parent\<rparr>) s)
             else
               let (uj, uf) = (case st_unrealizedCheckpoints st of Inl e \<Rightarrow> (jc, fc) | Inr cs \<Rightarrow> cs);
                   s1 = onNode n (\<lambda>nd. nd\<lparr>n_unrealizedJustifiedEpoch := cp_Epoch uj,
                          n_unrealizedFinalizedEpoch := cp_Epoch uf\<rparr>) (raiseUnrealized uj uf s)
               in if stateEpoch < currentEpoch
                  then ((uj, uf), onNode n (\<lambda>nd. nd\<lparr>n_justifiedEpoch := cp_Epoch uj,
                                    n_finalizedEpoch := cp_Epoch uf\<rparr>) s1)
                  else ((jc, fc), s1))"

end
