(* ===== verification/FC_ForkChoice.thy ===== *)
theory FC_ForkChoice
  imports FC_Store
begin

text \<open>
  The \<^verbatim>\<open>ForkChoice\<close> object over the store: \<^verbatim>\<open>forkchoice.go\<close>, \<^verbatim>\<open>on_tick.go\<close>, \<^verbatim>\<open>last_root.go\<close>,
  \<^verbatim>\<open>reorg_late_blocks.go\<close>, \<^verbatim>\<open>proposer_boost.go\<close> and the rest of \<^verbatim>\<open>store.go\<close> and
  \<^verbatim>\<open>unrealized_justification.go\<close>.
\<close>

abbreviation f_nodeOf :: "ForkChoice \<Rightarrow> bytes32 \<Rightarrow> addr option" where
  "f_nodeOf f r \<equiv> nodeOf (f_store f) r"

abbreviation f_node :: "ForkChoice \<Rightarrow> addr \<Rightarrow> Node" where
  "f_node f a \<equiv> s_heap (f_store f) ! a"

definition onStore :: "(Store \<Rightarrow> (Store, 'a) outcome) \<Rightarrow> ForkChoice \<Rightarrow> (ForkChoice, 'a) outcome" where
  "onStore g f = (case g (f_store f) of (r, s) \<Rightarrow> (r, f\<lparr>f_store := s\<rparr>))"

text \<open>\<^verbatim>\<open>fieldparams.SlotsPerEpoch\<close>, the length of the array of received slots (mainnet).\<close>

abbreviation fieldparams_SlotsPerEpoch :: nat where "fieldparams_SlotsPerEpoch \<equiv> 32"

definition zeroCheckpoint :: Checkpoint where
  "zeroCheckpoint = \<lparr>cp_Epoch = 0, cp_Root = 0\<rparr>"

text \<open>
  \<^verbatim>\<open>New\<close>. The genesis time is Go's zero time until \<^verbatim>\<open>SetGenesisTime\<close>, and \<^verbatim>\<open>balancesByRoot\<close> a
  \<^verbatim>\<open>nil\<close> function, which panics when called, until \<^verbatim>\<open>SetBalancesByRooter\<close>.
\<close>

definition zeroTime :: Time where
  "zeroTime = - 62135596800 * Second"

definition FC_New :: ForkChoice where
  "FC_New = \<lparr>
     f_store = \<lparr>
       s_heap = [],
       s_justifiedCheckpoint = zeroCheckpoint,
       s_unrealizedJustifiedCheckpoint = zeroCheckpoint,
       s_unrealizedFinalizedCheckpoint = zeroCheckpoint,
       s_prevJustifiedCheckpoint = zeroCheckpoint,
       s_finalizedCheckpoint = zeroCheckpoint,
       s_proposerBoostRoot = 0,
       s_previousProposerBoostRoot = 0,
       s_previousProposerBoostScore = 0,
       s_committeeWeight = 0,
       s_treeRootNode = None,
       s_headNode = None,
       s_nodeByRoot = [],
       s_nodeByPayload = [],
       s_slashedIndices = {},
       s_originRoot = 0,
       s_genesisTime = zeroTime,
       s_highestReceivedNode = None,
       s_receivedBlocksLastEpoch = replicate fieldparams_SlotsPerEpoch 0,
       s_allTipsAreInvalid = False\<rparr>,
     f_votes = [],
     f_balances = [],
     f_justifiedBalances = [],
     f_numActiveValidators = 0,
     f_balancesByRoot = (\<lambda>_. Inl Panic)\<rparr>"

definition NodeCount :: "ForkChoice \<Rightarrow> nat" where
  "NodeCount f = length (s_nodeByRoot (f_store f))"

section \<open>Votes and balances\<close>

text \<open>\<^verbatim>\<open>ProcessAttestation\<close>: growing the vote list, one index, all indices.\<close>

definition emptyVote :: Vote where
  "emptyVote = \<lparr>v_currentRoot = ZeroHash, v_nextRoot = ZeroHash, v_nextEpoch = 0\<rparr>"

definition growVotes :: "u64 \<Rightarrow> Vote list \<Rightarrow> Vote list" where
  "growVotes index votes = votes @ replicate (Suc (unat index) - length votes) emptyVote"

definition processVote :: "bytes32 \<Rightarrow> Epoch \<Rightarrow> u64 \<Rightarrow> Vote list \<Rightarrow> Vote list" where
  "processVote blockRoot targetEpoch index votes =
     (let votes' = growVotes index votes; i = unat index; v = votes' ! i;
          newVote = (v_nextRoot v = ZeroHash \<and> v_currentRoot v = ZeroHash)
      in if newVote \<or> targetEpoch > v_nextEpoch v
         then votes'[i := v\<lparr>v_nextEpoch := targetEpoch, v_nextRoot := blockRoot\<rparr>]
         else votes')"

definition ProcessAttestation :: "u64 list \<Rightarrow> bytes32 \<Rightarrow> Epoch \<Rightarrow> ForkChoice \<Rightarrow> ForkChoice" where
  "ProcessAttestation validatorIndices blockRoot targetEpoch f =
     f\<lparr>f_votes := fold (processVote blockRoot targetEpoch) validatorIndices (f_votes f)\<rparr>"

text \<open>\<^verbatim>\<open>updateBalances\<close>: moving the balance of one vote, the loop and the method.\<close>

definition addBalance :: "bytes32 \<Rightarrow> u64 \<Rightarrow> Store \<Rightarrow> Store" where
  "addBalance root b s =
     (case nodeOf s root of
        Some n \<Rightarrow> if root \<noteq> ZeroHash then onNode n (\<lambda>nd. nd\<lparr>n_balance := n_balance nd + b\<rparr>) s else s
      | None \<Rightarrow> s)"

definition subBalance :: "bytes32 \<Rightarrow> u64 \<Rightarrow> Store \<Rightarrow> Store" where
  "subBalance root b s =
     (case nodeOf s root of
        Some n \<Rightarrow>
          if root \<noteq> ZeroHash
          then onNode n (\<lambda>nd. nd\<lparr>n_balance := (if n_balance nd < b then 0 else n_balance nd - b)\<rparr>) s
          else s
      | None \<Rightarrow> s)"

definition balanceAt :: "u64 list \<Rightarrow> nat \<Rightarrow> u64" where
  "balanceAt bs i = (if i < length bs then bs ! i else 0)"

definition updateVote :: "u64 list \<Rightarrow> u64 list \<Rightarrow> nat \<Rightarrow> Vote \<times> Store \<Rightarrow> Vote \<times> Store" where
  "updateVote oldBalances newBalances index = (\<lambda>(vote, s).
     if of_nat index \<in> s_slashedIndices s then (vote, s)
     else if v_currentRoot vote = ZeroHash \<and> v_nextRoot vote = ZeroHash then (vote, s)
     else let oldBalance = balanceAt oldBalances index;
              newBalance = balanceAt newBalances index;
              s' = (if v_currentRoot vote \<noteq> v_nextRoot vote \<or> oldBalance \<noteq> newBalance
                    then subBalance (v_currentRoot vote) oldBalance
                           (addBalance (v_nextRoot vote) newBalance s)
                    else s)
          in (vote\<lparr>v_currentRoot := v_nextRoot vote\<rparr>, s'))"

fun updateVotesLoop :: "u64 list \<Rightarrow> u64 list \<Rightarrow> nat \<Rightarrow> Vote list \<Rightarrow> Store \<Rightarrow> Vote list \<times> Store" where
  "updateVotesLoop oldBalances newBalances index [] s = ([], s)"
| "updateVotesLoop oldBalances newBalances index (vote # votes) s =
     (let (vote', s') = updateVote oldBalances newBalances index (vote, s);
          (votes', s'') = updateVotesLoop oldBalances newBalances (Suc index) votes s'
      in (vote' # votes', s''))"

definition updateBalances :: "ForkChoice \<Rightarrow> ForkChoice" where
  "updateBalances f =
     (let (votes, s) = updateVotesLoop (f_balances f) (f_justifiedBalances f) 0 (f_votes f) (f_store f)
      in f\<lparr>f_votes := votes, f_store := s, f_balances := f_justifiedBalances f\<rparr>)"

definition InsertSlashedIndex :: "ValidatorIndex \<Rightarrow> ForkChoice \<Rightarrow> ForkChoice" where
  "InsertSlashedIndex index f =
     (if index \<in> s_slashedIndices (f_store f) then f
      else let s = (f_store f)\<lparr>s_slashedIndices := insert index (s_slashedIndices (f_store f))\<rparr>;
               f1 = f\<lparr>f_store := s\<rparr>; i = unat index in
        if i \<ge> length (f_balances f) then f1
        else if i \<ge> length (f_votes f) then f1
        else case nodeOf s (v_currentRoot (f_votes f ! i)) of
            None \<Rightarrow> f1
          | Some n \<Rightarrow> f\<lparr>f_store := onNode n (\<lambda>nd. nd\<lparr>n_balance :=
                (if n_balance nd < f_balances f ! i then 0 else n_balance nd - f_balances f ! i)\<rparr>) s\<rparr>)"

text \<open>\<^verbatim>\<open>updateJustifiedBalances\<close>.\<close>

definition countBalance :: "u64 \<Rightarrow> u64 \<times> u64 \<Rightarrow> u64 \<times> u64" where
  "countBalance val = (\<lambda>(committeeWeight, numActive).
     if val > 0 then (committeeWeight + val, numActive + 1) else (committeeWeight, numActive))"

definition updateJustifiedBalances :: "BeaconChainConfig \<Rightarrow> bytes32 \<Rightarrow> ForkChoice \<Rightarrow> (ForkChoice, unit) outcome" where
  "updateJustifiedBalances cfg root f =
     (case f_balancesByRoot f root of
        Inl e \<Rightarrow> (Inl e, f)
      | Inr balances \<Rightarrow>
          let (committeeWeight, numActive) = fold countBalance balances (0, 0)
          in (Inr (), f\<lparr>f_justifiedBalances := balances, f_numActiveValidators := numActive,
                f_store := (f_store f)\<lparr>s_committeeWeight := committeeWeight div SlotsPerEpoch cfg\<rparr>\<rparr>))"

text \<open>\<^verbatim>\<open>applyProposerBoostScore\<close>; an unknown root is logged only.\<close>

definition removePreviousBoost :: "Store \<Rightarrow> Store" where
  "removePreviousBoost s =
     (if s_previousProposerBoostRoot s = ZeroHash then s
      else case nodeOf s (s_previousProposerBoostRoot s) of
          None \<Rightarrow> s
        | Some n \<Rightarrow> onNode n (\<lambda>nd. nd\<lparr>n_balance := n_balance nd - s_previousProposerBoostScore s\<rparr>) s)"

definition applyProposerBoostScore :: "BeaconChainConfig \<Rightarrow> ForkChoice \<Rightarrow> ForkChoice" where
  "applyProposerBoostScore cfg f =
     (let s = removePreviousBoost (f_store f);
          score = (s_committeeWeight s * ProposerScoreBoost cfg) div 100;
          (proposerScore, s') =
            (if s_proposerBoostRoot s = ZeroHash then (0, s)
             else case nodeOf s (s_proposerBoostRoot s) of
                 None \<Rightarrow> (0, s)
               | Some n \<Rightarrow> (score, onNode n (\<lambda>nd. nd\<lparr>n_balance := n_balance nd + score\<rparr>) s))
      in f\<lparr>f_store := s'\<lparr>s_previousProposerBoostRoot := s_proposerBoostRoot s',
                         s_previousProposerBoostScore := proposerScore\<rparr>\<rparr>)"

section \<open>The head\<close>

definition rootWeightChanges :: "ctx \<Rightarrow> Store \<Rightarrow> (Store, unit) outcome" where
  "rootWeightChanges ctx s =
     (case s_treeRootNode s of
        None \<Rightarrow> (Inl Panic, s)
      | Some t \<Rightarrow> onHeap (applyWeightChanges (length (s_heap s)) ctx t) s)"

definition FC_Head :: "BeaconChainConfig \<Rightarrow> ctx \<Rightarrow> clock \<Rightarrow> ForkChoice \<Rightarrow> (ForkChoice, bytes32) outcome" where
  "FC_Head cfg ctx clk f =
     (let f1 = applyProposerBoostScore cfg (updateBalances f) in
      obind (onStore (rootWeightChanges ctx) f1) (\<lambda>_ f2.
      let jc = s_justifiedCheckpoint (f_store f2);
          fc = s_finalizedCheckpoint (f_store f2);
          currentEpoch = EpochsSinceGenesis cfg (clk 0) (s_genesisTime (f_store f2))
      in obind (onStore (rootBestDescendant ctx (cp_Epoch jc) (cp_Epoch fc) currentEpoch) f2) (\<lambda>_ f3.
         onStore (Store_head cfg ctx (clk 1)) f3)))"

section \<open>Blocks and checkpoints\<close>

definition updateCheckpoints :: "BeaconChainConfig \<Rightarrow> ctx \<Rightarrow> Checkpoint \<Rightarrow> Checkpoint \<Rightarrow> ForkChoice
    \<Rightarrow> (ForkChoice, unit) outcome" where
  "updateCheckpoints cfg ctx jc fc f =
     obind (if cp_Epoch jc > cp_Epoch (s_justifiedCheckpoint (f_store f))
            then updateJustifiedBalances cfg (cp_Root jc)
                   (f\<lparr>f_store := (f_store f)\<lparr>
                      s_prevJustifiedCheckpoint := s_justifiedCheckpoint (f_store f),
                      s_justifiedCheckpoint := jc\<rparr>\<rparr>)
            else (Inr (), f)) (\<lambda>_ f1.
     if cp_Epoch fc \<le> cp_Epoch (s_finalizedCheckpoint (f_store f1)) then (Inr (), f1)
     else onStore (Store_prune cfg ctx) (f1\<lparr>f_store := (f_store f1)\<lparr>s_finalizedCheckpoint := fc\<rparr>\<rparr>))"

definition InsertNode :: "BeaconChainConfig \<Rightarrow> ctx \<Rightarrow> clock \<Rightarrow> BeaconStateView \<Rightarrow> ROBlock \<Rightarrow> ForkChoice
    \<Rightarrow> (ForkChoice, unit) outcome" where
  "InsertNode cfg ctx clk st b f =
     (case (st_currentJustifiedCheckpoint st, st_finalizedCheckpoint st) of
        (Some jc, Some fc) \<Rightarrow>
          obind (onStore (Store_insert cfg ctx clk b (cp_Epoch jc) (cp_Epoch fc)) f) (\<lambda>node f1.
          let ((jc', fc'), s) = pullTips cfg (clk 4) st node jc fc (f_store f1) in
          case updateCheckpoints cfg ctx jc' fc' (f1\<lparr>f_store := s\<rparr>) of
            (Inl e, f2) \<Rightarrow>
              (Inl e, if goValue e then snd (onStore (removeNode ctx (Some node)) f2) else f2)
          | (Inr _, f2) \<Rightarrow> (Inr (), f2))
      | _ \<Rightarrow> (Inl ErrInvalidNilCheckpoint, f))"

text \<open>\<^verbatim>\<open>InsertChain\<close>; the block with number \<open>i\<close> of the chain reads the clock \<open>clks i\<close>.\<close>

primrec InsertChain :: "BeaconChainConfig \<Rightarrow> ctx \<Rightarrow> (nat \<Rightarrow> clock) \<Rightarrow> BlockAndCheckpoints list \<Rightarrow> ForkChoice
    \<Rightarrow> (ForkChoice, unit) outcome" where
  "InsertChain cfg ctx clks [] f = (Inr (), f)"
| "InsertChain cfg ctx clks (bcp # chain) f =
     obind (onStore (Store_insert cfg ctx (clks 0) (bc_Block bcp)
              (cp_Epoch (bc_JustifiedCheckpoint bcp)) (cp_Epoch (bc_FinalizedCheckpoint bcp))) f) (\<lambda>_ f1.
     obind (updateCheckpoints cfg ctx (bc_JustifiedCheckpoint bcp) (bc_FinalizedCheckpoint bcp) f1) (\<lambda>_ f2.
     InsertChain cfg ctx (clks \<circ> Suc) chain f2))"

text \<open>\<^verbatim>\<open>updateUnrealizedCheckpoints\<close>: the loop over the nodes of the map, and the method.\<close>

definition realizeNode :: "BeaconChainConfig \<Rightarrow> addr \<Rightarrow> ForkChoice \<Rightarrow> (ForkChoice, unit) outcome" where
  "realizeNode cfg n f =
     (let f1 = f\<lparr>f_store := onNode n (\<lambda>nd. nd\<lparr>n_justifiedEpoch := n_unrealizedJustifiedEpoch nd,
                 n_finalizedEpoch := n_unrealizedFinalizedEpoch nd\<rparr>) (f_store f)\<rparr>
      in obind (if n_justifiedEpoch (f_node f1 n) > cp_Epoch (s_justifiedCheckpoint (f_store f1))
                then updateJustifiedBalances cfg (cp_Root (s_unrealizedJustifiedCheckpoint (f_store f1)))
                       (f1\<lparr>f_store := (f_store f1)\<lparr>
                          s_prevJustifiedCheckpoint := s_justifiedCheckpoint (f_store f1),
                          s_justifiedCheckpoint := s_unrealizedJustifiedCheckpoint (f_store f1)\<rparr>\<rparr>)
                else (Inr (), f1)) (\<lambda>_ f2.
         (Inr (), if n_finalizedEpoch (f_node f2 n) > cp_Epoch (s_finalizedCheckpoint (f_store f2))
                  then f2\<lparr>f_store := (f_store f2)\<lparr>
                         s_finalizedCheckpoint := s_unrealizedFinalizedCheckpoint (f_store f2)\<rparr>\<rparr>
                  else f2)))"

primrec realizeLoop :: "BeaconChainConfig \<Rightarrow> addr list \<Rightarrow> ForkChoice \<Rightarrow> (ForkChoice, unit) outcome" where
  "realizeLoop cfg [] f = (Inr (), f)"
| "realizeLoop cfg (n # ns) f = obind (realizeNode cfg n f) (\<lambda>_ f'. realizeLoop cfg ns f')"

definition updateUnrealizedCheckpoints :: "BeaconChainConfig \<Rightarrow> ForkChoice \<Rightarrow> (ForkChoice, unit) outcome" where
  "updateUnrealizedCheckpoints cfg f = realizeLoop cfg (map snd (s_nodeByRoot (f_store f))) f"

definition NewSlot :: "BeaconChainConfig \<Rightarrow> ctx \<Rightarrow> Slot \<Rightarrow> ForkChoice \<Rightarrow> (ForkChoice, unit) outcome" where
  "NewSlot cfg ctx slot f =
     (let f1 = f\<lparr>f_store := (f_store f)\<lparr>s_proposerBoostRoot := 0\<rparr>\<rparr> in
      if \<not> IsEpochStart cfg slot then (Inr (), f1)
      else obind (updateUnrealizedCheckpoints cfg f1) (\<lambda>_ f2. onStore (Store_prune cfg ctx) f2))"

definition UpdateJustifiedCheckpoint :: "BeaconChainConfig \<Rightarrow> Checkpoint option \<Rightarrow> ForkChoice
    \<Rightarrow> (ForkChoice, unit) outcome" where
  "UpdateJustifiedCheckpoint cfg jc f =
     (case jc of
        None \<Rightarrow> (Inl ErrInvalidNilCheckpoint, f)
      | Some c \<Rightarrow> updateJustifiedBalances cfg (cp_Root c) (f\<lparr>f_store := (f_store f)\<lparr>
            s_prevJustifiedCheckpoint := s_justifiedCheckpoint (f_store f),
            s_justifiedCheckpoint := c\<rparr>\<rparr>))"

definition UpdateFinalizedCheckpoint :: "Checkpoint option \<Rightarrow> ForkChoice \<Rightarrow> (ForkChoice, unit) outcome" where
  "UpdateFinalizedCheckpoint fc f =
     (case fc of
        None \<Rightarrow> (Inl ErrInvalidNilCheckpoint, f)
      | Some c \<Rightarrow> (Inr (), f\<lparr>f_store := (f_store f)\<lparr>s_finalizedCheckpoint := c\<rparr>\<rparr>))"

section \<open>Optimistic status\<close>

definition IsOptimistic :: "ForkChoice \<Rightarrow> bytes32 \<Rightarrow> bool result" where
  "IsOptimistic f root =
     (if s_allTipsAreInvalid (f_store f) then Inr True
      else case f_nodeOf f root of None \<Rightarrow> Inl ErrNilNode | Some n \<Rightarrow> Inr (n_optimistic (f_node f n)))"

definition SetOptimisticToValid :: "ctx \<Rightarrow> bytes32 \<Rightarrow> ForkChoice \<Rightarrow> (ForkChoice, unit) outcome" where
  "SetOptimisticToValid ctx root f =
     (case f_nodeOf f root of
        None \<Rightarrow> (Inl ErrNilNode, f)
      | Some n \<Rightarrow> onStore (onHeap (setNodeAndParentValidated (Suc n) ctx n)) f)"

definition SetOptimisticToInvalid :: "ctx \<Rightarrow> bytes32 \<Rightarrow> bytes32 \<Rightarrow> bytes32 \<Rightarrow> ForkChoice
    \<Rightarrow> (ForkChoice, bytes32 list) outcome" where
  "SetOptimisticToInvalid ctx root parentRoot payloadHash f =
     onStore (setOptimisticToInvalid ctx root parentRoot payloadHash) f"

section \<open>Queries\<close>

definition HasNode :: "ForkChoice \<Rightarrow> bytes32 \<Rightarrow> bool" where
  "HasNode f root \<longleftrightarrow> f_nodeOf f root \<noteq> None"

text \<open>\<^verbatim>\<open>IsCanonical\<close>; with no head node it dereferences \<^verbatim>\<open>nil\<close>.\<close>

definition IsCanonical :: "ForkChoice \<Rightarrow> bytes32 \<Rightarrow> bool result" where
  "IsCanonical f root =
     (case f_nodeOf f root of
        None \<Rightarrow> Inr False
      | Some node \<Rightarrow>
          (case s_headNode (f_store f) of
             None \<Rightarrow> Inl Panic
           | Some headNode \<Rightarrow>
               (case n_bestDescendant (f_node f node) of
                  None \<Rightarrow>
                    (case n_bestDescendant (f_node f headNode) of
                       None \<Rightarrow> Inr (node = headNode)
                     | Some hb \<Rightarrow> Inr (node = hb))
                | Some d \<Rightarrow>
                    (case n_bestDescendant (f_node f headNode) of
                       None \<Rightarrow> Inr (d = headNode)
                     | Some hb \<Rightarrow> Inr (d = hb)))))"

primrec ancestorLoop :: "nat \<Rightarrow> ctx \<Rightarrow> heap \<Rightarrow> Slot \<Rightarrow> addr option \<Rightarrow> addr option result" where
  "ancestorLoop 0 ctx h slot n = Inl OutOfFuel"
| "ancestorLoop (Suc k) ctx h slot n =
     (case n of
        None \<Rightarrow> Inr None
      | Some a \<Rightarrow>
          if n_slot (h ! a) > slot
          then (if ctx (Some a) then Inl ErrCtx else ancestorLoop k ctx h slot (n_parent (h ! a)))
          else Inr (Some a))"

definition AncestorRoot :: "ctx \<Rightarrow> ForkChoice \<Rightarrow> bytes32 \<Rightarrow> Slot \<Rightarrow> bytes32 result" where
  "AncestorRoot ctx f root slot =
     (case f_nodeOf f root of
        None \<Rightarrow> Inl ErrNilNode
      | Some node \<Rightarrow>
          rbind (ancestorLoop (node + 2) ctx (s_heap (f_store f)) slot (Some node)) (\<lambda>n.
          case n of None \<Rightarrow> Inl ErrNilNode | Some a \<Rightarrow> Inr (n_root (f_node f a))))"

definition IsViableForCheckpoint :: "BeaconChainConfig \<Rightarrow> ForkChoice \<Rightarrow> Checkpoint \<Rightarrow> bool result" where
  "IsViableForCheckpoint cfg f cp =
     (case f_nodeOf f (cp_Root cp) of
        None \<Rightarrow> Inr False
      | Some a \<Rightarrow>
          let node = f_node f a in
          rbind (EpochStart cfg (cp_Epoch cp)) (\<lambda>epochStart.
          if n_slot node > epochStart then Inr False
          else if n_children node = [] then Inr True
          else if n_slot node = epochStart then Inr True
          else if ToEpoch cfg (n_slot node) \<ge> cp_Epoch cp then Inr False
          else Inr (list_ex (\<lambda>child. n_slot (f_node f child) > epochStart) (n_children node))))"

text \<open>
  \<^verbatim>\<open>CommonAncestor\<close>: the loop lets the node with the higher slot climb, the second one on
  equal slots.
\<close>

primrec commonLoop :: "nat \<Rightarrow> ctx \<Rightarrow> heap \<Rightarrow> addr \<Rightarrow> addr \<Rightarrow> addr result" where
  "commonLoop 0 ctx h n1 n2 = Inl OutOfFuel"
| "commonLoop (Suc k) ctx h n1 n2 =
     (if ctx (Some n1) then Inl ErrCtx
      else if n_slot (h ! n1) > n_slot (h ! n2)
      then (case n_parent (h ! n1) of
              None \<Rightarrow> Inl ErrUnknownCommonAncestor
            | Some p \<Rightarrow> if p = n2 then Inr p else commonLoop k ctx h p n2)
      else (case n_parent (h ! n2) of
              None \<Rightarrow> Inl ErrUnknownCommonAncestor
            | Some p \<Rightarrow> if n1 = p then Inr n1 else commonLoop k ctx h n1 p))"

definition CommonAncestor :: "ctx \<Rightarrow> ForkChoice \<Rightarrow> bytes32 \<Rightarrow> bytes32 \<Rightarrow> (bytes32 \<times> Slot) result" where
  "CommonAncestor ctx f r1 r2 =
     (case f_nodeOf f r1 of
        None \<Rightarrow> Inl ErrUnknownCommonAncestor
      | Some n1 \<Rightarrow>
          if r1 = r2 then Inr (r1, n_slot (f_node f n1))
          else case f_nodeOf f r2 of
              None \<Rightarrow> Inl ErrUnknownCommonAncestor
            | Some n2 \<Rightarrow>
                rbind (commonLoop (n1 + n2 + 1) ctx (s_heap (f_store f)) n1 n2) (\<lambda>a.
                Inr (n_root (f_node f a), n_slot (f_node f a))))"

text \<open>\<^verbatim>\<open>TargetRootForEpoch\<close> recurses on the root of an earlier block.\<close>

primrec targetRootLoop :: "nat \<Rightarrow> BeaconChainConfig \<Rightarrow> ForkChoice \<Rightarrow> bytes32 \<Rightarrow> Epoch \<Rightarrow> bytes32 result" where
  "targetRootLoop 0 cfg f root epoch = Inl OutOfFuel"
| "targetRootLoop (Suc k) cfg f root epoch =
     (case f_nodeOf f root of
        None \<Rightarrow> Inl ErrNilNode
      | Some n \<Rightarrow>
          let nodeEpoch = ToEpoch cfg (n_slot (f_node f n)) in
          if epoch > nodeEpoch then Inr (n_root (f_node f n))
          else case n_target (f_node f n) of
              None \<Rightarrow> Inr 0
            | Some target \<Rightarrow>
                let targetRoot = n_root (f_node f target) in
                if epoch = nodeEpoch then Inr targetRoot
                else case f_nodeOf f targetRoot of
                    None \<Rightarrow> Inl ErrNilNode
                  | Some t \<Rightarrow>
                      if nodeEpoch = ToEpoch cfg (n_slot (f_node f t))
                      then (case n_parent (f_node f t) of
                              None \<Rightarrow> Inl ErrNilNode
                            | Some p \<Rightarrow> targetRootLoop k cfg f (n_root (f_node f p)) epoch)
                      else targetRootLoop k cfg f (n_root (f_node f t)) epoch)"

definition TargetRootForEpoch :: "BeaconChainConfig \<Rightarrow> ForkChoice \<Rightarrow> bytes32 \<Rightarrow> Epoch \<Rightarrow> bytes32 result" where
  "TargetRootForEpoch cfg f root epoch =
     targetRootLoop (Suc (length (s_heap (f_store f)))) cfg f root epoch"

definition CachedHeadRoot :: "ForkChoice \<Rightarrow> bytes32" where
  "CachedHeadRoot f = (case s_headNode (f_store f) of None \<Rightarrow> 0 | Some n \<Rightarrow> n_root (f_node f n))"

definition DependentRoot :: "BeaconChainConfig \<Rightarrow> ForkChoice \<Rightarrow> Epoch \<Rightarrow> bytes32 result" where
  "DependentRoot cfg f epoch =
     rbind (TargetRootForEpoch cfg f (CachedHeadRoot f) epoch) (\<lambda>tr.
     if tr = 0 then Inr 0
     else case f_nodeOf f tr of
         None \<Rightarrow> Inl ErrNilNode
       | Some n \<Rightarrow>
           (case n_parent (f_node f n) of
              Some p \<Rightarrow> if ToEpoch cfg (n_slot (f_node f n)) = epoch then Inr (n_root (f_node f p))
                        else Inr (n_root (f_node f n))
            | None \<Rightarrow> Inr (n_root (f_node f n))))"

definition ParentRoot :: "ForkChoice \<Rightarrow> bytes32 \<Rightarrow> bytes32 result" where
  "ParentRoot f root =
     (case f_nodeOf f root of
        None \<Rightarrow> Inl ErrNilNode
      | Some n \<Rightarrow> Inr (case n_parent (f_node f n) of None \<Rightarrow> 0 | Some p \<Rightarrow> n_root (f_node f p)))"

definition FC_Weight :: "ForkChoice \<Rightarrow> bytes32 \<Rightarrow> u64 result" where
  "FC_Weight f root =
     (case f_nodeOf f root of None \<Rightarrow> Inl ErrNilNode | Some n \<Rightarrow> Inr (n_weight (f_node f n)))"

definition FC_Slot :: "ForkChoice \<Rightarrow> bytes32 \<Rightarrow> Slot result" where
  "FC_Slot f root =
     (case f_nodeOf f root of None \<Rightarrow> Inl ErrNilNode | Some n \<Rightarrow> Inr (n_slot (f_node f n)))"

text \<open>\<^verbatim>\<open>LastRoot\<close>; with no head node it dereferences \<^verbatim>\<open>nil\<close>.\<close>

definition LastRoot :: "BeaconChainConfig \<Rightarrow> ForkChoice \<Rightarrow> Epoch \<Rightarrow> bytes32 result" where
  "LastRoot cfg f epoch =
     (case s_headNode (f_store f) of
        None \<Rightarrow> Inl Panic
      | Some headNode \<Rightarrow>
          (case EpochEnd cfg epoch of
             Inl e \<Rightarrow> Inr 0
           | Inr epochEnd \<Rightarrow>
               if ToEpoch cfg (n_slot (f_node f headNode)) \<le> epoch then Inr (n_root (f_node f headNode))
               else rbind (ancestorLoop (headNode + 2) background (s_heap (f_store f)) epochEnd (Some headNode))
                 (\<lambda>n. Inr (case n of None \<Rightarrow> 0 | Some a \<Rightarrow> n_root (f_node f a)))))"

definition payloadHashAt :: "ForkChoice \<Rightarrow> bytes32 \<Rightarrow> bytes32" where
  "payloadHashAt f root = (case f_nodeOf f root of None \<Rightarrow> 0 | Some n \<Rightarrow> n_payloadHash (f_node f n))"

definition FinalizedPayloadBlockHash :: "ForkChoice \<Rightarrow> bytes32" where
  "FinalizedPayloadBlockHash f = payloadHashAt f (cp_Root (s_finalizedCheckpoint (f_store f)))"

definition JustifiedPayloadBlockHash :: "ForkChoice \<Rightarrow> bytes32" where
  "JustifiedPayloadBlockHash f = payloadHashAt f (cp_Root (s_justifiedCheckpoint (f_store f)))"

definition UnrealizedJustifiedPayloadBlockHash :: "ForkChoice \<Rightarrow> bytes32" where
  "UnrealizedJustifiedPayloadBlockHash f =
     payloadHashAt f (cp_Root (s_unrealizedJustifiedCheckpoint (f_store f)))"

definition HighestReceivedBlockRoot :: "ForkChoice \<Rightarrow> bytes32" where
  "HighestReceivedBlockRoot f =
     (case s_highestReceivedNode (f_store f) of None \<Rightarrow> 0 | Some n \<Rightarrow> n_root (f_node f n))"

definition HighestReceivedBlockSlot :: "ForkChoice \<Rightarrow> Slot" where
  "HighestReceivedBlockSlot f =
     (case s_highestReceivedNode (f_store f) of None \<Rightarrow> 0 | Some n \<Rightarrow> n_slot (f_node f n))"

definition HighestReceivedBlockDelay :: "BeaconChainConfig \<Rightarrow> ForkChoice \<Rightarrow> Slot" where
  "HighestReceivedBlockDelay cfg f =
     (case s_highestReceivedNode (f_store f) of
        None \<Rightarrow> 0
      | Some n \<Rightarrow>
          (case SinceSlotStart cfg (n_slot (f_node f n)) (s_genesisTime (f_store f)) (n_timestamp (f_node f n)) of
             Inl e \<Rightarrow> 0
           | Inr sss \<Rightarrow> of_int (sss sdiv Second) div SecondsPerSlot cfg))"

definition ReceivedBlocksLastEpoch :: "BeaconChainConfig \<Rightarrow> Time \<Rightarrow> ForkChoice \<Rightarrow> u64 result" where
  "ReceivedBlocksLastEpoch cfg now f =
     (let now' = CurrentSlot cfg now (s_genesisTime (f_store f)) in
      rbind (if now' > of_nat fieldparams_SlotsPerEpoch
             then Slot_SafeSub now' (of_nat fieldparams_SlotsPerEpoch) else Inr now') (\<lambda>lowerBound.
      Inr (fold (\<lambda>s count. if s \<noteq> 0 \<and> lowerBound \<le> s then count + 1 else count)
             (s_receivedBlocksLastEpoch (f_store f)) 0)))"

section \<open>Late block reorgs\<close>

definition orphanLateBlockProposingEarly :: Duration where
  "orphanLateBlockProposingEarly = 2"

text \<open>
  The conditions \<^verbatim>\<open>ShouldOverrideFCU\<close> and \<^verbatim>\<open>GetProposerHead\<close> share, in their order: \<open>None\<close> when
  one of them keeps the head, otherwise the parent that could be built on instead. The
  last of them, the weight of the parent, is tested by each method at its own place.
\<close>

definition headWeak :: "BeaconChainConfig \<Rightarrow> ForkChoice \<Rightarrow> Node \<Rightarrow> bool" where
  "headWeak cfg f head \<longleftrightarrow>
     \<not> n_weight head * 100 > s_committeeWeight (f_store f) * ReorgHeadWeightThreshold cfg"

definition parentStrong :: "BeaconChainConfig \<Rightarrow> ForkChoice \<Rightarrow> Node \<Rightarrow> bool" where
  "parentStrong cfg f parent \<longleftrightarrow>
     \<not> n_weight parent * 100 < s_committeeWeight (f_store f) * ReorgParentWeightThreshold cfg"

definition reorgParent :: "BeaconChainConfig \<Rightarrow> ForkChoice \<Rightarrow> Node \<Rightarrow> addr option" where
  "reorgParent cfg f head =
     (if (n_slot head + 1) mod SlotsPerEpoch cfg = 0 then None
      else case arrivedEarly cfg head (s_genesisTime (f_store f)) of
          Inl e \<Rightarrow> None
        | Inr early \<Rightarrow>
            if early then None
            else if ToEpoch cfg (n_slot head + 1) >
                cp_Epoch (s_finalizedCheckpoint (f_store f)) + ReorgMaxEpochsSinceFinalization cfg then None
            else case n_parent head of
                None \<Rightarrow> None
              | Some p \<Rightarrow>
                  if n_slot head > n_slot (f_node f p) + 1 then None
                  else if \<not> headWeak cfg f head then None
                  else Some p)"

definition ShouldOverrideFCU :: "BeaconChainConfig \<Rightarrow> clock \<Rightarrow> ForkChoice \<Rightarrow> bool" where
  "ShouldOverrideFCU cfg clk f =
     (case s_headNode (f_store f) of
        None \<Rightarrow> False
      | Some a \<Rightarrow>
          let head = f_node f a; genesis = s_genesisTime (f_store f) in
          if n_slot head \<noteq> CurrentSlot cfg (clk 0) genesis then False
          else case reorgParent cfg f head of
              None \<Rightarrow> False
            | Some p \<Rightarrow>
                (case SinceSlotStart cfg (n_slot head) genesis (clk 1) of
                   Inl e \<Rightarrow> True
                 | Inr sss \<Rightarrow>
                     if sss < ProcessAttestationsThreshold then True
                     else parentStrong cfg f (f_node f p)))"

definition GetProposerHead :: "BeaconChainConfig \<Rightarrow> clock \<Rightarrow> ForkChoice \<Rightarrow> bytes32" where
  "GetProposerHead cfg clk f =
     (case s_headNode (f_store f) of
        None \<Rightarrow> 0
      | Some a \<Rightarrow>
          let head = f_node f a; genesis = s_genesisTime (f_store f);
              currentSlot = CurrentSlot cfg (clk 0) genesis in
          if n_slot head + 1 \<noteq> currentSlot then n_root head
          else case reorgParent cfg f head of
              None \<Rightarrow> n_root head
            | Some p \<Rightarrow>
                if \<not> parentStrong cfg f (f_node f p) then n_root head
                else (case SinceSlotStart cfg currentSlot genesis (clk 1) of
                   Inl e \<Rightarrow> n_root head
                 | Inr sss \<Rightarrow>
                     if sss \<ge> orphanLateBlockProposingEarly * Second then n_root head
                     else n_root (f_node f p)))"

section \<open>Getters, setters and the dump\<close>

definition Tips :: "ForkChoice \<Rightarrow> (bytes32 \<times> Slot) list" where
  "Tips f = Store_tips (f_store f)"

definition ProposerBoost :: "ForkChoice \<Rightarrow> bytes32" where
  "ProposerBoost f = Store_proposerBoost (f_store f)"

definition PreviousJustifiedCheckpoint :: "ForkChoice \<Rightarrow> Checkpoint" where
  "PreviousJustifiedCheckpoint f = s_prevJustifiedCheckpoint (f_store f)"

definition JustifiedCheckpoint :: "ForkChoice \<Rightarrow> Checkpoint" where
  "JustifiedCheckpoint f = s_justifiedCheckpoint (f_store f)"

definition FinalizedCheckpoint :: "ForkChoice \<Rightarrow> Checkpoint" where
  "FinalizedCheckpoint f = s_finalizedCheckpoint (f_store f)"

definition SetGenesisTime :: "Time \<Rightarrow> ForkChoice \<Rightarrow> ForkChoice" where
  "SetGenesisTime genesis f =
     f\<lparr>f_store := (f_store f)\<lparr>s_genesisTime := Time_TruncateSecond genesis\<rparr>\<rparr>"

definition SetOriginRoot :: "bytes32 \<Rightarrow> ForkChoice \<Rightarrow> ForkChoice" where
  "SetOriginRoot root f = f\<lparr>f_store := (f_store f)\<lparr>s_originRoot := root\<rparr>\<rparr>"

definition SetBalancesByRooter :: "(bytes32 \<Rightarrow> u64 list result) \<Rightarrow> ForkChoice \<Rightarrow> ForkChoice" where
  "SetBalancesByRooter handler f = f\<lparr>f_balancesByRoot := handler\<rparr>"

record Dump =
  dump_JustifiedCheckpoint :: Checkpoint
  dump_UnrealizedJustifiedCheckpoint :: Checkpoint
  dump_FinalizedCheckpoint :: Checkpoint
  dump_UnrealizedFinalizedCheckpoint :: Checkpoint
  dump_ProposerBoostRoot :: bytes32
  dump_PreviousProposerBoostRoot :: bytes32
  dump_HeadRoot :: bytes32
  dump_ForkChoiceNodes :: "DumpNode list"

definition ForkChoiceDump :: "ctx \<Rightarrow> ForkChoice \<Rightarrow> Dump result" where
  "ForkChoiceDump ctx f =
     (let s = f_store f in
      rbind (case s_treeRootNode s of
               None \<Rightarrow> Inr []
             | Some t \<Rightarrow> nodeTreeDump (length (s_heap s)) ctx (s_heap s) t []) (\<lambda>nodes.
      Inr \<lparr>dump_JustifiedCheckpoint = s_justifiedCheckpoint s,
           dump_UnrealizedJustifiedCheckpoint = s_unrealizedJustifiedCheckpoint s,
           dump_FinalizedCheckpoint = s_finalizedCheckpoint s,
           dump_UnrealizedFinalizedCheckpoint = s_unrealizedFinalizedCheckpoint s,
           dump_ProposerBoostRoot = s_proposerBoostRoot s,
           dump_PreviousProposerBoostRoot = s_previousProposerBoostRoot s,
           dump_HeadRoot = (case s_headNode s of None \<Rightarrow> 0 | Some n \<Rightarrow> n_root (s_heap s ! n)),
           dump_ForkChoiceNodes = nodes\<rparr>))"

end
