(* ===== verification/FC_Inv.thy ===== *)
theory FC_Inv
  imports FC_ForkChoice
begin

text \<open>
  The invariant of the fork choice store, and how linking, unlinking and rewriting nodes act
  on the block tree.
\<close>

section \<open>The invariant\<close>

text \<open>
  \<open>store_ok\<close>: the heap is a forest; the map of nodes has each root once, each entry has the
  root it is filed under and hangs below the tree root; the tree root has no parent; the
  head and highest nodes exist.
\<close>

definition map_ok :: "Store \<Rightarrow> bool" where
  "map_ok s \<longleftrightarrow> distinct (map fst (s_nodeByRoot s))
     \<and> (\<forall>(r, a) \<in> set (s_nodeByRoot s). n_root (s_heap s ! a) = r
          \<and> (\<exists>t. s_treeRootNode s = Some t \<and> desc (s_heap s) t a))"

definition addr_in :: "Store \<Rightarrow> addr option \<Rightarrow> bool" where
  "addr_in s x \<longleftrightarrow> (\<forall>a. x = Some a \<longrightarrow> a < length (s_heap s))"

definition store_ok :: "Store \<Rightarrow> bool" where
  "store_ok s \<longleftrightarrow> tree_heap (s_heap s) \<and> best_in (s_heap s) \<and> map_ok s
     \<and> addr_in s (s_treeRootNode s) \<and> addr_in s (s_headNode s) \<and> addr_in s (s_highestReceivedNode s)
     \<and> (\<forall>t. s_treeRootNode s = Some t \<longrightarrow> n_parent (s_heap s ! t) = None \<and> s_highestReceivedNode s \<noteq> None)"

text \<open>\<open>complete\<close>: every node that hangs below the tree root is found by its root.\<close>

definition complete :: "Store \<Rightarrow> bool" where
  "complete s \<longleftrightarrow> (\<forall>t a. s_treeRootNode s = Some t \<longrightarrow> desc (s_heap s) t a \<longrightarrow>
     nodeOf s (n_root (s_heap s ! a)) = Some a)"

lemma store_okD:
  assumes "store_ok s"
  shows "tree_heap (s_heap s)" "best_in (s_heap s)" "map_ok s"
    "s_treeRootNode s = Some t \<Longrightarrow> t < length (s_heap s)"
    "s_treeRootNode s = Some t \<Longrightarrow> n_parent (s_heap s ! t) = None"
    "s_treeRootNode s = Some t \<Longrightarrow> s_highestReceivedNode s \<noteq> None"
    "s_headNode s = Some a \<Longrightarrow> a < length (s_heap s)"
    "s_highestReceivedNode s = Some a \<Longrightarrow> a < length (s_heap s)"
  using assms by (auto simp: store_ok_def addr_in_def)

lemma nodeOf_ok:
  assumes "map_ok s" and "nodeOf s r = Some a"
  obtains t where "s_treeRootNode s = Some t" "desc (s_heap s) t a" "n_root (s_heap s ! a) = r"
  using assms map_of_SomeD [OF assms(2)] by (auto simp: map_ok_def)

lemma nodeOf_range:
  assumes "store_ok s" and "nodeOf s r = Some a"
  shows "a < length (s_heap s)" "n_root (s_heap s ! a) = r"
  using assms nodeOf_ok [OF store_okD(3) [OF assms(1)] assms(2)] desc_range store_okD(1,4) [OF assms(1)]
  by metis+

lemma map_entry:
  "distinct (map fst xs) \<Longrightarrow> (r, a) \<in> set xs \<longleftrightarrow> map_of xs r = Some a"
  by (auto dest: map_of_SomeD)

text \<open>Blocks below the tree root of a complete store have different roots.\<close>

lemma complete_roots_inj:
  assumes "complete s" and "s_treeRootNode s = Some t"
    and "desc (s_heap s) t a" and "desc (s_heap s) t b" and "n_root (s_heap s ! a) = n_root (s_heap s ! b)"
  shows "a = b"
proof -
  have "nodeOf s (n_root (s_heap s ! a)) = Some a" "nodeOf s (n_root (s_heap s ! b)) = Some b"
    using assms(1-4) unfolding complete_def by metis+
  then show ?thesis unfolding assms(5) by (rule option.inject [THEN iffD1, OF trans [OF sym]])
qed

lemma complete_roots_differ:
  assumes "complete s" and "s_treeRootNode s = Some t"
  shows "roots_differ (s_heap s) t"
  unfolding roots_differ_def
proof (intro allI impI inj_onI)
  fix d x y assume d: "desc (s_heap s) t d" and x: "x \<in> set (n_children (s_heap s ! d))"
    and y: "y \<in> set (n_children (s_heap s ! d))" and eq: "n_root (s_heap s ! x) = n_root (s_heap s ! y)"
  show "x = y" by (rule complete_roots_inj [OF assms desc_step [OF d x] desc_step [OF d y] eq])
qed

section \<open>Rewriting fields the tree does not depend on\<close>

text \<open>A heap that keeps the links and the roots.\<close>

definition same_tree :: "heap \<Rightarrow> heap \<Rightarrow> bool" where
  "same_tree h h' \<longleftrightarrow> same_links h h' \<and> (\<forall>a < length h. n_root (h' ! a) = n_root (h ! a))"

lemma same_treeD:
  "same_tree h h' \<Longrightarrow> length h' = length h"
  "same_tree h h' \<Longrightarrow> same_links h h'"
  "same_tree h h' \<Longrightarrow> a < length h \<Longrightarrow> n_root (h' ! a) = n_root (h ! a)"
  by (auto simp: same_tree_def same_links_def)

lemma same_tree_refl [simp]: "same_tree h h"
  by (simp add: same_tree_def)

lemma same_tree_trans: "same_tree h1 h2 \<Longrightarrow> same_tree h2 h3 \<Longrightarrow> same_tree h1 h3"
  by (auto simp: same_tree_def same_links_def)

lemma same_tree_modify:
  assumes "\<And>n. n_children (f n) = n_children n" "\<And>n. n_parent (f n) = n_parent n"
    "\<And>n. n_root (f n) = n_root n"
  shows "same_tree h (modify a f h)"
  using assms same_links_modify [of f h a]
  by (cases "a < length h") (auto simp: same_tree_def nth_list_update list_update_beyond)

lemma best_in_modify:
  assumes "best_in h" and "\<And>n. n_bestDescendant (f n) = n_bestDescendant n"
  shows "best_in (modify a f h)"
  using assms
  by (cases "a < length h") (auto simp: best_in_def nth_list_update list_update_beyond split: if_splits)

lemma map_ok_cong:
  assumes "store_ok s" and "same_tree (s_heap s) (s_heap s')"
    and "s_nodeByRoot s' = s_nodeByRoot s" and "s_treeRootNode s' = s_treeRootNode s"
  shows "map_ok s'"
  unfolding map_ok_def assms(3,4)
proof (intro conjI ballI)
  show "distinct (map fst (s_nodeByRoot s))" using assms(1) by (simp add: store_ok_def map_ok_def)
  fix x assume x: "x \<in> set (s_nodeByRoot s)"
  obtain r a where [simp]: "x = (r, a)" by (cases x)
  have "distinct (map fst (s_nodeByRoot s))" using assms(1) by (simp add: store_ok_def map_ok_def)
  with x have "nodeOf s r = Some a" by simp
  then obtain t where t: "s_treeRootNode s = Some t" "desc (s_heap s) t a"
    and a: "a < length (s_heap s)" "n_root (s_heap s ! a) = r"
    using nodeOf_ok [OF store_okD(3) [OF assms(1)]] nodeOf_range [OF assms(1)] by metis
  have "desc (s_heap s') t a"
    using same_links_desc [OF t(2) same_treeD(2) [OF assms(2)]] store_okD(1,4) [OF assms(1)] t(1) by blast
  with t a show "case x of (r, a) \<Rightarrow> n_root (s_heap s' ! a) = r
      \<and> (\<exists>t. s_treeRootNode s = Some t \<and> desc (s_heap s') t a)"
    by (simp add: same_treeD(3) [OF assms(2)])
qed

lemma store_ok_cong:
  assumes "store_ok s" and "same_tree (s_heap s) (s_heap s')" and "best_in (s_heap s')"
    and "s_nodeByRoot s' = s_nodeByRoot s" and "s_treeRootNode s' = s_treeRootNode s"
    and "s_highestReceivedNode s' = s_highestReceivedNode s" and "addr_in s (s_headNode s')"
  shows "store_ok s'"
proof -
  have "n_parent (s_heap s' ! t) = n_parent (s_heap s ! t)" if "t < length (s_heap s)" for t
    using same_treeD(2) [OF assms(2)] that by (simp add: same_links_def)
  then show ?thesis
    using assms map_ok_cong [OF assms(1,2,4,5)] same_treeD(1,2) [OF assms(2)]
      same_links_tree_heap [OF same_treeD(2) [OF assms(2)]]
    by (simp add: store_ok_def addr_in_def)
qed

lemma complete_cong:
  assumes "store_ok s" and "complete s" and "same_tree (s_heap s) (s_heap s')"
    and "s_nodeByRoot s' = s_nodeByRoot s" and "s_treeRootNode s' = s_treeRootNode s"
  shows "complete s'"
  unfolding complete_def
proof (intro allI impI)
  fix t a assume t: "s_treeRootNode s' = Some t" and "desc (s_heap s') t a"
  have tr: "t < length (s_heap s)" using t assms(5) store_okD(4) [OF assms(1)] by simp
  then have d: "desc (s_heap s) t a"
    using \<open>desc (s_heap s') t a\<close>
    by (simp add: same_links_desc_iff [OF same_treeD(2) [OF assms(3)] store_okD(1) [OF assms(1)]])
  then have "a < length (s_heap s)" using desc_range store_okD(1) [OF assms(1)] tr by blast
  moreover have "nodeOf s (n_root (s_heap s ! a)) = Some a"
    using assms(2,5) t d unfolding complete_def by metis
  ultimately show "nodeOf s' (n_root (s_heap s' ! a)) = Some a"
    by (simp add: same_treeD(3) [OF assms(3)] assms(4))
qed

section \<open>Linking a new node\<close>

definition link :: "addr \<Rightarrow> Node \<Rightarrow> heap \<Rightarrow> heap" where
  "link p nd h = modify p (\<lambda>n. n\<lparr>n_children := n_children n @ [length h]\<rparr>) (h @ [nd])"

lemma length_link [simp]: "length (link p nd h) = Suc (length h)"
  by (simp add: link_def)

lemma link_nth:
  assumes "p < length h"
  shows "link p nd h ! length h = nd"
    and "a < length h \<Longrightarrow> link p nd h ! a =
      (if a = p then (h ! a)\<lparr>n_children := n_children (h ! a) @ [length h]\<rparr> else h ! a)"
  using assms by (auto simp: link_def nth_append nth_list_update)

lemma link_fields:
  assumes "p < length h" and "a < length h"
  shows "n_children (link p nd h ! a) = n_children (h ! a) @ (if a = p then [length h] else [])"
    "n_parent (link p nd h ! a) = n_parent (h ! a)" "n_root (link p nd h ! a) = n_root (h ! a)"
    "n_bestDescendant (link p nd h ! a) = n_bestDescendant (h ! a)"
  using assms by (auto simp: link_nth(2))

lemma append_tree_heap:
  assumes "tree_heap h" and "n_children nd = []" and "\<And>p. n_parent nd = Some p \<Longrightarrow> p < length h"
  shows "tree_heap (h @ [nd])"
proof (rule tree_heapI)
  fix a assume "a < length (h @ [nd])"
  then have a: "a < length h \<or> a = length h" by auto
  then show "distinct (n_children ((h @ [nd]) ! a))"
    using assms(2) tree_heapD(1) [OF assms(1)] by (auto simp: nth_append)
  show "a < c \<and> c < length (h @ [nd]) \<and> n_parent ((h @ [nd]) ! c) = Some a"
    if "c \<in> set (n_children ((h @ [nd]) ! a))" for c
    using a that assms(2) tree_heapD(2-4) [OF assms(1), of a c] by (auto simp: nth_append)
  show "p < a" if "n_parent ((h @ [nd]) ! a) = Some p" for p
    using a that assms(3) tree_heapD(5) [OF assms(1), of a p] by (auto simp: nth_append)
qed

lemma append_desc:
  assumes "tree_heap h" and "t < length h"
  shows "desc (h @ [nd]) t a \<longleftrightarrow> desc h t a"
proof
  assume "desc h t a"
  then show "desc (h @ [nd]) t a" using assms
  proof (induction rule: desc.induct)
    case (desc_step t b c)
    then have "b < length h" by (blast dest: desc_range)
    with desc_step show ?case by (auto intro: desc.desc_step simp: nth_append)
  qed simp
next
  assume "desc (h @ [nd]) t a"
  then show "desc h t a" using assms
  proof (induction rule: desc.induct)
    case (desc_step t b c)
    then have d: "desc h t b" by blast
    then have "b < length h" using desc_step.prems by (blast dest: desc_range)
    with desc_step.hyps(2) d show ?case by (auto intro: desc.desc_step simp: nth_append)
  qed simp
qed

lemma link_tree_heap:
  assumes t: "tree_heap h" and p: "p < length h" and nd: "n_children nd = []" "n_parent nd = Some p"
  shows "tree_heap (link p nd h)"
proof (rule tree_heapI)
  fix a assume "a < length (link p nd h)"
  then consider "a < length h" | "a = length h" by fastforce
  note a = this
  from a show "distinct (n_children (link p nd h ! a))"
    by cases (use nd tree_heapD(1,3) [OF t] p in \<open>auto simp: link_fields link_nth(1)\<close>)
  show "a < c \<and> c < length (link p nd h) \<and> n_parent (link p nd h ! c) = Some a"
    if "c \<in> set (n_children (link p nd h ! a))" for c
    using a
  proof cases
    case 1
    with that p consider "c \<in> set (n_children (h ! a))" | "c = length h" "a = p"
      by (auto simp: link_fields split: if_splits)
    then show ?thesis
      by cases (use tree_heapD(2-4) [OF t 1, of c] p nd in \<open>auto simp: link_fields link_nth(1)\<close>)
  next
    case 2
    with that p nd show ?thesis by (simp add: link_nth(1))
  qed
  show "q < a" if "n_parent (link p nd h ! a) = Some q" for q
    using a by cases (use that p nd tree_heapD(5) [OF t, of a q] in \<open>auto simp: link_fields link_nth(1)\<close>)
qed

lemma link_desc:
  assumes t: "tree_heap h" and p: "p < length h" and nd: "n_children nd = []" and r: "t < length h"
  shows "desc (link p nd h) t a \<longleftrightarrow> desc h t a \<or> a = length h \<and> desc h t p"
proof
  assume "desc (link p nd h) t a"
  then show "desc h t a \<or> a = length h \<and> desc h t p" using r
  proof (induction rule: desc.induct)
    case (desc_step t b c)
    then consider "desc h t b" "b < length h" | "b = length h"
      using desc_range [OF _ t desc_step.prems] by blast
    then show ?case
      by cases (use desc_step.hyps(2) p nd in
        \<open>auto simp: link_fields link_nth(1) split: if_splits intro: desc.desc_step\<close>)
  qed simp
next
  have keep: "desc (link p nd h) t b" if "desc h t b" for b
    using that r
  proof (induction rule: desc.induct)
    case (desc_step t b c)
    then have "b < length h" using t by (blast dest: desc_range)
    with desc_step p show ?case by (auto intro: desc.desc_step simp: link_fields)
  qed simp
  assume "desc h t a \<or> a = length h \<and> desc h t p"
  then show "desc (link p nd h) t a"
    using keep desc.desc_step [OF keep, of p "length h"] p by (auto simp: link_fields)
qed

lemma link_best_in:
  assumes "best_in h" and "p < length h" and "n_bestDescendant nd = None"
  shows "best_in (link p nd h)"
  using assms by (auto simp: best_in_def less_Suc_eq link_fields link_nth(1))

section \<open>Unlinking a node\<close>

lemma find_SomeD: "List.find P xs = Some x \<Longrightarrow> P x \<and> x \<in> set xs"
  by (auto simp: find_Some_iff)

lemma swapRemove_spec:
  assumes "distinct cs" and "n \<in> set cs"
  shows "set (swapRemove n cs) = set cs - {n} \<and> distinct (swapRemove n cs)"
proof (cases "length cs = 1")
  case True
  then obtain c where "cs = [c]" by (auto simp: length_Suc_conv)
  with assms show ?thesis by simp
next
  case False
  obtain i where i: "List.find (\<lambda>i. cs ! i = n) [0..<length cs] = Some i" "i < length cs" "cs ! i = n"
    using assms(2)
    by (cases "List.find (\<lambda>i. cs ! i = n) [0..<length cs]")
       (auto simp: in_set_conv_nth find_None_iff dest!: find_SomeD)
  obtain ys z where cs: "cs = ys @ [z]" using assms(2) by (cases cs rule: rev_cases) auto
  show ?thesis
  proof (cases "i = length cs - 1")
    case True
    with i(1) False have "swapRemove n cs = ys" by (simp add: cs)
    with True i(3) assms(1) show ?thesis by (simp add: cs)
  next
    case neq: False
    with i(2) have i': "i < length ys" by (simp add: cs)
    have "swapRemove n cs = ys[i := z]"
      using i(1) False neq i' by (simp add: cs list_update_append)
    moreover have "ys ! i = n" using i(3) i' by (simp add: cs nth_append)
    moreover have "set (ys[i := z]) = insert z (set ys - {ys ! i})" "distinct (ys[i := z])"
      using assms(1) i' by (auto simp: cs set_update_distinct distinct_list_update)
    ultimately show ?thesis using assms(1) i' nth_mem [OF i'] by (auto simp: cs)
  qed
qed

definition unlink :: "addr \<Rightarrow> addr \<Rightarrow> heap \<Rightarrow> heap" where
  "unlink p n h = modify p (\<lambda>nd. nd\<lparr>n_children := swapRemove n (n_children nd)\<rparr>) h"

lemma unlink_fields:
  assumes "p < length h" and "a < length h"
  shows "length (unlink p n h) = length h"
    "n_children (unlink p n h ! a) = (if a = p then swapRemove n (n_children (h ! a)) else n_children (h ! a))"
    "n_parent (unlink p n h ! a) = n_parent (h ! a)" "n_root (unlink p n h ! a) = n_root (h ! a)"
    "n_bestDescendant (unlink p n h ! a) = n_bestDescendant (h ! a)"
  using assms by (auto simp: unlink_def nth_list_update simp del: swapRemove.simps)

lemma unlink_children:
  assumes "tree_heap h" and "p < length h" and "n \<in> set (n_children (h ! p))" and "a < length h"
  shows "set (n_children (unlink p n h ! a)) = set (n_children (h ! a)) - {n}"
    and "distinct (n_children (unlink p n h ! a))"
proof -
  have "n \<notin> set (n_children (h ! a))" if "a \<noteq> p"
  proof
    assume "n \<in> set (n_children (h ! a))"
    with that tree_heapD(4) [OF assms(1,4)] tree_heapD(4) [OF assms(1,2,3)] show False by simp
  qed
  then show "set (n_children (unlink p n h ! a)) = set (n_children (h ! a)) - {n}"
    "distinct (n_children (unlink p n h ! a))"
    using swapRemove_spec [OF tree_heapD(1) [OF assms(1,2)] assms(3)] tree_heapD(1) [OF assms(1,4)] assms
    by (auto simp: unlink_fields simp del: swapRemove.simps)
qed

lemma unlink_tree_heap:
  assumes t: "tree_heap h" and p: "p < length h" and n: "n \<in> set (n_children (h ! p))"
  shows "tree_heap (unlink p n h)"
proof (rule tree_heapI)
  fix a assume "a < length (unlink p n h)"
  then have a: "a < length h" by (simp add: unlink_def)
  show "distinct (n_children (unlink p n h ! a))" using unlink_children(2) [OF t p n a] .
  show "a < c \<and> c < length (unlink p n h) \<and> n_parent (unlink p n h ! c) = Some a"
    if "c \<in> set (n_children (unlink p n h ! a))" for c
    using that tree_heapD(2-4) [OF t a, of c] unlink_children(1) [OF t p n a] p a
    by (auto simp: unlink_fields)
  show "q < a" if "n_parent (unlink p n h ! a) = Some q" for q
    using that tree_heapD(5) [OF t a] p a by (simp add: unlink_fields)
qed

text \<open>Unlinking a node takes away its subtree and nothing else.\<close>

lemma unlink_desc:
  assumes t: "tree_heap h" and p: "p < length h" and n: "n \<in> set (n_children (h ! p))"
    and r: "r < length h" "\<not> desc h n r"
  shows "desc (unlink p n h) r a \<longleftrightarrow> desc h r a \<and> \<not> desc h n a"
proof
  have n_len: "n < length h" using tree_heapD(3) [OF t p n] .
  assume "desc (unlink p n h) r a"
  then show "desc h r a \<and> \<not> desc h n a" using r
  proof (induction rule: desc.induct)
    case (desc_step r b c)
    then have b: "desc h r b" "\<not> desc h n b" by auto
    then have b_len: "b < length h" using desc_range t desc_step.prems by blast
    have c: "c \<in> set (n_children (h ! b))" "c \<noteq> n"
      using desc_step.hyps(2) unlink_children(1) [OF t p n b_len] by auto
    have "\<not> desc h n c"
    proof
      assume "desc h n c"
      then obtain q where "n_parent (h ! c) = Some q" "desc h n q"
        using desc_parent [OF _ t n_len c(2)] by metis
      with tree_heapD(4) [OF t b_len c(1)] b(2) show False by simp
    qed
    with b(1) c(1) show ?case by (blast intro: desc.desc_step)
  qed simp
next
  assume "desc h r a \<and> \<not> desc h n a"
  then have "desc h r a" "\<not> desc h n a" by auto
  then show "desc (unlink p n h) r a" using r
  proof (induction rule: desc.induct)
    case (desc_step r b c)
    have b: "\<not> desc h n b" using desc_step.hyps(2) desc_step.prems(1) desc.desc_step by blast
    have "b < length h" using desc_step.hyps(1) desc_range t desc_step.prems(2) by blast
    then have "c \<in> set (n_children (unlink p n h ! b))"
      using desc_step.hyps(2) desc_step.prems(1) unlink_children(1) [OF t p n] by auto
    moreover have "desc (unlink p n h) r b" using desc_step.IH [OF b desc_step.prems(2,3)] .
    ultimately show ?case by (rule desc.desc_step [rotated])
  qed simp
qed

lemma unlink_below:
  assumes t: "tree_heap h" and p: "p < length h" and n: "n \<in> set (n_children (h ! p))"
  shows "desc (unlink p n h) n a \<longleftrightarrow> desc h n a"
proof -
  have n': "n < length h" "p < n" using tree_heapD(2,3) [OF t p n] by auto
  define g where "g = unlink p n h"
  have same: "n_children (g ! b) = n_children (h ! b)" if "b \<noteq> p" for b
    using that by (simp add: g_def unlink_def)
  have "desc g n a \<longleftrightarrow> desc h n a"
  proof
    assume "desc g n a"
    then show "desc h n a" using n'
    proof (induction rule: desc.induct)
      case (desc_step n b c)
      then have "desc h n b" by blast
      moreover from this have "b \<noteq> p" using desc_range t desc_step.prems by fastforce
      ultimately show ?case using desc_step.hyps(2) by (auto simp: same intro: desc.desc_step)
    qed simp
  next
    assume "desc h n a"
    then show "desc g n a" using n'
    proof (induction rule: desc.induct)
      case (desc_step n b c)
      then have "b \<noteq> p" using desc_range t by fastforce
      with desc_step show ?case by (auto simp: same intro: desc.desc_step)
    qed simp
  qed
  then show ?thesis by (simp add: g_def)
qed

section \<open>Dropping a subtree from the maps\<close>

text \<open>The nodes of a subtree in the order the recursion leaves them.\<close>

primrec subtree :: "nat \<Rightarrow> heap \<Rightarrow> addr \<Rightarrow> addr list" where
  "subtree 0 h n = []"
| "subtree (Suc k) h n = concat (map (subtree k h) (n_children (h ! n))) @ [n]"

lemma subtree_desc:
  assumes t: "tree_heap h" and "n < length h" and "length h - n \<le> k"
  shows "set (subtree k h n) = {d. desc h n d} \<and> distinct (subtree k h n)"
  using assms(2-)
proof (induction k arbitrary: n)
  case (Suc k)
  let ?cs = "n_children (h ! n)"
  have kids: "c < length h" "n < c" if "c \<in> set ?cs" for c
    using that tree_heapD(2,3) [OF t Suc.prems(1)] by auto
  have IH: "set (subtree k h c) = {d. desc h c d}" "distinct (subtree k h c)" if "c \<in> set ?cs" for c
  proof -
    have "c < length h" "length h - c \<le> k" using kids [OF that] Suc.prems(2) by auto
    then show "set (subtree k h c) = {d. desc h c d}" "distinct (subtree k h c)"
      using Suc.IH by auto
  qed
  have all: "set (subtree (Suc k) h n) = {d. desc h n d}"
    using IH(1) by (auto simp: desc_unfold [of h n])
  have "n \<notin> set (subtree k h c)" if "c \<in> set ?cs" for c
    using IH(1) [OF that] kids [OF that] desc_range [OF _ t kids(1) [OF that], of n] by auto
  moreover have "distinct (concat (map (subtree k h) cs))"
    if "distinct cs" "set cs \<subseteq> set ?cs" for cs
    using that
  proof (induction cs)
    case (Cons c cs)
    have "set (subtree k h c) \<inter> set (subtree k h c') = {}" if "c' \<in> set cs" for c'
    proof -
      have "c \<in> set ?cs" "c' \<in> set ?cs" "c \<noteq> c'" using Cons.prems that by auto
      then show ?thesis
        using siblings_disjoint [OF t Suc.prems(1), of c c'] by (auto simp: IH(1))
    qed
    with Cons IH(2) show ?case by auto
  qed simp
  ultimately have "distinct (subtree (Suc k) h n)"
    using tree_heapD(1) [OF t Suc.prems(1)] by auto
  with all show ?case by blast
qed simp

lemma dropNode_simps [simp]:
  "s_heap (dropNode n s) = s_heap s" "s_treeRootNode (dropNode n s) = s_treeRootNode s"
  "s_headNode (dropNode n s) = s_headNode s"
  "s_highestReceivedNode (dropNode n s) = s_highestReceivedNode s"
  "s_nodeByRoot (dropNode n s) = AList.delete (n_root (s_heap s ! n)) (s_nodeByRoot s)"
  by (simp_all add: dropNode_def Let_def)

lemma fold_dropNode:
  "s_heap (fold dropNode ds s) = s_heap s" "s_treeRootNode (fold dropNode ds s) = s_treeRootNode s"
  "s_headNode (fold dropNode ds s) = s_headNode s"
  "s_highestReceivedNode (fold dropNode ds s) = s_highestReceivedNode s"
  "s_nodeByRoot (fold dropNode ds s) =
     filter (\<lambda>(r, a). r \<notin> (\<lambda>d. n_root (s_heap s ! d)) ` set ds) (s_nodeByRoot s)"
  by (induction ds arbitrary: s) (auto simp: AList.delete_eq intro!: filter_cong)

lemma removeNodeAndChildren_eq:
  assumes t: "tree_heap (s_heap s)" and "n < length (s_heap s)" and "length (s_heap s) - n \<le> k"
    and "s_heap s' = s_heap s"
  shows "removeNodeAndChildren k background n acc s' =
    (Inr (acc @ map (\<lambda>d. n_root (s_heap s ! d)) (subtree k (s_heap s) n)),
     fold dropNode (subtree k (s_heap s) n) s')"
  using assms(2-)
proof (induction k arbitrary: n acc s')
  case (Suc k)
  let ?h = "s_heap s" and ?cs = "n_children (s_heap s ! n)"
  have IH: "removeNodeAndChildren k background c acc s'' =
      (Inr (acc @ map (\<lambda>d. n_root (?h ! d)) (subtree k ?h c)), fold dropNode (subtree k ?h c) s'')"
    if "c \<in> set ?cs" "s_heap s'' = ?h" for c acc s''
  proof -
    have "n < c" "c < length ?h" using that(1) tree_heapD(2,3) [OF t Suc.prems(1)] by auto
    then show ?thesis using Suc.IH [of c] that(2) Suc.prems(2) by auto
  qed
  have "removeChildrenLoop (removeNodeAndChildren k background) background cs acc s'' =
      (Inr (acc @ map (\<lambda>d. n_root (?h ! d)) (concat (map (subtree k ?h) cs))),
       fold dropNode (concat (map (subtree k ?h) cs)) s'')"
    if "set cs \<subseteq> set ?cs" "s_heap s'' = ?h" for cs acc s''
    using that
  proof (induction cs arbitrary: acc s'')
    case (Cons c cs)
    then show ?case by (simp add: IH fold_dropNode(1))
  qed simp
  then show ?case by (simp add: Suc.prems fold_dropNode(1))
qed simp

end
