(* ===== verification/FC_Remove.thy ===== *)
theory FC_Remove
  imports FC_Inv
begin

text \<open>What removing a block does to the store, and that inserting one keeps the invariant.\<close>

lemma map_of_filter_key:
  "map_of (filter (\<lambda>(k, v). k \<notin> X) xs) r = (if r \<in> X then None else map_of xs r)"
  by (induction xs) auto

lemma distinct_fst_filter: "distinct (map fst xs) \<Longrightarrow> distinct (map fst (filter P xs))"
  by (induction xs) auto

lemma map_okI:
  assumes "distinct (map fst (s_nodeByRoot s))" and "s_treeRootNode s = Some t"
    and "\<And>r a. nodeOf s r = Some a \<Longrightarrow> n_root (s_heap s ! a) = r \<and> desc (s_heap s) t a"
  shows "map_ok s"
  unfolding map_ok_def
proof (intro conjI ballI)
  fix x assume "x \<in> set (s_nodeByRoot s)"
  moreover obtain r a where "x = (r, a)" by (cases x)
  ultimately show "case x of (r, a) \<Rightarrow> n_root (s_heap s ! a) = r
      \<and> (\<exists>t. s_treeRootNode s = Some t \<and> desc (s_heap s) t a)"
    using assms(1,2) assms(3) [of r a] by simp
qed (rule assms(1))

section \<open>Removing a block\<close>

lemma desc_root_neq:
  assumes "store_ok s" and "s_treeRootNode s = Some t" and "desc (s_heap s) t n"
    and "n_parent (s_heap s ! n) = Some p"
  shows "n \<in> set (n_children (s_heap s ! p))" "p < length (s_heap s)" "n < length (s_heap s)"
    "\<not> desc (s_heap s) n t" "desc (s_heap s) t p"
proof -
  have tr: "t < length (s_heap s)" "n_parent (s_heap s ! t) = None" and th: "tree_heap (s_heap s)"
    using store_okD [OF assms(1)] assms(2) by auto
  have "n \<noteq> t" using tr(2) assms(4) by auto
  with desc_parent [OF assms(3) th tr(1)] assms(4)
  show *: "n \<in> set (n_children (s_heap s ! p))" and "desc (s_heap s) t p" by auto
  then show "p < length (s_heap s)" using desc_range th tr(1) by blast
  show n: "n < length (s_heap s)" using assms(3) desc_range th tr(1) by blast
  show "\<not> desc (s_heap s) n t"
    using \<open>n \<noteq> t\<close> desc_range [OF assms(3) th tr(1)] desc_range [OF _ th n, of t] by auto
qed

text \<open>The state after \<^verbatim>\<open>removeNode\<close>, as a function of the removed addresses.\<close>

lemma removeNode_eq:
  assumes ok: "store_ok s" and t: "s_treeRootNode s = Some t" and n: "desc (s_heap s) t n"
    and p: "n_parent (s_heap s ! n) = Some p" and opt: "n_optimistic (s_heap s ! n)"
  defines "ds \<equiv> subtree (length (s_heap s)) (unlink p n (s_heap s)) n"
  shows "removeNode background (Some n) s = (Inr (map (\<lambda>d. n_root (s_heap s ! d)) ds),
      fold dropNode ds (s\<lparr>s_heap := unlink p n (s_heap s)\<rparr>))"
    and "set ds = {d. desc (s_heap s) n d}" and "distinct ds"
proof -
  let ?h = "s_heap s" and ?u = "unlink p n (s_heap s)"
  note f = desc_root_neq [OF ok t n p] and th = store_okD(1) [OF ok]
  have u: "tree_heap ?u" "length ?u = length ?h"
    using unlink_tree_heap [OF th f(2,1)] by (simp_all add: unlink_def)
  have ds: "set ds = {d. desc ?u n d} \<and> distinct ds"
    unfolding ds_def using subtree_desc [OF u(1), of n "length ?h"] f(3) u(2) by simp
  then show set_ds: "set ds = {d. desc ?h n d}" and "distinct ds"
    using unlink_below [OF th f(2,1)] by auto
  have "n_root (?u ! d) = n_root (?h ! d)" if "d \<in> set ds" for d
    using that set_ds desc_range [OF _ th f(3)] f(2) by (simp add: unlink_fields)
  then have roots: "map (\<lambda>d. n_root (?u ! d)) ds = map (\<lambda>d. n_root (?h ! d)) ds" by simp
  have "removeNodeAndChildren (length ?u) background n [] (s\<lparr>s_heap := ?u\<rparr>) =
      (Inr ([] @ map (\<lambda>d. n_root (?u ! d)) ds), fold dropNode ds (s\<lparr>s_heap := ?u\<rparr>))"
    using removeNodeAndChildren_eq [of "s\<lparr>s_heap := ?u\<rparr>" n "length ?u" "s\<lparr>s_heap := ?u\<rparr>" "[]"] u f(3)
    by (simp add: ds_def)
  then show "removeNode background (Some n) s = (Inr (map (\<lambda>d. n_root (?h ! d)) ds),
      fold dropNode ds (s\<lparr>s_heap := ?u\<rparr>))"
    unfolding removeNode_def using p opt roots
    by (simp add: unlink_def Let_def del: swapRemove.simps)
qed

text \<open>Detaching a subtree and forgetting its roots keeps the invariant.\<close>

abbreviation rootsBelow :: "heap \<Rightarrow> addr \<Rightarrow> bytes32 set" where
  "rootsBelow h n \<equiv> (\<lambda>d. n_root (h ! d)) ` {d. desc h n d}"

lemma root_not_below:
  assumes "complete s" and "s_treeRootNode s = Some t" and "desc (s_heap s) t n"
    and "desc (s_heap s) t a" and "\<not> desc (s_heap s) n a"
  shows "n_root (s_heap s ! a) \<notin> rootsBelow (s_heap s) n"
proof
  assume "n_root (s_heap s ! a) \<in> rootsBelow (s_heap s) n"
  then obtain d where d: "desc (s_heap s) n d" "n_root (s_heap s ! a) = n_root (s_heap s ! d)" by auto
  have "desc (s_heap s) t d" using desc_trans [OF d(1) assms(3)] .
  with complete_roots_inj [OF assms(1,2,4) _ d(2)] d(1) assms(5) show False by blast
qed

lemma detach_map_ok:
  assumes ok: "store_ok s" and t: "s_treeRootNode s = Some t"
    and n: "desc (s_heap s) t n" and p: "n_parent (s_heap s ! n) = Some p"
    and s': "s_heap s' = unlink p n (s_heap s)" "s_treeRootNode s' = Some t"
      "s_nodeByRoot s' = filter (\<lambda>(r, a). r \<notin> rootsBelow (s_heap s) n) (s_nodeByRoot s)"
  shows "map_ok s'"
  unfolding map_ok_def s'(3)
proof (intro conjI ballI)
  let ?h = "s_heap s"
  note f = desc_root_neq [OF ok t n p] and th = store_okD(1) [OF ok]
  have tr: "t < length ?h" using store_okD(4) [OF ok t] .
  show "distinct (map fst (filter (\<lambda>(r, a). r \<notin> rootsBelow ?h n) (s_nodeByRoot s)))"
    using store_okD(3) [OF ok] by (simp add: map_ok_def distinct_fst_filter)
  fix x assume "x \<in> set (filter (\<lambda>(r, a). r \<notin> rootsBelow ?h n) (s_nodeByRoot s))"
  then obtain r a where x: "x = (r, a)" "(r, a) \<in> set (s_nodeByRoot s)" "r \<notin> rootsBelow ?h n" by auto
  then have a: "n_root (?h ! a) = r" "desc ?h t a"
    using store_okD(3) [OF ok] t by (auto simp: map_ok_def)
  then have "\<not> desc ?h n a" using x(3) by auto
  moreover have "a < length ?h" using a(2) desc_range th tr by blast
  ultimately show "case x of (r, a) \<Rightarrow> n_root (s_heap s' ! a) = r
      \<and> (\<exists>t. s_treeRootNode s' = Some t \<and> desc (s_heap s') t a)"
    using a f(2) unlink_desc [OF th f(2,1) tr f(4)] by (simp add: x(1) s'(1,2) unlink_fields)
qed

lemma detach_ok:
  assumes ok: "store_ok s" and c: "complete s" and t: "s_treeRootNode s = Some t"
    and n: "desc (s_heap s) t n" and p: "n_parent (s_heap s ! n) = Some p"
    and s': "s_heap s' = unlink p n (s_heap s)" "s_treeRootNode s' = Some t"
      "s_nodeByRoot s' = filter (\<lambda>(r, a). r \<notin> rootsBelow (s_heap s) n) (s_nodeByRoot s)"
      "s_headNode s' = s_headNode s" "s_highestReceivedNode s' = s_highestReceivedNode s"
  shows "store_ok s'" and "complete s'"
proof -
  let ?h = "s_heap s" and ?u = "unlink p n (s_heap s)"
  note f = desc_root_neq [OF ok t n p] and th = store_okD(1) [OF ok]
  have tr: "t < length ?h" using store_okD(4) [OF ok t] .
  have len: "length ?u = length ?h" by (simp add: unlink_def)
  have "best_in ?u" using store_okD(2) [OF ok] f(2) by (auto simp: best_in_def len unlink_fields)
  then show "store_ok s'"
    using ok f(2) tr t unlink_tree_heap [OF th f(2,1)] detach_map_ok [OF ok t n p s'(1-3)]
    by (simp add: store_ok_def addr_in_def s'(1,2,4,5) len unlink_fields)
  show "complete s'"
    unfolding complete_def
  proof (intro allI impI)
    fix t' a assume "s_treeRootNode s' = Some t'" "desc (s_heap s') t' a"
    then have a: "desc ?h t a" "\<not> desc ?h n a"
      using unlink_desc [OF th f(2,1) tr f(4)] by (auto simp: s'(1,2))
    then have "a < length ?h" using desc_range th tr by blast
    then have "n_root (s_heap s' ! a) = n_root (?h ! a)" using f(2) by (simp add: s'(1) unlink_fields)
    moreover have "nodeOf s (n_root (?h ! a)) = Some a" using c t a(1) unfolding complete_def by blast
    ultimately show "nodeOf s' (n_root (s_heap s' ! a)) = Some a"
      using root_not_below [OF c t n a] by (simp add: s'(3) map_of_filter_key)
  qed
qed

theorem removeNode_spec:
  assumes ok: "store_ok s" and c: "complete s" and t: "s_treeRootNode s = Some t"
    and n: "desc (s_heap s) t n" and p: "n_parent (s_heap s ! n) = Some p"
    and opt: "n_optimistic (s_heap s ! n)"
  obtains roots s' where "removeNode background (Some n) s = (Inr roots, s')"
    and "set roots = rootsBelow (s_heap s) n" and "distinct roots"
    and "\<And>r. nodeOf s' r = (if r \<in> set roots then None else nodeOf s r)"
    and "s_heap s' = unlink p n (s_heap s)" and "s_treeRootNode s' = Some t"
    and "store_ok s'" and "complete s'"
proof -
  let ?h = "s_heap s" and ?u = "unlink p n (s_heap s)"
  note f = desc_root_neq [OF ok t n p] and th = store_okD(1) [OF ok]
  define ds where "ds = subtree (length ?h) ?u n"
  define roots where "roots = map (\<lambda>d. n_root (?h ! d)) ds"
  define s' where "s' = fold dropNode ds (s\<lparr>s_heap := ?u\<rparr>)"
  have run: "removeNode background (Some n) s = (Inr roots, s')"
    and set_ds: "set ds = {d. desc ?h n d}" and dist: "distinct ds"
    using removeNode_eq [OF ok t n p opt] by (simp_all add: ds_def roots_def s'_def)
  have set_roots: "set roots = rootsBelow ?h n" by (simp add: roots_def set_ds)
  have "inj_on (\<lambda>d. n_root (?h ! d)) (set ds)"
  proof (rule inj_onI)
    fix x y assume "x \<in> set ds" "y \<in> set ds" "n_root (?h ! x) = n_root (?h ! y)"
    then show "x = y"
      using complete_roots_inj [OF c t] desc_trans [OF _ n] set_ds by blast
  qed
  then have dist': "distinct roots" by (simp add: roots_def distinct_map dist)
  have "n_root (?u ! d) = n_root (?h ! d)" if "d < length ?h" for d
    using that f(2) by (simp add: unlink_fields)
  then have same: "(\<lambda>d. n_root (?u ! d)) ` set ds = rootsBelow ?h n"
    using desc_range [OF _ th f(3)] by (auto simp: set_ds)
  have s': "s_heap s' = ?u" "s_treeRootNode s' = Some t"
    "s_nodeByRoot s' = filter (\<lambda>(r, a). r \<notin> rootsBelow ?h n) (s_nodeByRoot s)"
    "s_headNode s' = s_headNode s" "s_highestReceivedNode s' = s_highestReceivedNode s"
    unfolding s'_def by (simp_all add: fold_dropNode t same)
  have lookup: "nodeOf s' r = (if r \<in> set roots then None else nodeOf s r)" for r
    unfolding s'(3) set_roots by (rule map_of_filter_key)
  show ?thesis
    using that [OF run set_roots dist' lookup s'(1,2) detach_ok [OF ok c t n p s']] .
qed

end
