(* ===== verification/FC_Insert.thy ===== *)
theory FC_Insert
  imports FC_Remove
begin

text \<open>That \<^verbatim>\<open>insert\<close> keeps the invariant on every path, errors included.\<close>

section \<open>Updating best descendants, whatever the context\<close>

lemma bestChildLoop_keeps:
  assumes rec: "\<And>c g. c \<in> set cs \<Longrightarrow> same_but_best h g \<Longrightarrow> best_in g \<Longrightarrow>
      same_but_best h (snd (rec c g)) \<and> best_in (snd (rec c g))"
    and "set cs \<subseteq> {..<length h}" and "same_but_best h g" and "best_in g" and "vars_in h vars"
  shows "same_but_best h (snd (bestChildLoop rec je ce cs vars g))
    \<and> best_in (snd (bestChildLoop rec je ce cs vars g))
    \<and> (\<forall>v. fst (bestChildLoop rec je ce cs vars g) = Inr v \<longrightarrow> vars_in h v)"
  using assms
proof (induction cs arbitrary: g vars)
  case (Cons c cs)
  obtain r g' where r: "rec c g = (r, g')" by (cases "rec c g")
  with Cons.prems(1) [of c g] Cons.prems(3,4) have g': "same_but_best h g'" "best_in g'" by auto
  show ?case
  proof (cases r)
    case (Inr u)
    have "vars_in h (considerChild je ce g' c vars)"
      using Cons.prems(2,5) by (intro considerChild_vars_in) auto
    with Cons.IH [OF Cons.prems(1) _ g'] Cons.prems(2) show ?thesis by (simp add: r Inr)
  qed (use g' in \<open>simp add: r\<close>)
qed simp

lemma updateBestDescendant_keeps:
  assumes t: "tree_heap h" and "same_but_best h g" and "best_in g" and "n < length h"
  shows "same_but_best h (snd (updateBestDescendant k ctx je fe ce n g))
    \<and> best_in (snd (updateBestDescendant k ctx je fe ce n g))"
  using assms(2-)
proof (induction k arbitrary: n g)
  case (Suc k)
  let ?cs = "n_children (g ! n)" and ?rec = "updateBestDescendant k ctx je fe ce"
  have cs: "set ?cs \<subseteq> {..<length h}"
    using tree_heapD(3) [OF t Suc.prems(3)] same_but_best_fields(4) [OF Suc.prems(1,3)] by auto
  obtain r g' where loop: "bestChildLoop ?rec je ce ?cs (None, 0, False) g = (r, g')"
    by (cases "bestChildLoop ?rec je ce ?cs (None, 0, False) g")
  have rec: "same_but_best h (snd (?rec c f)) \<and> best_in (snd (?rec c f))"
    if "c \<in> set ?cs" "same_but_best h f" "best_in f" for c f
    using Suc.IH [OF that(2,3)] that(1) cs by blast
  have "vars_in h (None, 0, False)" by (simp add: vars_in_def)
  from bestChildLoop_keeps [where cs = ?cs and rec = ?rec and h = h and je = je and ce = ce,
    OF rec cs Suc.prems(1,2) this]
  have g': "same_but_best h g'" "best_in g'" "\<And>v. r = Inr v \<Longrightarrow> vars_in h v"
    unfolding loop fst_conv snd_conv by blast+
  have "length g' = length h" using g'(1) by (simp add: same_but_best_def)
  then have "best_in (modify n (\<lambda>nd. nd\<lparr>n_bestDescendant := chosenDescendant g' v\<rparr>) g')" if "r = Inr v" for v
    using g' that chosen_in [of g' v] by (intro best_in_update) (auto simp: vars_in_def)
  then show ?case
    using Suc.prems(1,2) g'(1,2) loop
    by (cases r) (auto simp: same_but_best_update intro!: best_in_update)
qed simp

section \<open>Stores that hold the new node\<close>

text \<open>
  \<open>grown s s' b n p\<close>: the store \<open>s'\<close> is \<open>s\<close> with the block \<open>b\<close> added as the node \<open>n\<close>, a leaf with
  parent \<open>p\<close>.
\<close>

definition grown :: "Store \<Rightarrow> Store \<Rightarrow> ROBlock \<Rightarrow> addr \<Rightarrow> addr option \<Rightarrow> bool" where
  "grown s s' b n p \<longleftrightarrow> n = length (s_heap s) \<and> length (s_heap s') = Suc n
     \<and> (\<forall>r. nodeOf s' r = (if r = b_root b then Some n else nodeOf s r))
     \<and> n_root (s_heap s' ! n) = b_root b \<and> n_slot (s_heap s' ! n) = b_slot b
     \<and> n_parent (s_heap s' ! n) = p \<and> n_children (s_heap s' ! n) = [] \<and> n_optimistic (s_heap s' ! n)"

lemma grownD:
  assumes "grown s s' b n p"
  shows "n = length (s_heap s)" "length (s_heap s') = Suc n" "n_root (s_heap s' ! n) = b_root b"
    "n_slot (s_heap s' ! n) = b_slot b" "n_parent (s_heap s' ! n) = p" "n_children (s_heap s' ! n) = []"
    "n_optimistic (s_heap s' ! n)" "nodeOf s' r = (if r = b_root b then Some n else nodeOf s r)"
  using assms unfolding grown_def by blast+

lemma newNode_simps [simp]:
  "n_slot (newNode cfg now b ph p je fe h) = b_slot b" "n_root (newNode cfg now b ph p je fe h) = b_root b"
  "n_parent (newNode cfg now b ph p je fe h) = p" "n_children (newNode cfg now b ph p je fe h) = []"
  "n_bestDescendant (newNode cfg now b ph p je fe h) = None" "n_optimistic (newNode cfg now b ph p je fe h)"
  by (simp_all add: newNode_def)

text \<open>The state in which \<^verbatim>\<open>insert\<close> has linked the node below its parent.\<close>

lemma linked_ok:
  assumes ok: "store_ok s" and c: "complete s" and new: "nodeOf s (b_root b) = None"
    and p: "nodeOf s (b_parentRoot b) = Some p"
    and nd: "nd = newNode cfg now b ph (Some p) je fe (s_heap s)"
    and s': "s_heap s' = link p nd (s_heap s)"
      "s_nodeByRoot s' = AList.update (b_root b) (length (s_heap s)) (s_nodeByRoot s)"
      "s_treeRootNode s' = s_treeRootNode s" "s_headNode s' = s_headNode s"
      "s_highestReceivedNode s' = s_highestReceivedNode s"
  shows "store_ok s' \<and> complete s' \<and> grown s s' b (length (s_heap s)) (Some p)"
proof -
  let ?h = "s_heap s" and ?n = "length (s_heap s)"
  note th = store_okD(1) [OF ok] and pr = nodeOf_range [OF ok p]
  obtain t where t: "s_treeRootNode s = Some t" "desc ?h t p"
    using nodeOf_ok [OF store_okD(3) [OF ok] p] by metis
  note tr = store_okD(4) [OF ok t(1)]
  have lookup: "nodeOf s' r = (if r = b_root b then Some ?n else nodeOf s r)" for r
    by (simp add: s'(2) update_conv')
  have th': "tree_heap (s_heap s')" unfolding s'(1) by (rule link_tree_heap [OF th pr(1)]) (simp_all add: nd)
  have d: "desc (s_heap s') t a \<longleftrightarrow> desc ?h t a \<or> a = ?n" for a
    unfolding s'(1) using link_desc [OF th pr(1) _ tr, of nd a] t(2) by (auto simp: nd)
  have root: "n_root (s_heap s' ! a) = (if a = ?n then b_root b else n_root (?h ! a))" if "a \<le> ?n" for a
    using that pr(1) by (auto simp: s'(1) link_nth(1) link_fields nd)
  have old: "a < ?n" if "desc ?h t a" for a using that desc_range th tr by blast
  have comp: "complete s'"
    unfolding complete_def
  proof (intro allI impI)
    fix t' a assume "s_treeRootNode s' = Some t'" "desc (s_heap s') t' a"
    then consider "desc ?h t a" | "a = ?n" using d t(1) s'(3) by auto
    then show "nodeOf s' (n_root (s_heap s' ! a)) = Some a"
    proof cases
      case 1
      then have "nodeOf s (n_root (?h ! a)) = Some a" using c t(1) unfolding complete_def by blast
      with new old [OF 1] show ?thesis unfolding lookup by (auto simp: root)
    qed (simp add: lookup root)
  qed
  have "distinct (map fst (s_nodeByRoot s'))"
    using store_okD(3) [OF ok] by (simp add: s'(2) map_ok_def distinct_update)
  moreover have "n_root (s_heap s' ! a) = r \<and> desc (s_heap s') t a" if "nodeOf s' r = Some a" for r a
  proof (cases "r = b_root b")
    case True
    with that show ?thesis by (simp add: lookup root d)
  next
    case False
    with that have a: "nodeOf s r = Some a" by (simp add: lookup)
    then have "desc ?h t a" "n_root (?h ! a) = r"
      using nodeOf_ok [OF store_okD(3) [OF ok] a] t(1) by auto
    with old [OF this(1)] show ?thesis by (simp add: d root)
  qed
  ultimately have "map_ok s'" using map_okI [of s' t] t(1) s'(3) by (metis (no_types, lifting))
  moreover have "best_in (s_heap s')"
    unfolding s'(1) using store_okD(2) [OF ok] pr(1) by (intro link_best_in) (simp_all add: nd)
  ultimately have "store_ok s'"
    using ok th' t(1) tr pr(1) by (simp add: store_ok_def addr_in_def s' link_fields) auto
  with comp lookup pr(1) show ?thesis by (simp add: grown_def s'(1) link_nth(1) nd)
qed

text \<open>The first block of an empty store.\<close>

lemma first_ok:
  assumes ok: "store_ok s" and empty: "s_treeRootNode s = None"
    and nd: "nd = newNode cfg now b ph None je fe (s_heap s)"
    and s': "s_heap s' = s_heap s @ [nd]"
      "s_nodeByRoot s' = AList.update (b_root b) (length (s_heap s)) (s_nodeByRoot s)"
      "s_treeRootNode s' = Some (length (s_heap s))" "s_headNode s' = Some (length (s_heap s))"
      "s_highestReceivedNode s' = Some (length (s_heap s))"
  shows "store_ok s' \<and> complete s' \<and> grown s s' b (length (s_heap s)) None"
proof -
  let ?n = "length (s_heap s)"
  have nil: "s_nodeByRoot s = []"
    using store_okD(3) [OF ok] empty by (cases "s_nodeByRoot s") (auto simp: map_ok_def)
  have lookup: "nodeOf s' r = (if r = b_root b then Some ?n else None)" for r
    by (simp add: s'(2) nil)
  have nth: "s_heap s' ! ?n = nd" by (simp add: s'(1))
  have d: "desc (s_heap s') ?n a \<longleftrightarrow> a = ?n" for a
    by (subst desc_unfold) (simp add: nth nd)
  have "map_ok s'"
    by (rule map_okI [OF _ s'(3)]) (auto simp: lookup nth nd d s'(2) nil split: if_splits)
  moreover have "best_in (s_heap s')"
    using store_okD(2) [OF ok] by (auto simp: best_in_def s'(1) nth_append nd less_Suc_eq)
  moreover have "tree_heap (s_heap s')"
    unfolding s'(1) by (rule append_tree_heap [OF store_okD(1) [OF ok]]) (simp_all add: nd)
  ultimately have "store_ok s'" by (simp add: store_ok_def addr_in_def s'(3-5) nth nd) (simp add: s'(1))
  moreover have "complete s'" by (auto simp: complete_def s'(3) d lookup nth nd)
  moreover have "grown s s' b ?n None" unfolding grown_def lookup nth by (simp add: s'(1) nd nil)
  ultimately show ?thesis by blast
qed

text \<open>A rejected block leaves a node nothing refers to.\<close>

lemma rejected_ok:
  assumes ok: "store_ok s" and c: "complete s"
    and s': "s_heap s' = s_heap s @ [nd]" "n_children nd = []" "n_parent nd = None" "n_bestDescendant nd = None"
      "s_nodeByRoot s' = s_nodeByRoot s" "s_treeRootNode s' = s_treeRootNode s"
      "s_headNode s' = s_headNode s" "s_highestReceivedNode s' = s_highestReceivedNode s"
  shows "store_ok s' \<and> complete s'"
proof -
  let ?h = "s_heap s"
  have d: "desc (s_heap s') t a \<longleftrightarrow> desc ?h t a" if "s_treeRootNode s = Some t" for t a
    unfolding s'(1) using append_desc [OF store_okD(1,4) [OF ok]] that by blast
  have nth: "s_heap s' ! a = ?h ! a" if "a < length ?h" for a
    using that by (simp add: s'(1) nth_append)
  have below: "a < length ?h" if "s_treeRootNode s = Some t" "desc ?h t a" for t a
    using that desc_range store_okD(1,4) [OF ok] by blast
  have "map_ok s'"
  proof (cases "s_treeRootNode s")
    case None
    with store_okD(3) [OF ok] show ?thesis by (auto simp: map_ok_def s'(5,6))
  next
    case (Some t)
    have "n_root (s_heap s' ! a) = r \<and> desc (s_heap s') t a" if "nodeOf s' r = Some a" for r a
    proof -
      have a: "nodeOf s r = Some a" using that by (simp add: s'(5))
      then have "desc ?h t a" "n_root (?h ! a) = r"
        using nodeOf_ok [OF store_okD(3) [OF ok] a] Some by auto
      then show ?thesis using d [OF Some] nth below [OF Some] by simp
    qed
    moreover have "distinct (map fst (s_nodeByRoot s'))"
      using store_okD(3) [OF ok] by (simp add: s'(5) map_ok_def)
    ultimately show ?thesis using map_okI [of s' t] Some s'(6) by (metis (no_types, lifting))
  qed
  moreover have "best_in (s_heap s')"
    using store_okD(2) [OF ok] s'(4) by (auto simp: best_in_def s'(1) nth_append less_Suc_eq)
  moreover have "tree_heap (s_heap s')"
    unfolding s'(1) using append_tree_heap [OF store_okD(1) [OF ok] s'(2)] s'(3) by simp
  ultimately have "store_ok s'"
    using ok by (auto simp: store_ok_def addr_in_def s'(6-8) nth) (auto simp: s'(1))
  moreover have "complete s'"
    unfolding complete_def
  proof (intro allI impI)
    fix t a assume t: "s_treeRootNode s' = Some t" and "desc (s_heap s') t a"
    then have t': "s_treeRootNode s = Some t" and a: "desc ?h t a" using d s'(6) by auto
    then have "nodeOf s (n_root (?h ! a)) = Some a" using c unfolding complete_def by blast
    then show "nodeOf s' (n_root (s_heap s' ! a)) = Some a"
      using nth below [OF t' a] by (simp add: s'(5))
  qed
  ultimately show ?thesis by blast
qed

section \<open>The rest of the method\<close>

lemma grown_cong:
  assumes "grown s s1 b n p" and "same_but_best (s_heap s1) (s_heap s2)" and "s_nodeByRoot s2 = s_nodeByRoot s1"
  shows "grown s s2 b n p"
proof -
  have n: "n < length (s_heap s1)" using assms(1) by (simp add: grown_def)
  then have "(s_heap s2 ! n)\<lparr>n_bestDescendant := None\<rparr> = (s_heap s1 ! n)\<lparr>n_bestDescendant := None\<rparr>"
    using assms(2) by (simp add: same_but_best_def)
  then have "n_slot (s_heap s2 ! n) = n_slot (s_heap s1 ! n)"
    "n_optimistic (s_heap s2 ! n) = n_optimistic (s_heap s1 ! n)"
    by (cases "s_heap s2 ! n"; cases "s_heap s1 ! n"; simp)+
  moreover have "length (s_heap s2) = length (s_heap s1)" using assms(2) by (simp add: same_but_best_def)
  ultimately show ?thesis
    unfolding grown_def using grownD [OF assms(1)] same_but_best_fields [OF assms(2) n] assms(3) by metis
qed

lemma same_but_best_tree: "same_but_best h h' \<Longrightarrow> same_tree h h'"
  by (simp add: same_tree_def same_but_best_links same_but_best_fields)

lemma insertReceived_cases:
  obtains x y where "snd (insertReceived cfg now slot n s) =
      s\<lparr>s_receivedBlocksLastEpoch := x, s_highestReceivedNode := y\<rparr>"
    and "y = s_highestReceivedNode s \<or> y = Some n"
proof -
  let ?P = "\<lambda>x y. snd (insertReceived cfg now slot n s) =
      s\<lparr>s_receivedBlocksLastEpoch := x, s_highestReceivedNode := y\<rparr>
      \<and> (y = s_highestReceivedNode s \<or> y = Some n)"
  have "?P (s_receivedBlocksLastEpoch (snd (insertReceived cfg now slot n s)))
      (s_highestReceivedNode (snd (insertReceived cfg now slot n s)))"
    by (auto simp: insertReceived_def Let_def split: option.split)
  then show ?thesis using that by blast
qed

lemma insertReceived_fst: "fst (insertReceived cfg now slot n s) = Inr m \<Longrightarrow> m = n"
  by (auto simp: insertReceived_def Let_def split: option.splits if_splits)

lemma insertReceived_ok:
  assumes "store_ok s" and "complete s" and "grown s0 s b n p"
  shows "store_ok (snd (insertReceived cfg now slot n s)) \<and> complete (snd (insertReceived cfg now slot n s))
    \<and> grown s0 (snd (insertReceived cfg now slot n s)) b n p"
proof -
  obtain x y where r: "snd (insertReceived cfg now slot n s) =
      s\<lparr>s_receivedBlocksLastEpoch := x, s_highestReceivedNode := y\<rparr>"
    "y = s_highestReceivedNode s \<or> y = Some n" using insertReceived_cases by metis
  have n: "n < length (s_heap s)" using assms(3) by (simp add: grown_def)
  have m: "map_ok (s\<lparr>s_receivedBlocksLastEpoch := x, s_highestReceivedNode := y\<rparr>)"
    using store_okD(3) [OF assms(1)] by (simp add: map_ok_def)
  then have "store_ok (s\<lparr>s_receivedBlocksLastEpoch := x, s_highestReceivedNode := y\<rparr>)"
    using assms(1) r(2) n by (auto simp: store_ok_def addr_in_def)
  moreover have "complete (s\<lparr>s_receivedBlocksLastEpoch := x, s_highestReceivedNode := y\<rparr>)"
    using assms(2) by (simp add: complete_def)
  moreover have "grown s0 (s\<lparr>s_receivedBlocksLastEpoch := x, s_highestReceivedNode := y\<rparr>) b n p"
    by (rule grown_cong [OF assms(3)]) simp_all
  ultimately show ?thesis unfolding r(1) by blast
qed

lemma removeNode_linked:
  "n_parent (s_heap s ! n) = Some p \<Longrightarrow> removeNode ctx (Some n) s =
     (if n_optimistic (s_heap s ! n)
      then removeNodeAndChildren (length (s_heap s)) ctx n [] (s\<lparr>s_heap := unlink p n (s_heap s)\<rparr>)
      else (Inl ErrInvalidOptimisticStatus, s))"
  by (simp add: removeNode_def unlink_def Let_def del: swapRemove.simps)

lemma removeNode_leaf:
  assumes "store_ok s" and "s_treeRootNode s = Some t" and "desc (s_heap s) t n"
    and "n_parent (s_heap s ! n) = Some p" and "n_children (s_heap s ! n) = []"
  shows "removeNode ctx (Some n) s = removeNode background (Some n) s"
proof -
  note f = desc_root_neq [OF assms(1-4)]
  have "p < n" using tree_heapD(2) [OF store_okD(1) [OF assms(1)] f(2,1)] .
  then have "n_children (unlink p n (s_heap s) ! n) = []" using assms(5) by (simp add: unlink_def)
  moreover obtain m where "length (s_heap s) = Suc m" using f(3) by (cases "length (s_heap s)") auto
  ultimately show ?thesis by (simp add: removeNode_linked [OF assms(4)])
qed

text \<open>Undoing the insertion.\<close>

lemma undo_ok:
  assumes "store_ok s" and "complete s" and "grown s0 s b n (Some p)" and "nodeOf s0 (b_root b) = None"
  shows "store_ok (snd (removeNode ctx (Some n) s)) \<and> complete (snd (removeNode ctx (Some n) s))
    \<and> (\<forall>r. nodeOf (snd (removeNode ctx (Some n) s)) r = nodeOf s0 r)"
proof -
  have g: "nodeOf s (b_root b) = Some n" "n_parent (s_heap s ! n) = Some p" "n_optimistic (s_heap s ! n)"
    "n_children (s_heap s ! n) = []" "n_root (s_heap s ! n) = b_root b"
    and look: "\<And>r. nodeOf s r = (if r = b_root b then Some n else nodeOf s0 r)"
    using grownD [OF assms(3)] by simp_all
  obtain t where t: "s_treeRootNode s = Some t" "desc (s_heap s) t n"
    using nodeOf_ok [OF store_okD(3) [OF assms(1)] g(1)] by metis
  have "{d. desc (s_heap s) n d} = {n}" by (auto simp: desc_unfold [of _ n] g(4))
  then have "rootsBelow (s_heap s) n = {b_root b}" by (simp add: g(5))
  moreover obtain roots s' where "removeNode background (Some n) s = (Inr roots, s')"
    "set roots = rootsBelow (s_heap s) n" "store_ok s'" "complete s'"
    "\<And>r. nodeOf s' r = (if r \<in> set roots then None else nodeOf s r)"
    using removeNode_spec [OF assms(1,2) t g(2,3)] by metis
  ultimately show ?thesis
    using removeNode_leaf [OF assms(1) t g(2,4), of ctx] look assms(4) by simp
qed

lemma rootBestDescendant_ok:
  assumes ok: "store_ok s" and c: "complete s" and g: "grown s0 s b n p"
  shows "store_ok (snd (rootBestDescendant ctx je fe ce s)) \<and> complete (snd (rootBestDescendant ctx je fe ce s))
    \<and> grown s0 (snd (rootBestDescendant ctx je fe ce s)) b n p"
proof (cases "s_treeRootNode s")
  case None
  with assms show ?thesis by (simp add: rootBestDescendant_def)
next
  case (Some t)
  obtain r h' where run: "updateBestDescendant (length (s_heap s)) ctx je fe ce t (s_heap s) = (r, h')"
    by (cases "updateBestDescendant (length (s_heap s)) ctx je fe ce t (s_heap s)")
  have h': "same_but_best (s_heap s) h'" "best_in h'"
    using updateBestDescendant_keeps [OF store_okD(1) [OF ok] same_but_best_refl store_okD(2) [OF ok]
        store_okD(4) [OF ok Some], of "length (s_heap s)" ctx je fe ce] run by auto
  have "snd (rootBestDescendant ctx je fe ce s) = s\<lparr>s_heap := h'\<rparr>"
    by (simp add: rootBestDescendant_def Some onHeap_def run)
  moreover have "store_ok (s\<lparr>s_heap := h'\<rparr>)" "complete (s\<lparr>s_heap := h'\<rparr>)"
    using store_ok_cong [OF ok, of "s\<lparr>s_heap := h'\<rparr>"] complete_cong [OF ok c, of "s\<lparr>s_heap := h'\<rparr>"]
      same_but_best_tree [OF h'(1)] h'(2) ok by (simp_all add: store_ok_def)
  moreover have "grown s0 (s\<lparr>s_heap := h'\<rparr>) b n p" by (rule grown_cong [OF g]) (simp_all add: h'(1))
  ultimately show ?thesis by simp
qed

lemma insertLinked_ok:
  assumes ok: "store_ok s" and c: "complete s" and g: "grown s0 s b n (Some p)"
    and new: "nodeOf s0 (b_root b) = None"
  shows "store_ok (snd (insertLinked cfg ctx clk b n s)) \<and> complete (snd (insertLinked cfg ctx clk b n s))
    \<and> (\<forall>m. fst (insertLinked cfg ctx clk b n s) = Inr m \<longrightarrow>
         m = n \<and> grown s0 (snd (insertLinked cfg ctx clk b n s)) b n (Some p))"
proof -
  let ?genesis = "s_genesisTime s"
  let ?slot = "CurrentSlot cfg (clk 2) ?genesis"
  show ?thesis
  proof (cases "Time_Before (clk 1) ?genesis \<or> (\<exists>e. SinceSlotStart cfg ?slot ?genesis (clk 1) = Inl e)")
    case True
    then have "snd (insertLinked cfg ctx clk b n s) = s" "\<And>m. fst (insertLinked cfg ctx clk b n s) = Inr m \<Longrightarrow> m = n"
      by (auto simp: insertLinked_def Let_def split: if_splits)
    with ok c g show ?thesis by simp
  next
    case False
    then obtain sss where sss: "SinceSlotStart cfg ?slot ?genesis (clk 1) = Inr sss"
      by (cases "SinceSlotStart cfg ?slot ?genesis (clk 1)") auto
    define s1 where "s1 = (if ?slot = b_slot b \<and> sss < boostThreshold cfg \<and> s_proposerBoostRoot s = 0
      then s\<lparr>s_proposerBoostRoot := b_root b\<rparr> else s)"
    have s1: "s_heap s1 = s_heap s" "s_nodeByRoot s1 = s_nodeByRoot s" "s_treeRootNode s1 = s_treeRootNode s"
      "s_headNode s1 = s_headNode s" "s_highestReceivedNode s1 = s_highestReceivedNode s"
      by (simp_all add: s1_def)
    have ok1: "store_ok s1" "complete s1" "grown s0 s1 b n (Some p)"
      using store_ok_cong [OF ok, of s1] complete_cong [OF ok c, of s1] grown_cong [OF g, of s1] s1
        ok by (simp_all add: store_ok_def)
    obtain r s2 where run: "rootBestDescendant ctx (cp_Epoch (s_justifiedCheckpoint s1))
        (cp_Epoch (s_finalizedCheckpoint s1)) (ToEpoch cfg ?slot) s1 = (r, s2)"
      by (meson surj_pair)
    have ok2: "store_ok s2" "complete s2" "grown s0 s2 b n (Some p)"
      using rootBestDescendant_ok [OF ok1] run by (metis snd_conv)+
    have "insertLinked cfg ctx clk b n s = (case r of
        Inl e \<Rightarrow> (Inl e, if goValue e then snd (removeNode ctx (Some n) s2) else s2)
      | Inr _ \<Rightarrow> insertReceived cfg (clk 3) (b_slot b) n s2)"
      using False unfolding insertLinked_def Let_def sss sum.case s1_def [symmetric] run by simp
    then show ?thesis
      using ok2 undo_ok [OF ok2 new, of ctx] insertReceived_ok [OF ok2, of cfg "clk 3" "b_slot b"]
      by (cases r) (simp_all add: insertReceived_fst)
  qed
qed

theorem Store_insert_ok:
  assumes ok: "store_ok s" and c: "complete s"
  shows "store_ok (snd (Store_insert cfg ctx clk b je fe s)) \<and> complete (snd (Store_insert cfg ctx clk b je fe s))
    \<and> (\<forall>n. fst (Store_insert cfg ctx clk b je fe s) = Inr n \<longrightarrow>
         nodeOf s (b_root b) = Some n \<and> snd (Store_insert cfg ctx clk b je fe s) = s
         \<or> nodeOf s (b_root b) = None
           \<and> grown s (snd (Store_insert cfg ctx clk b je fe s)) b n (nodeOf s (b_parentRoot b)))"
proof (cases "(\<exists>e. blockPayloadHash b = Inl e) \<or> nodeOf s (b_root b) \<noteq> None")
  case True
  then have "snd (Store_insert cfg ctx clk b je fe s) = s"
    "\<And>n. fst (Store_insert cfg ctx clk b je fe s) = Inr n \<Longrightarrow> nodeOf s (b_root b) = Some n"
    by (auto simp: Store_insert_def split: sum.splits)
  with assms show ?thesis by simp
next
  case False
  then obtain ph where ph: "blockPayloadHash b = Inr ph" and new: "nodeOf s (b_root b) = None"
    by (cases "blockPayloadHash b") auto
  let ?n = "length (s_heap s)" and ?p = "nodeOf s (b_parentRoot b)"
  let ?nd = "newNode cfg (clk 0) b ph ?p je fe (s_heap s)"
  have key: "b_root b \<notin> fst ` set (s_nodeByRoot s)" using new by (simp add: map_of_eq_None_iff)
  consider (link) p where "?p = Some p" | (first) "?p = None" "s_treeRootNode s = None"
    | (reject) "?p = None" "s_treeRootNode s \<noteq> None" by auto
  then show ?thesis
  proof cases
    case link
    define s1 where "s1 = s\<lparr>s_nodeByPayload := AList.update ph ?n (s_nodeByPayload s),
        s_nodeByRoot := AList.update (b_root b) ?n (s_nodeByRoot s), s_heap := link p ?nd (s_heap s)\<rparr>"
    have "Store_insert cfg ctx clk b je fe s = insertLinked cfg ctx clk b ?n s1"
      by (simp add: Store_insert_def ph new link Let_def s1_def link_def)
    moreover have "store_ok s1 \<and> complete s1 \<and> grown s s1 b ?n (Some p)"
      by (rule linked_ok [OF ok c new link refl]) (simp_all add: s1_def link)
    ultimately show ?thesis using insertLinked_ok [of s1 s b ?n p cfg ctx clk] new link by auto
  next
    case first
    define s1 where "s1 = s\<lparr>s_heap := s_heap s @ [?nd],
        s_nodeByPayload := AList.update ph ?n (s_nodeByPayload s),
        s_nodeByRoot := AList.update (b_root b) ?n (s_nodeByRoot s),
        s_treeRootNode := Some ?n, s_headNode := Some ?n, s_highestReceivedNode := Some ?n\<rparr>"
    have run: "Store_insert cfg ctx clk b je fe s = insertReceived cfg (clk 3) (b_slot b) ?n s1"
      by (simp add: Store_insert_def ph new first Let_def s1_def)
    have "store_ok s1 \<and> complete s1 \<and> grown s s1 b ?n None"
      by (rule first_ok [OF ok first(2) refl]) (simp_all add: s1_def first)
    then show ?thesis
      using insertReceived_ok [of s1 s b ?n None cfg "clk 3" "b_slot b"] new first(1)
      unfolding run by (auto dest: insertReceived_fst)
  next
    case reject
    then show ?thesis
      using rejected_ok [OF ok c, of "snd (Store_insert cfg ctx clk b je fe s)" ?nd]
      by (auto simp: Store_insert_def ph new Let_def delete_update_same delete_id [OF key])
  qed
qed

end
