(* ===== verification/FC_Prune.thy ===== *)
theory FC_Prune
  imports FC_Insert
begin

text \<open>What pruning leaves of the store.\<close>

section \<open>The recursion\<close>

text \<open>
  \<open>pruned f D b s\<close>: the nodes in \<open>D\<close> are cut off their children and gone from the maps, and if
  \<open>b\<close> the node \<open>f\<close> has lost its target.
\<close>

definition cutHeap :: "addr \<Rightarrow> addr set \<Rightarrow> bool \<Rightarrow> heap \<Rightarrow> heap" where
  "cutHeap f D b h = map (\<lambda>i. let nd = (if i \<in> D then (h ! i)\<lparr>n_children := []\<rparr> else h ! i) in
     if b \<and> i = f \<and> n_target nd \<noteq> Some f then nd\<lparr>n_target := None\<rparr> else nd) [0..<length h]"

definition pruned :: "addr \<Rightarrow> addr set \<Rightarrow> bool \<Rightarrow> Store \<Rightarrow> Store" where
  "pruned f D b s = s\<lparr>s_heap := cutHeap f D b (s_heap s),
     s_nodeByRoot := filter (\<lambda>(r, a). r \<notin> (\<lambda>d. n_root (s_heap s ! d)) ` D) (s_nodeByRoot s),
     s_nodeByPayload := filter (\<lambda>(r, a). r \<notin> (\<lambda>d. n_payloadHash (s_heap s ! d)) ` D) (s_nodeByPayload s)\<rparr>"

lemma length_cutHeap [simp]: "length (cutHeap f D b h) = length h"
  by (simp add: cutHeap_def)

lemma cutHeap_fields:
  assumes "i < length h"
  shows "n_children (cutHeap f D b h ! i) = (if i \<in> D then [] else n_children (h ! i))"
    "n_root (cutHeap f D b h ! i) = n_root (h ! i)" "n_slot (cutHeap f D b h ! i) = n_slot (h ! i)"
    "n_payloadHash (cutHeap f D b h ! i) = n_payloadHash (h ! i)"
    "n_parent (cutHeap f D b h ! i) = n_parent (h ! i)"
    "n_bestDescendant (cutHeap f D b h ! i) = n_bestDescendant (h ! i)"
  using assms by (simp_all add: cutHeap_def Let_def)

lemma pruned_simps [simp]:
  "s_heap (pruned f D b s) = cutHeap f D b (s_heap s)"
  "s_treeRootNode (pruned f D b s) = s_treeRootNode s" "s_headNode (pruned f D b s) = s_headNode s"
  "s_highestReceivedNode (pruned f D b s) = s_highestReceivedNode s"
  "s_finalizedCheckpoint (pruned f D b s) = s_finalizedCheckpoint s"
  by (simp_all add: pruned_def)

lemma pruned_empty: "pruned f {} False s = s"
  by (simp add: pruned_def cutHeap_def Let_def map_nth)

lemma cutNode_pruned:
  assumes "n < length (s_heap s)"
  shows "cutNode n (pruned f D b s) = pruned f (insert n D) b s"
proof -
  have "modify n (\<lambda>nd. nd\<lparr>n_children := []\<rparr>) (cutHeap f D b (s_heap s)) = cutHeap f (insert n D) b (s_heap s)"
    using assms by (intro nth_equalityI) (auto simp: cutHeap_def nth_list_update Let_def)
  moreover have "AList.delete k (filter (\<lambda>(r, a). r \<notin> X) xs) = filter (\<lambda>(r, a). r \<notin> insert k X) xs"
    for k X and xs :: "(bytes32 \<times> addr) list"
    by (simp add: AList.delete_eq filter_filter) (rule filter_cong, auto)
  ultimately show ?thesis
    using assms by (simp add: cutNode_def pruned_def cutHeap_fields)
qed

lemma retarget_pruned:
  assumes "f < length (s_heap s)"
  shows "(if n_target (s_heap (pruned f D b s) ! f) \<noteq> Some f
      then (pruned f D b s)\<lparr>s_heap := modify f (\<lambda>nd. nd\<lparr>n_target := None\<rparr>) (s_heap (pruned f D b s))\<rparr>
      else pruned f D b s) = pruned f D True s"
proof -
  have "modify f (\<lambda>nd. nd\<lparr>n_target := None\<rparr>) (cutHeap f D b (s_heap s)) = cutHeap f D True (s_heap s)"
    if "n_target (cutHeap f D b (s_heap s) ! f) \<noteq> Some f"
    using assms that by (intro nth_equalityI) (auto simp: cutHeap_def nth_list_update Let_def)
  moreover have "cutHeap f D b (s_heap s) = cutHeap f D True (s_heap s)"
    if "n_target (cutHeap f D b (s_heap s) ! f) = Some f"
    using assms that by (intro nth_equalityI) (auto simp: cutHeap_def Let_def split: if_splits)
  ultimately show ?thesis by (auto simp: pruned_def)
qed

text \<open>What the recursion from \<open>n\<close> removes: the subtree of \<open>n\<close> without that of \<open>f\<close>.\<close>

definition doomed :: "heap \<Rightarrow> addr \<Rightarrow> addr \<Rightarrow> addr set" where
  "doomed h f n = {d. desc h n d \<and> \<not> (desc h n f \<and> desc h f d)}"

lemma doomed_self [simp]: "doomed h f f = {}"
  by (auto simp: doomed_def)

lemma doomed_unfold:
  assumes t: "tree_heap h" and n: "n < length h" and "n \<noteq> f"
  shows "doomed h f n = insert n (\<Union>c \<in> set (n_children (h ! n)). doomed h f c)"
proof -
  have kid: "c < length h" "n < c" if "c \<in> set (n_children (h ! n))" for c
    using that tree_heapD(2,3) [OF t n] by auto
  have not_above: "\<not> desc h f n" if "desc h n f"
    using that assms(3) desc_range [OF that t n] desc_range [of h f n] t by auto
  have only: "desc h c f" if "c \<in> set (n_children (h ! n))" "desc h c d" "desc h f d" "desc h n f" for c d
  proof -
    from that(4) assms(3) obtain c' where c': "c' \<in> set (n_children (h ! n))" "desc h c' f"
      by (auto simp: desc_unfold [of h n f])
    have "desc h c' d" using desc_trans [OF that(3) c'(2)] .
    with siblings_disjoint [OF t n that(1) c'(1) _ that(2)] have "c = c'" by blast
    with c'(2) show ?thesis by simp
  qed
  show ?thesis
  proof (intro set_eqI iffI)
    fix d assume d: "d \<in> doomed h f n"
    then have "desc h n d" by (simp add: doomed_def)
    then consider "d = n" | c where "c \<in> set (n_children (h ! n))" "desc h c d"
      by (auto simp: desc_unfold [of h n d])
    then show "d \<in> insert n (\<Union>c \<in> set (n_children (h ! n)). doomed h f c)"
      using d by cases (auto simp: doomed_def intro: desc_child)
  next
    fix d assume "d \<in> insert n (\<Union>c \<in> set (n_children (h ! n)). doomed h f c)"
    then consider "d = n" | c where "c \<in> set (n_children (h ! n))" "d \<in> doomed h f c" by auto
    then show "d \<in> doomed h f n"
    proof cases
      case 1
      then show ?thesis using not_above by (auto simp: doomed_def)
    next
      case 2
      then show ?thesis using only [of c d] by (auto simp: doomed_def intro: desc_child)
    qed
  qed
qed

theorem pruneFinalized_eq:
  assumes t: "tree_heap (s_heap s)" and f: "f < length (s_heap s)"
    and "n < length (s_heap s)" and "length (s_heap s) - n \<le> k"
    and "D \<inter> {d. desc (s_heap s) n d} = {}"
  shows "pruneFinalizedNodeByRootMap k background f n (pruned f D b s) =
    (Inr (), pruned f (D \<union> doomed (s_heap s) f n) (b \<or> desc (s_heap s) n f) s)"
  using assms(3-)
proof (induction k arbitrary: n D b)
  case (Suc k)
  let ?h = "s_heap s" and ?cs = "n_children (s_heap s ! n)"
  show ?case
  proof (cases "n = f")
    case True
    then show ?thesis using retarget_pruned [OF f, of D b] by (simp del: pruned_simps)
  next
    case False
    have kid: "c < length ?h" "n < c" if "c \<in> set ?cs" for c
      using that tree_heapD(2,3) [OF t Suc.prems(1)] by auto
    have loop: "pruneLoop (pruneFinalizedNodeByRootMap k background f) cs (pruned f D b s) =
        (Inr (), pruned f (D \<union> (\<Union>c \<in> set cs. doomed ?h f c)) (b \<or> (\<exists>c \<in> set cs. desc ?h c f)) s)"
      if "distinct cs" "set cs \<subseteq> set ?cs" "D \<inter> (\<Union>c \<in> set cs. {d. desc ?h c d}) = {}" for cs D b
      using that
    proof (induction cs arbitrary: D b)
      case (Cons c cs)
      have c: "c \<in> set ?cs" using Cons.prems by simp
      have "pruneFinalizedNodeByRootMap k background f c (pruned f D b s) =
          (Inr (), pruned f (D \<union> doomed ?h f c) (b \<or> desc ?h c f) s)"
        using Cons.prems kid [OF c] Suc.prems(2) by (intro Suc.IH) auto
      moreover have "(D \<union> doomed ?h f c) \<inter> (\<Union>c \<in> set cs. {d. desc ?h c d}) = {}"
        using Cons.prems siblings_disjoint [OF t Suc.prems(1) c] by (auto simp: doomed_def)
      ultimately show ?case
        using Cons.IH [of "D \<union> doomed ?h f c" "b \<or> desc ?h c f"] Cons.prems by (simp add: Un_assoc disj_assoc)
    qed simp
    have n_D: "n \<notin> D" using Suc.prems(3) by auto
    have "D \<inter> (\<Union>c \<in> set ?cs. {d. desc ?h c d}) = {}"
      using Suc.prems(3) by (auto intro: desc_child)
    from loop [OF tree_heapD(1) [OF t Suc.prems(1)] subset_refl this, of b] False
    show ?thesis
      using Suc.prems(1) n_D
      by (simp add: cutHeap_fields cutNode_pruned doomed_unfold [OF t Suc.prems(1) False]
          desc_unfold [of ?h n f])
  qed
qed simp

section \<open>Cutting nodes and the tree\<close>

lemma cutHeap_tree_heap:
  assumes t: "tree_heap h"
  shows "tree_heap (cutHeap f D b h)"
proof (rule tree_heapI)
  fix a assume "a < length (cutHeap f D b h)"
  then have a: "a < length h" by simp
  show "distinct (n_children (cutHeap f D b h ! a))"
    using tree_heapD(1) [OF t a] by (simp add: cutHeap_fields [OF a])
  show "q < a" if "n_parent (cutHeap f D b h ! a) = Some q" for q
    using that tree_heapD(5) [OF t a] by (simp add: cutHeap_fields [OF a])
  fix c assume "c \<in> set (n_children (cutHeap f D b h ! a))"
  then have "c \<in> set (n_children (h ! a))" by (simp add: cutHeap_fields [OF a] split: if_splits)
  note k = tree_heapD(2-4) [OF t a this]
  then show "a < c \<and> c < length (cutHeap f D b h) \<and> n_parent (cutHeap f D b h ! c) = Some a"
    by (simp add: cutHeap_fields [OF k(2)])
qed

lemma cutHeap_best_in: "best_in h \<Longrightarrow> best_in (cutHeap f D b h)"
  by (simp add: best_in_def cutHeap_fields)

lemma cutHeap_desc:
  assumes t: "tree_heap h" and r: "r < length h"
    and closed: "\<And>d e. d \<in> D \<Longrightarrow> desc h d e \<Longrightarrow> e \<in> D" and "desc h r a" and "a \<notin> D"
  shows "desc (cutHeap f D b h) r a"
  using assms(4,5) r
proof (induction rule: desc.induct)
  case (desc_step r x c)
  have x: "x \<notin> D" using closed [of x c] desc_step.hyps(2) desc_step.prems(1) desc.desc_step [of h x x c] by auto
  have "x < length h" using desc_step.hyps(1) desc_range t desc_step.prems(2) by blast
  with desc_step x show ?case by (auto simp: cutHeap_fields intro: desc.desc_step)
qed simp

text \<open>
  The finalized node as the new tree root: \<open>rerooted f s\<close> is the state after the first half of
  \<^verbatim>\<open>prune\<close>.
\<close>

definition rerooted :: "addr \<Rightarrow> addr \<Rightarrow> Store \<Rightarrow> Store" where
  "rerooted f t s = (let s1 = pruned f (doomed (s_heap s) f t) True s in
     s1\<lparr>s_heap := modify f (\<lambda>nd. nd\<lparr>n_parent := None\<rparr>) (s_heap s1), s_treeRootNode := Some f\<rparr>)"

lemma pruneRoot_eq:
  assumes "store_ok s" and "s_treeRootNode s = Some t" and "desc (s_heap s) t f"
  shows "pruneRoot background f s = (Inr (), pruned f (doomed (s_heap s) f t) True s)"
proof -
  note th = store_okD(1) [OF assms(1)] and tr = store_okD(4) [OF assms(1,2)]
  have f: "f < length (s_heap s)" using assms(3) desc_range th tr by blast
  show ?thesis
    using pruneFinalized_eq [OF th f tr, of "length (s_heap s)" "{}" False] assms(2,3)
    by (simp add: pruneRoot_def pruned_empty)
qed

lemma rerooted_heap:
  assumes "f < length (s_heap s)" and "i < length (s_heap s)"
  shows "length (s_heap (rerooted f t s)) = length (s_heap s)"
    "n_children (s_heap (rerooted f t s) ! i) =
       (if i \<in> doomed (s_heap s) f t then [] else n_children (s_heap s ! i))"
    "n_parent (s_heap (rerooted f t s) ! i) = (if i = f then None else n_parent (s_heap s ! i))"
    "n_root (s_heap (rerooted f t s) ! i) = n_root (s_heap s ! i)"
    "n_slot (s_heap (rerooted f t s) ! i) = n_slot (s_heap s ! i)"
    "n_bestDescendant (s_heap (rerooted f t s) ! i) = n_bestDescendant (s_heap s ! i)"
  using assms by (simp_all add: rerooted_def Let_def nth_list_update cutHeap_fields)

lemma rerooted_simps [simp]:
  "s_treeRootNode (rerooted f t s) = Some f" "s_headNode (rerooted f t s) = s_headNode s"
  "s_highestReceivedNode (rerooted f t s) = s_highestReceivedNode s"
  by (simp_all add: rerooted_def Let_def)

lemma rerooted_tree_heap:
  assumes ok: "store_ok s" and t: "s_treeRootNode s = Some t" and f: "desc (s_heap s) t f"
    and p: "n_parent (s_heap s ! f) = Some p"
  shows "tree_heap (s_heap (rerooted f t s))"
proof (rule tree_heapI)
  let ?h = "s_heap s"
  note th = store_okD(1) [OF ok] and fp = desc_root_neq [OF ok t f p]
  have p_doomed: "p \<in> doomed ?h f t"
    using fp(5) desc_range [OF _ th fp(3), of p] tree_heapD(2) [OF th fp(2,1)] by (auto simp: doomed_def)
  fix a assume "a < length (s_heap (rerooted f t s))"
  then have a: "a < length ?h" using rerooted_heap(1) [OF fp(3,3)] by simp
  show "distinct (n_children (s_heap (rerooted f t s) ! a))"
    using tree_heapD(1) [OF th a] by (simp add: rerooted_heap [OF fp(3) a])
  show "q < a" if "n_parent (s_heap (rerooted f t s) ! a) = Some q" for q
    using that tree_heapD(5) [OF th a] by (simp add: rerooted_heap [OF fp(3) a] split: if_splits)
  fix c assume c: "c \<in> set (n_children (s_heap (rerooted f t s) ! a))"
  then have c': "c \<in> set (n_children (?h ! a))" "a \<notin> doomed ?h f t"
    by (auto simp: rerooted_heap [OF fp(3) a] split: if_splits)
  note k = tree_heapD(2-4) [OF th a c'(1)]
  have "c \<noteq> f" using k(3) p p_doomed c'(2) by auto
  then show "a < c \<and> c < length (s_heap (rerooted f t s)) \<and> n_parent (s_heap (rerooted f t s) ! c) = Some a"
    using k by (simp add: rerooted_heap [OF fp(3) k(2)])
qed

lemma rerooted_desc:
  assumes th: "tree_heap (s_heap s)" and f: "f < length (s_heap s)" and t: "desc (s_heap s) t f"
    and x: "desc (s_heap s) f x"
  shows "desc (s_heap (rerooted f t s)) x a \<longleftrightarrow> desc (s_heap s) x a"
proof -
  let ?h = "s_heap s" and ?g = "s_heap (rerooted f t s)"
  have kids: "n_children (?g ! y) = n_children (?h ! y)" if "desc ?h f y" for y
  proof -
    have "y < length ?h" using that desc_range th f by blast
    moreover have "y \<notin> doomed ?h f t" using that t by (simp add: doomed_def)
    ultimately show ?thesis using rerooted_heap(2) [OF f] by simp
  qed
  have "desc ?h x a" if "desc ?g x a"
    using that x
  proof (induction rule: desc.induct)
    case (desc_step r b c)
    then have "n_children (?g ! b) = n_children (?h ! b)" using kids desc_trans by blast
    with desc_step show ?case by (auto intro: desc.desc_step)
  qed simp
  moreover have "desc ?g x a" if "desc ?h x a"
    using that x
  proof (induction rule: desc.induct)
    case (desc_step r b c)
    then have "n_children (?g ! b) = n_children (?h ! b)" using kids desc_trans by blast
    with desc_step show ?case by (auto intro: desc.desc_step)
  qed simp
  ultimately show ?thesis by blast
qed

lemma rerooted_lookup:
  assumes ok: "store_ok s" and c: "complete s" and t: "s_treeRootNode s = Some t"
    and f: "desc (s_heap s) t f"
  shows "nodeOf (rerooted f t s) r =
    (case nodeOf s r of None \<Rightarrow> None | Some a \<Rightarrow> if desc (s_heap s) f a then Some a else None)"
proof -
  let ?h = "s_heap s"
  have *: "nodeOf (rerooted f t s) r =
      (if r \<in> (\<lambda>d. n_root (?h ! d)) ` doomed ?h f t then None else nodeOf s r)"
    by (simp add: rerooted_def Let_def pruned_def map_of_filter_key)
  have "r \<in> (\<lambda>d. n_root (?h ! d)) ` doomed ?h f t \<longleftrightarrow> \<not> desc ?h f a" if a: "nodeOf s r = Some a" for a
  proof -
    obtain "desc ?h t a" "n_root (?h ! a) = r"
      using nodeOf_ok [OF store_okD(3) [OF ok] a] t by auto
    note ta = this
    show ?thesis
    proof
      assume "r \<in> (\<lambda>d. n_root (?h ! d)) ` doomed ?h f t"
      then obtain d where d: "d \<in> doomed ?h f t" "n_root (?h ! d) = r" by auto
      then have "d = a" using complete_roots_inj [OF c t _ ta(1)] ta(2) by (auto simp: doomed_def)
      with d(1) f show "\<not> desc ?h f a" by (simp add: doomed_def)
    qed (use ta in \<open>auto simp: doomed_def\<close>)
  qed
  then show ?thesis unfolding * by (auto split: option.split)
qed

lemma rerooted_ok:
  assumes ok: "store_ok s" and c: "complete s" and t: "s_treeRootNode s = Some t"
    and f: "desc (s_heap s) t f" and p: "n_parent (s_heap s ! f) = Some p"
  shows "store_ok (rerooted f t s)" and "complete (rerooted f t s)"
proof -
  let ?h = "s_heap s" and ?s' = "rerooted f t s"
  note th = store_okD(1) [OF ok] and fl = desc_root_neq(3) [OF ok t f p]
  note look = rerooted_lookup [OF ok c t f] and d = rerooted_desc [OF th fl f desc_refl]
  have below: "a < length ?h" if "desc ?h f a" for a using that desc_range th fl by blast
  have "n_root (s_heap ?s' ! a) = r \<and> desc (s_heap ?s') f a" if a: "nodeOf ?s' r = Some a" for r a
  proof -
    from a have a: "nodeOf s r = Some a" "desc ?h f a" by (auto simp: look split: option.splits if_splits)
    with nodeOf_range(2) [OF ok a(1)] below show ?thesis by (simp add: d rerooted_heap [OF fl])
  qed
  moreover have "distinct (map fst (s_nodeByRoot ?s'))"
    using store_okD(3) [OF ok]
    by (simp add: rerooted_def Let_def pruned_def map_ok_def distinct_fst_filter)
  ultimately have "map_ok ?s'" using map_okI [of ?s' f] by (metis rerooted_simps(1))
  moreover have "best_in (s_heap ?s')"
    using store_okD(2) [OF ok]
    by (simp add: best_in_def rerooted_heap(1) [OF fl fl] rerooted_heap(6) [OF fl])
  moreover have "s_highestReceivedNode s \<noteq> None" using store_okD(6) [OF ok t] .
  ultimately show "store_ok ?s'"
    using rerooted_tree_heap [OF ok t f p] ok fl rerooted_heap(1,3) [OF fl fl]
    by (simp add: store_ok_def addr_in_def)
  show "complete ?s'"
    unfolding complete_def
  proof (intro allI impI)
    fix t' a assume "s_treeRootNode ?s' = Some t'" "desc (s_heap ?s') t' a"
    then have a: "desc ?h f a" using d by (simp only: rerooted_simps option.inject)
    then have "desc ?h t a" using desc_trans f by blast
    then have "nodeOf s (n_root (?h ! a)) = Some a" using c t unfolding complete_def by blast
    then show "nodeOf ?s' (n_root (s_heap ?s' ! a)) = Some a"
      using a below [OF a] by (simp add: look rerooted_heap [OF fl])
  qed
qed

section \<open>Incompatible children\<close>

text \<open>The blocks below the children of \<open>f\<close> whose slot is at most \<open>m\<close>.\<close>

definition conflicting :: "heap \<Rightarrow> addr \<Rightarrow> Slot \<Rightarrow> addr set" where
  "conflicting h f m = {d. \<exists>c \<in> set (n_children (h ! f)). n_slot (h ! c) \<le> m \<and> desc h c d}"

lemma pruneIncompatible_eq:
  assumes t: "tree_heap (s_heap s)" and f: "f < length (s_heap s)"
    and "distinct cs" and "set cs \<subseteq> set (n_children (s_heap s ! f))"
    and "D \<inter> (\<Union>c \<in> set cs. {d. desc (s_heap s) c d}) = {}"
  shows "pruneIncompatible background f m cs (pruned f D False s) =
    (Inr (), pruned f (D \<union> {d. \<exists>c \<in> set cs. n_slot (s_heap s ! c) \<le> m \<and> desc (s_heap s) c d}) False s)"
  using assms(3-)
proof (induction cs arbitrary: D)
  case Nil
  then show ?case by simp
next
  case (Cons c cs)
  let ?h = "s_heap s"
  have c: "c \<in> set (n_children (?h ! f))" using Cons.prems by simp
  note k = tree_heapD(2,3) [OF t f c]
  have nf: "\<not> desc ?h c f" using k desc_range [OF _ t k(2), of f] by auto
  then have all: "doomed ?h f c = {d. desc ?h c d}" by (simp add: doomed_def)
  have step: "pruneFinalizedNodeByRootMap (length ?h) background f c (pruned f D False s) =
      (Inr (), pruned f (D \<union> {d. desc ?h c d}) False s)"
    using pruneFinalized_eq [OF t f k(2), of "length ?h" D False] Cons.prems(3) nf all by auto
  have "(D \<union> {d. desc ?h c d}) \<inter> (\<Union>c \<in> set cs. {d. desc ?h c d}) = {}"
    "D \<inter> (\<Union>c \<in> set cs. {d. desc ?h c d}) = {}"
    using Cons.prems siblings_disjoint [OF t f c] by auto
  moreover have "distinct cs" "set cs \<subseteq> set (n_children (?h ! f))" using Cons.prems by auto
  ultimately have IH: "pruneIncompatible background f m cs (pruned f (D \<union> {d. desc ?h c d}) False s) =
      (Inr (), pruned f (D \<union> {d. desc ?h c d} \<union> {d. \<exists>c \<in> set cs. n_slot (?h ! c) \<le> m \<and> desc ?h c d}) False s)"
    "pruneIncompatible background f m cs (pruned f D False s) =
      (Inr (), pruned f (D \<union> {d. \<exists>c \<in> set cs. n_slot (?h ! c) \<le> m \<and> desc ?h c d}) False s)"
    using Cons.IH by blast+
  have slot: "incompatible (s_heap (pruned f D False s)) m c \<longleftrightarrow> n_slot (?h ! c) \<le> m"
    using k(2) by (simp add: incompatible_def cutHeap_fields)
  show ?case
  proof (cases "n_slot (?h ! c) \<le> m")
    case True
    have "D \<union> {d. desc ?h c d} \<union> {d. \<exists>c \<in> set cs. n_slot (?h ! c) \<le> m \<and> desc ?h c d} =
        D \<union> {d. \<exists>c \<in> set (c # cs). n_slot (?h ! c) \<le> m \<and> desc ?h c d}" using True by auto
    with True slot step IH(1) show ?thesis
      by (simp only: pruneIncompatible.simps pruned_simps(1) length_cutHeap if_True obind_simps)
  next
    case False
    then have eq: "{d. \<exists>c \<in> set (c # cs). n_slot (?h ! c) \<le> m \<and> desc ?h c d} =
        {d. \<exists>c \<in> set cs. n_slot (?h ! c) \<le> m \<and> desc ?h c d}" by auto
    show ?thesis unfolding eq using slot False IH(2) by (simp only: pruneIncompatible.simps if_False)
  qed
qed

lemma conflicting_closed: "d \<in> conflicting h f m \<Longrightarrow> desc h d e \<Longrightarrow> e \<in> conflicting h f m"
  unfolding conflicting_def using desc_trans by blast

lemma conflicting_below:
  assumes "tree_heap h" and "f < length h" and "d \<in> conflicting h f m"
  shows "desc h f d" "d \<noteq> f"
proof -
  obtain c where c: "c \<in> set (n_children (h ! f))" "desc h c d" using assms(3) by (auto simp: conflicting_def)
  note k = tree_heapD(2,3) [OF assms(1,2) c(1)]
  show "desc h f d" using desc_child [OF c] .
  show "d \<noteq> f" using desc_range [OF c(2) assms(1) k(2)] k(1) by auto
qed

lemma cut_conflicting_ok:
  fixes m :: Slot
  assumes ok: "store_ok s" and c: "complete s" and f: "s_treeRootNode s = Some f"
  defines "s' \<equiv> pruned f (conflicting (s_heap s) f m) False s"
  shows "store_ok s'"
    and "nodeOf s' r = (case nodeOf s r of None \<Rightarrow> None
      | Some a \<Rightarrow> if a \<in> conflicting (s_heap s) f m then None else Some a)"
proof -
  let ?h = "s_heap s" and ?D = "conflicting (s_heap s) f m"
  note th = store_okD(1) [OF ok] and fl = store_okD(4) [OF ok f]
  have member: "r \<in> (\<lambda>d. n_root (?h ! d)) ` ?D \<longleftrightarrow> a \<in> ?D" if a: "nodeOf s r = Some a" for r a
  proof -
    obtain "desc ?h f a" "n_root (?h ! a) = r" using nodeOf_ok [OF store_okD(3) [OF ok] a] f by auto
    then show ?thesis
      using complete_roots_inj [OF c f] conflicting_below(1) [OF th fl] by (auto simp: image_iff)
  qed
  show look: "nodeOf s' r = (case nodeOf s r of None \<Rightarrow> None
      | Some a \<Rightarrow> if a \<in> ?D then None else Some a)" for r
    unfolding s'_def pruned_def using member [of r] by (auto simp: map_of_filter_key split: option.split)
  have "n_root (s_heap s' ! a) = r \<and> desc (s_heap s') f a" if a: "nodeOf s' r = Some a" for r a
  proof -
    from a have a: "nodeOf s r = Some a" "a \<notin> ?D" by (auto simp: look split: option.splits if_splits)
    then obtain "desc ?h f a" using nodeOf_ok [OF store_okD(3) [OF ok] a(1)] f by auto
    from cutHeap_desc [OF th fl conflicting_closed this a(2)] show ?thesis
      using nodeOf_range [OF ok a(1)] by (simp add: s'_def cutHeap_fields)
  qed
  moreover have "distinct (map fst (s_nodeByRoot s'))"
    using store_okD(3) [OF ok] by (simp add: s'_def pruned_def map_ok_def distinct_fst_filter)
  ultimately have "map_ok s'" using map_okI [of s' f] f by (metis pruned_simps(2) s'_def)
  then show "store_ok s'"
    using ok cutHeap_tree_heap [OF th] cutHeap_best_in [OF store_okD(2) [OF ok]] fl f
    by (simp add: store_ok_def addr_in_def s'_def cutHeap_fields)
qed

lemma rerooted_conflicting:
  assumes "tree_heap (s_heap s)" and "f < length (s_heap s)" and "desc (s_heap s) t f"
  shows "conflicting (s_heap (rerooted f t s)) f m = conflicting (s_heap s) f m"
proof -
  have "f \<notin> doomed (s_heap s) f t" using assms(3) by (simp add: doomed_def)
  then have kids: "n_children (s_heap (rerooted f t s) ! f) = n_children (s_heap s ! f)"
    using rerooted_heap(2) [OF assms(2,2)] by simp
  have "n_slot (s_heap (rerooted f t s) ! c) = n_slot (s_heap s ! c)"
    "\<And>d. desc (s_heap (rerooted f t s)) c d \<longleftrightarrow> desc (s_heap s) c d"
    if "c \<in> set (n_children (s_heap s ! f))" for c
    using that rerooted_desc [OF assms] rerooted_heap(5) [OF assms(2)] tree_heapD(3) [OF assms(1,2)]
      desc_child [OF that desc_refl] by blast+
  then show ?thesis by (auto simp: conflicting_def kids)
qed

text \<open>What \<^verbatim>\<open>prune\<close> forgets besides the blocks that are not below the finalized one.\<close>

definition cutOff :: "heap \<Rightarrow> addr \<Rightarrow> Slot \<Rightarrow> addr set" where
  "cutOff h f m = (if n_slot (h ! f) = m then {} else conflicting h f m)"

theorem Store_prune_spec:
  assumes ok: "store_ok s" and c: "complete s"
    and f: "nodeOf s (cp_Root (s_finalizedCheckpoint s)) = Some f"
    and p: "n_parent (s_heap s ! f) = Some p"
    and m: "EpochStart cfg (cp_Epoch (s_finalizedCheckpoint s)) = Inr m"
  obtains s' where "Store_prune cfg background s = (Inr (), s')" and "store_ok s'"
    and "s_treeRootNode s' = Some f"
    and "\<And>r. nodeOf s' r = (case nodeOf s r of None \<Rightarrow> None
      | Some a \<Rightarrow> if desc (s_heap s) f a \<and> a \<notin> cutOff (s_heap s) f m then Some a else None)"
    and "cutOff (s_heap s) f m = {} \<Longrightarrow> complete s'"
    and "n_children (s_heap s' ! f) = n_children (s_heap s ! f)"
proof -
  let ?h = "s_heap s"
  obtain t where t: "s_treeRootNode s = Some t" "desc ?h t f"
    using nodeOf_ok [OF store_okD(3) [OF ok] f] by metis
  note th = store_okD(1) [OF ok] and fl = desc_root_neq(3) [OF ok t p]
  let ?s2 = "rerooted f t s"
  note ok2 = rerooted_ok [OF ok c t p] and look2 = rerooted_lookup [OF ok c t]
  have f_in: "f \<notin> doomed ?h f t" using t(2) by (simp add: doomed_def)
  have kids: "n_children (s_heap ?s2 ! f) = n_children (?h ! f)"
    using rerooted_heap(2) [OF fl fl] f_in by simp
  have run: "Store_prune cfg background s =
      (if n_slot (s_heap ?s2 ! f) = m then (Inr (), ?s2)
       else pruneIncompatible background f m (n_children (s_heap ?s2 ! f)) ?s2)"
    by (simp add: Store_prune_def f p m pruneRoot_eq [OF ok t] rerooted_def Let_def)
  show ?thesis
  proof (cases "n_slot (?h ! f) = m")
    case True
    then have "Store_prune cfg background s = (Inr (), ?s2)"
      by (simp add: run rerooted_heap(5) [OF fl fl])
    moreover have none: "cutOff ?h f m = {}" using True by (simp add: cutOff_def)
    ultimately show ?thesis
      by (intro that [of ?s2]) (simp_all add: ok2 look2 kids none split: option.split)
  next
    case False
    let ?D = "conflicting ?h f m" and ?g = "s_heap (rerooted f t s)"
    have D: "conflicting ?g f m = ?D" by (rule rerooted_conflicting [OF th fl t(2)])
    have gl: "f < length ?g" using fl rerooted_heap(1) [OF fl fl] by simp
    note th2 = store_okD(1) [OF ok2(1)]
    have "pruneIncompatible background f m (n_children (?g ! f)) (pruned f {} False ?s2) =
        (Inr (), pruned f ({} \<union> conflicting ?g f m) False ?s2)"
      unfolding conflicting_def
      by (rule pruneIncompatible_eq [OF th2 gl tree_heapD(1) [OF th2 gl] subset_refl]) simp
    then have "Store_prune cfg background s = (Inr (), pruned f ?D False ?s2)"
      using False D by (simp add: run rerooted_heap(5) [OF fl fl] pruned_empty)
    moreover have "f \<notin> ?D" using conflicting_below(2) [OF th fl] by blast
    moreover note cut_conflicting_ok [OF ok2 rerooted_simps(1), of m, unfolded D]
    ultimately show ?thesis
      by (intro that [of "pruned f ?D False ?s2"])
         (use False in \<open>auto simp: cutOff_def pruned_empty ok2 look2 kids cutHeap_fields [OF gl]
            split: option.split\<close>)
  qed
qed

end
