(* ===== verification/FC_Example.thy ===== *)
theory FC_Example
  imports FC_Prune
begin

text \<open>
  A small chain on mainnet parameters on which the properties of the fork choice are applied: a
  genesis block, two competing children and a grandchild. The genesis time is the zero of the
  time line and every clock reading is five seconds into slot 4.
\<close>

definition ex_clock :: clock where
  "ex_clock = (\<lambda>_. 53 * Second)"

definition ex_block :: "bytes32 \<Rightarrow> Slot \<Rightarrow> bytes32 \<Rightarrow> ROBlock" where
  "ex_block root slot parentRoot = \<lparr>b_root = root, b_slot = slot, b_parentRoot = parentRoot,
     b_version = Phase0, b_executionBlockHash = Inr 0\<rparr>"

definition ex_empty :: Store where
  "ex_empty = (f_store FC_New)\<lparr>s_genesisTime := 0\<rparr>"

definition ex_add :: "ROBlock \<Rightarrow> Store \<Rightarrow> Store" where
  "ex_add b s = snd (Store_insert mainnetBeaconConfig background ex_clock b 0 0 s)"

definition ex_store :: Store where
  "ex_store = ex_add (ex_block 4 3 2) (ex_add (ex_block 3 2 1) (ex_add (ex_block 2 1 1)
     (ex_add (ex_block 1 0 0) ex_empty)))"

lemma ex_empty_ok: "store_ok ex_empty" "complete ex_empty"
  by (simp_all add: ex_empty_def FC_New_def store_ok_def map_ok_def addr_in_def complete_def best_in_def
      tree_heap_def)

lemma ex_add_ok: "store_ok s \<Longrightarrow> complete s \<Longrightarrow> store_ok (ex_add b s) \<and> complete (ex_add b s)"
  unfolding ex_add_def using Store_insert_ok by blast

lemma ex_store_ok: "store_ok ex_store" "complete ex_store"
  unfolding ex_store_def using ex_add_ok ex_empty_ok by blast+

lemma ex_store_tree:
  "s_treeRootNode ex_store = Some 0" "length (s_heap ex_store) = 4"
  "map n_children (s_heap ex_store) = [[1, 2], [3], [], []]"
  "map n_parent (s_heap ex_store) = [None, Some 0, Some 0, Some 1]"
  "map n_root (s_heap ex_store) = [1, 2, 3, 4]" "map n_slot (s_heap ex_store) = [0, 1, 2, 3]"
  "s_nodeByRoot ex_store = [(1, 0), (2, 1), (3, 2), (4, 3)]"
  "map n_optimistic (s_heap ex_store) = [True, True, True, True]"
  by code_simp+

end
