(* ===== verification/FC_Refine.thy ===== *)
theory FC_Refine
  imports FC_Example
begin

text \<open>
  The abstract block tree the store implements: a finite map from block roots to the slot and
  the parent root of the block. The pointer structure of the store is related to it by \<open>blocks\<close>,
  and the operations of the store to operations on the map.
\<close>

section \<open>The abstract tree\<close>

type_synonym blockTree = "bytes32 \<Rightarrow> (Slot \<times> bytes32 option) option"

text \<open>\<open>below m r x\<close>: the block \<open>x\<close> is \<open>r\<close> or a descendant of it.\<close>

inductive below :: "blockTree \<Rightarrow> bytes32 \<Rightarrow> bytes32 \<Rightarrow> bool" for m where
  below_self: "r \<in> dom m \<Longrightarrow> below m r r"
| below_child: "below m r p \<Longrightarrow> m x = Some (sl, Some p) \<Longrightarrow> below m r x"

text \<open>\<open>ancestorAt m slot r q\<close>: \<open>q\<close> is the first block at or before \<open>slot\<close> on the way from \<open>r\<close> up.\<close>

inductive ancestorAt :: "blockTree \<Rightarrow> Slot \<Rightarrow> bytes32 \<Rightarrow> bytes32 \<Rightarrow> bool" for m slot where
  ancestor_here: "m r = Some (sl, p) \<Longrightarrow> sl \<le> slot \<Longrightarrow> ancestorAt m slot r r"
| ancestor_up: "m r = Some (sl, Some p) \<Longrightarrow> sl > slot \<Longrightarrow> ancestorAt m slot p q \<Longrightarrow> ancestorAt m slot r q"

inductive_cases ancestorAtE: "ancestorAt m slot r q"

definition addBlock :: "ROBlock \<Rightarrow> blockTree \<Rightarrow> blockTree" where
  "addBlock b m = m(b_root b \<mapsto>
     (b_slot b, if b_parentRoot b \<in> dom m then Some (b_parentRoot b) else None))"

definition dropBelow :: "bytes32 \<Rightarrow> blockTree \<Rightarrow> blockTree" where
  "dropBelow r m = (\<lambda>x. if below m r x then None else m x)"

section \<open>The abstraction\<close>

definition nodeInfo :: "heap \<Rightarrow> addr \<Rightarrow> Slot \<times> bytes32 option" where
  "nodeInfo h a = (n_slot (h ! a), map_option (\<lambda>p. n_root (h ! p)) (n_parent (h ! a)))"

definition blocks :: "Store \<Rightarrow> blockTree" where
  "blocks s r = map_option (nodeInfo (s_heap s)) (nodeOf s r)"

lemma dom_blocks: "r \<in> dom (blocks s) \<longleftrightarrow> nodeOf s r \<noteq> None"
  by (auto simp: blocks_def)

text \<open>The parent of a node of the map is in the map, and is found by its root.\<close>

lemma parent_known:
  assumes ok: "store_ok s" and c: "complete s" and a: "nodeOf s r = Some a"
    and p: "n_parent (s_heap s ! a) = Some p"
  shows "nodeOf s (n_root (s_heap s ! p)) = Some p"
proof -
  obtain t where t: "s_treeRootNode s = Some t" "desc (s_heap s) t a"
    using nodeOf_ok [OF store_okD(3) [OF ok] a] by metis
  with c desc_root_neq(5) [OF ok t p] show ?thesis unfolding complete_def by blast
qed

lemma blocks_parent:
  assumes "nodeOf s r = Some a" and "n_parent (s_heap s ! a) = Some p"
  shows "blocks s r = Some (n_slot (s_heap s ! a), Some (n_root (s_heap s ! p)))"
  using assms by (simp add: blocks_def nodeInfo_def)

lemma desc_below:
  assumes ok: "store_ok s" and c: "complete s" and a: "nodeOf s r = Some a"
  shows "desc (s_heap s) a d \<Longrightarrow> below (blocks s) r (n_root (s_heap s ! d))
    \<and> nodeOf s (n_root (s_heap s ! d)) = Some d"
proof -
  assume "desc (s_heap s) a d"
  then show ?thesis using a
  proof (induction rule: desc.induct)
    case (desc_refl a)
    then have "r \<in> dom (blocks s)" by (simp add: dom_blocks)
    with desc_refl nodeOf_range(2) [OF ok desc_refl] show ?case by (simp add: below_self)
  next
    case (desc_step a x y)
    then have x: "nodeOf s (n_root (s_heap s ! x)) = Some x" by blast
    have xl: "x < length (s_heap s)" using nodeOf_range [OF ok x] by simp
    have y: "n_parent (s_heap s ! y) = Some x"
      using tree_heapD(4) [OF store_okD(1) [OF ok] xl desc_step.hyps(2)] .
    obtain t where "s_treeRootNode s = Some t" "desc (s_heap s) t x"
      using nodeOf_ok [OF store_okD(3) [OF ok] x] by metis
    then have ny: "nodeOf s (n_root (s_heap s ! y)) = Some y"
      using c desc.desc_step [OF _ desc_step.hyps(2)] unfolding complete_def by blast
    moreover have "below (blocks s) r (n_root (s_heap s ! x))" using desc_step by blast
    ultimately show ?case using below_child [of "blocks s"] blocks_parent [OF ny y] by blast
  qed
qed

lemma below_desc:
  assumes ok: "store_ok s" and c: "complete s" and a: "nodeOf s r = Some a"
  shows "below (blocks s) r x \<Longrightarrow> \<exists>d. nodeOf s x = Some d \<and> desc (s_heap s) a d"
proof -
  assume "below (blocks s) r x"
  then show ?thesis using a
  proof (induction rule: below.induct)
    case (below_self r)
    then show ?case by auto
  next
    case (below_child r p x sl)
    then obtain dp where dp: "nodeOf s p = Some dp" "desc (s_heap s) a dp" by blast
    from below_child.hyps(2) obtain d q where d: "nodeOf s x = Some d" "n_parent (s_heap s ! d) = Some q"
      "n_root (s_heap s ! q) = p" by (auto simp: blocks_def nodeInfo_def)
    have "q = dp" using parent_known [OF ok c d(1,2)] d(3) dp(1) by simp
    moreover obtain t where t: "s_treeRootNode s = Some t" "desc (s_heap s) t d"
      using nodeOf_ok [OF store_okD(3) [OF ok] d(1)] by metis
    ultimately have "d \<in> set (n_children (s_heap s ! dp))"
      using desc_root_neq(1) [OF ok t d(2)] by simp
    with dp(2) d(1) show ?case by (blast intro: desc_step)
  qed
qed

lemma below_iff_desc:
  assumes "store_ok s" and "complete s" and "nodeOf s r = Some a" and "nodeOf s x = Some d"
  shows "below (blocks s) r x \<longleftrightarrow> desc (s_heap s) a d"
  using below_desc [OF assms(1-3)] desc_below [OF assms(1-3), of d] assms(4) nodeOf_range(2) [OF assms(1,4)]
  by fastforce

section \<open>Ancestors\<close>

lemma ancestorLoop_refines:
  assumes ok: "store_ok s" and c: "complete s" and "nodeOf s r = Some a" and "a + 2 \<le> k"
  shows "\<exists>x. ancestorLoop k background (s_heap s) slot (Some a) = Inr x
    \<and> (\<forall>q. ancestorAt (blocks s) slot r q \<longleftrightarrow> (\<exists>d. x = Some d \<and> q = n_root (s_heap s ! d)))"
  using assms(3,4)
proof (induction k arbitrary: r a)
  case (Suc k)
  have root: "n_root (s_heap s ! a) = r" using nodeOf_range(2) [OF ok Suc.prems(1)] .
  have b: "blocks s r = Some (n_slot (s_heap s ! a), map_option (\<lambda>p. n_root (s_heap s ! p)) (n_parent (s_heap s ! a)))"
    using Suc.prems(1) by (simp add: blocks_def nodeInfo_def)
  consider "n_slot (s_heap s ! a) \<le> slot" | "n_slot (s_heap s ! a) > slot" "n_parent (s_heap s ! a) = None"
    | p where "n_slot (s_heap s ! a) > slot" "n_parent (s_heap s ! a) = Some p" by fastforce
  then show ?case
  proof cases
    case 1
    then have "ancestorAt (blocks s) slot r q \<longleftrightarrow> q = r" for q
      using b by (auto intro: ancestor_here elim: ancestorAtE)
    with 1 root show ?thesis by auto
  next
    case 2
    then have "\<not> ancestorAt (blocks s) slot r q" for q using b by (auto elim: ancestorAtE)
    moreover obtain j where "k = Suc j" using Suc.prems(2) by (cases k) auto
    ultimately show ?thesis using 2 by simp
  next
    case 3
    have p: "nodeOf s (n_root (s_heap s ! p)) = Some p" using parent_known [OF ok c Suc.prems(1) 3(2)] .
    have "p < a"
      using tree_heapD(5) [OF store_okD(1) [OF ok] _ 3(2)] nodeOf_range(1) [OF ok Suc.prems(1)] .
    with Suc.IH [OF p] Suc.prems(2) obtain x where
      x: "ancestorLoop k background (s_heap s) slot (Some p) = Inr x"
      "\<And>q. ancestorAt (blocks s) slot (n_root (s_heap s ! p)) q \<longleftrightarrow> (\<exists>d. x = Some d \<and> q = n_root (s_heap s ! d))"
      by auto
    have "ancestorAt (blocks s) slot r q \<longleftrightarrow> ancestorAt (blocks s) slot (n_root (s_heap s ! p)) q" for q
      using b 3 by (auto intro: ancestor_up elim: ancestorAtE)
    with x 3 show ?thesis by auto
  qed
qed simp

lemma AncestorRoot_cases:
  assumes "store_ok (f_store f)" and "complete (f_store f)"
  shows "(AncestorRoot background f r slot = Inr q \<longleftrightarrow> ancestorAt (blocks (f_store f)) slot r q)
    \<and> (AncestorRoot background f r slot = Inl e \<longrightarrow> e = ErrNilNode)"
proof (cases "f_nodeOf f r")
  case None
  then have "\<not> ancestorAt (blocks (f_store f)) slot r q" by (auto simp: blocks_def elim: ancestorAtE)
  with None show ?thesis by (simp add: AncestorRoot_def)
next
  case (Some a)
  obtain x where "ancestorLoop (a + 2) background (s_heap (f_store f)) slot (Some a) = Inr x"
    "ancestorAt (blocks (f_store f)) slot r q \<longleftrightarrow> (\<exists>d. x = Some d \<and> q = n_root (f_node f d))"
    using ancestorLoop_refines [OF assms Some order_refl, of slot] by metis
  with Some show ?thesis by (cases x) (auto simp: AncestorRoot_def simp del: ancestorLoop.simps)
qed

section \<open>Inserting, removing and pruning\<close>

text \<open>A heap that extends another and keeps slots, roots and parents.\<close>

definition frame :: "heap \<Rightarrow> heap \<Rightarrow> bool" where
  "frame h h' \<longleftrightarrow> length h \<le> length h' \<and> (\<forall>a < length h. n_slot (h' ! a) = n_slot (h ! a)
     \<and> n_root (h' ! a) = n_root (h ! a) \<and> n_parent (h' ! a) = n_parent (h ! a))"

lemma frame_refl [simp]: "frame h h"
  by (simp add: frame_def)

lemma frame_trans: "frame h1 h2 \<Longrightarrow> frame h2 h3 \<Longrightarrow> frame h1 h3"
  by (auto simp: frame_def)

lemma frame_append: "frame h (h @ [nd])"
  by (simp add: frame_def nth_append)

lemma frame_link: "p < length h \<Longrightarrow> frame h (link p nd h)"
  by (auto simp: frame_def link_nth(2))

lemma frame_unlink: "frame h (unlink p n h)"
  by (cases "p < length h")
     (auto simp: frame_def unlink_def nth_list_update list_update_beyond simp del: swapRemove.simps)

lemma frame_best:
  assumes "same_but_best h h'"
  shows "frame h h'"
proof -
  have "n_slot (h' ! a) = n_slot (h ! a)" if "a < length h" for a
  proof -
    have "(h' ! a)\<lparr>n_bestDescendant := None\<rparr> = (h ! a)\<lparr>n_bestDescendant := None\<rparr>"
      using assms that by (simp add: same_but_best_def)
    then show ?thesis by (cases "h' ! a"; cases "h ! a") simp
  qed
  then show ?thesis
    using same_but_best_fields [OF assms] assms by (simp add: frame_def same_but_best_def)
qed

lemma frame_nodeInfo:
  assumes "frame h h'" and "a < length h" and "\<And>p. n_parent (h ! a) = Some p \<Longrightarrow> p < length h"
  shows "nodeInfo h' a = nodeInfo h a"
  using assms by (cases "n_parent (h ! a)") (auto simp: nodeInfo_def frame_def)

lemma removeNodeAndChildren_heap:
  "s_heap (snd (removeNodeAndChildren k ctx n acc s)) = s_heap s"
proof (induction k arbitrary: n acc s)
  case (Suc k)
  have "s_heap (snd (removeChildrenLoop (removeNodeAndChildren k ctx) ctx cs acc s)) = s_heap s" for cs acc s
  proof (induction cs arbitrary: acc s)
    case (Cons c cs)
    obtain r s1 where "removeNodeAndChildren k ctx c acc s = (r, s1)"
      by (cases "removeNodeAndChildren k ctx c acc s")
    with Suc [of c acc s] Cons show ?case by (cases r) auto
  qed simp
  note loop = this [of "n_children (s_heap s ! n)" acc s]
  obtain r s1 where
    run: "removeChildrenLoop (removeNodeAndChildren k ctx) ctx (n_children (s_heap s ! n)) acc s = (r, s1)"
    by (meson surj_pair)
  then have "s_heap s1 = s_heap s" using loop by simp
  with run show ?case by (cases r) simp_all
qed simp

lemma removeNode_frame: "frame (s_heap s) (s_heap (snd (removeNode ctx n s)))"
  by (auto simp: removeNode_def Let_def removeNodeAndChildren_heap unlink_def [symmetric] frame_unlink
      simp del: swapRemove.simps split: option.split)

lemma insertReceived_heap: "s_heap (snd (insertReceived cfg now slot n s)) = s_heap s"
  by (auto simp: insertReceived_def Let_def split: option.split)

lemma rootBestDescendant_frame:
  assumes "store_ok s"
  shows "frame (s_heap s) (s_heap (snd (rootBestDescendant ctx je fe ce s)))"
proof (cases "s_treeRootNode s")
  case (Some t)
  have "same_but_best (s_heap s) (snd (updateBestDescendant (length (s_heap s)) ctx je fe ce t (s_heap s)))"
    using updateBestDescendant_keeps [OF store_okD(1) [OF assms] same_but_best_refl
        store_okD(2,4) [OF assms] ] Some by blast
  then show ?thesis
    by (auto simp: rootBestDescendant_def Some onHeap_def split: prod.split dest: frame_best)
qed (simp add: rootBestDescendant_def)

lemma insertLinked_frame:
  assumes "store_ok s"
  shows "frame (s_heap s) (s_heap (snd (insertLinked cfg ctx clk b n s)))"
proof -
  have ok: "store_ok (s\<lparr>s_proposerBoostRoot := x\<rparr>)" for x
    by (rule store_ok_cong [OF assms]) (use assms in \<open>simp_all add: store_ok_def\<close>)
  have "frame (s_heap s) (s_heap s2)" if "rootBestDescendant ctx je fe ce s1 = (r, s2)"
    "s1 = s \<or> s1 = s\<lparr>s_proposerBoostRoot := b_root b\<rparr>" for je fe ce s1 s2 r
    using that rootBestDescendant_frame [of s1 ctx je fe ce] assms ok by auto
  then show ?thesis
    using frame_trans [OF _ removeNode_frame]
    by (auto simp: insertLinked_def Let_def insertReceived_heap split: sum.split prod.split)
qed

lemma Store_insert_frame:
  assumes "store_ok s"  and "complete s"
  shows "frame (s_heap s) (s_heap (snd (Store_insert cfg ctx clk b je fe s)))"
proof (cases "blockPayloadHash b")
  case (Inl e)
  then show ?thesis by (simp add: Store_insert_def)
next
  case (Inr ph)
  show ?thesis
  proof (cases "nodeOf s (b_root b) = None \<and> nodeOf s (b_parentRoot b) \<noteq> None")
    case True
    then obtain p where p: "nodeOf s (b_parentRoot b) = Some p" and new: "nodeOf s (b_root b) = None" by auto
    let ?n = "length (s_heap s)" and ?nd = "newNode cfg (clk 0) b ph (Some p) je fe (s_heap s)"
    define s1 where "s1 = s\<lparr>s_nodeByPayload := AList.update ph ?n (s_nodeByPayload s),
        s_nodeByRoot := AList.update (b_root b) ?n (s_nodeByRoot s), s_heap := link p ?nd (s_heap s)\<rparr>"
    have "Store_insert cfg ctx clk b je fe s = insertLinked cfg ctx clk b ?n s1"
      by (simp add: Store_insert_def Inr new p Let_def s1_def link_def)
    moreover have "store_ok s1"
      using linked_ok [OF assms new p refl, of s1] by (simp add: s1_def)
    moreover have "frame (s_heap s) (s_heap s1)"
      using frame_link nodeOf_range(1) [OF assms(1) p] by (simp add: s1_def)
    ultimately show ?thesis using insertLinked_frame frame_trans by metis
  next
    case False
    then show ?thesis
      by (auto simp: Store_insert_def Inr Let_def insertReceived_heap frame_append split: option.split)
  qed
qed

text \<open>\<^verbatim>\<open>insert\<close> adds the block to the tree.\<close>

lemma Store_insert_refines:
  assumes ok: "store_ok s" and c: "complete s"
    and run: "Store_insert cfg ctx clk b je fe s = (Inr n, s')" and new: "b_root b \<notin> dom (blocks s)"
  shows "blocks s' = addBlock b (blocks s)"
proof
  fix r
  have none: "nodeOf s (b_root b) = None" using new by (simp add: dom_blocks)
  have g: "grown s s' b n (nodeOf s (b_parentRoot b))"
    using Store_insert_ok [OF ok c, of cfg ctx clk b je fe] run none by simp
  have fr: "frame (s_heap s) (s_heap s')"
    using Store_insert_frame [OF ok c, of cfg ctx clk b je fe] run by simp
  show "blocks s' r = addBlock b (blocks s) r"
  proof (cases "r = b_root b")
    case True
    have "map_option (\<lambda>p. n_root (s_heap s' ! p)) (nodeOf s (b_parentRoot b)) =
        (if b_parentRoot b \<in> dom (blocks s) then Some (b_parentRoot b) else None)"
      using nodeOf_range [OF ok, of "b_parentRoot b"] fr
      by (cases "nodeOf s (b_parentRoot b)") (auto simp: dom_blocks frame_def)
    with True show ?thesis
      by (simp add: blocks_def nodeInfo_def grownD(4,5,8) [OF g] addBlock_def)
  next
    case False
    then have same: "nodeOf s' r = nodeOf s r" using grownD(8) [OF g] by simp
    have "nodeInfo (s_heap s') a = nodeInfo (s_heap s) a" if a: "nodeOf s r = Some a" for a
    proof (rule frame_nodeInfo [OF fr nodeOf_range(1) [OF ok a]])
      fix p assume "n_parent (s_heap s ! a) = Some p"
      from tree_heapD(5) [OF store_okD(1) [OF ok] nodeOf_range(1) [OF ok a] this]
      show "p < length (s_heap s)" using nodeOf_range(1) [OF ok a] by simp
    qed
    with False show ?thesis
      by (cases "nodeOf s r") (simp_all add: blocks_def addBlock_def same)
  qed
qed

text \<open>\<^verbatim>\<open>removeNode\<close> drops the block and all blocks below it.\<close>

lemma removeNode_refines:
  assumes ok: "store_ok s" and c: "complete s" and n: "nodeOf s r = Some n"
    and p: "n_parent (s_heap s ! n) = Some p" and opt: "n_optimistic (s_heap s ! n)"
  shows "\<exists>roots s'. removeNode background (Some n) s = (Inr roots, s') \<and> store_ok s' \<and> complete s'
    \<and> blocks s' = dropBelow r (blocks s) \<and> distinct roots \<and> set roots = {x. below (blocks s) r x}"
proof -
  obtain t where t: "s_treeRootNode s = Some t" "desc (s_heap s) t n"
    using nodeOf_ok [OF store_okD(3) [OF ok] n] by metis
  obtain roots s' where run: "removeNode background (Some n) s = (Inr roots, s')"
    and roots: "set roots = rootsBelow (s_heap s) n" "distinct roots"
    and look: "\<And>r. nodeOf s' r = (if r \<in> set roots then None else nodeOf s r)"
    and h': "s_heap s' = unlink p n (s_heap s)" and ok': "store_ok s'" "complete s'"
    using removeNode_spec [OF ok c t p opt] by metis
  have "x \<in> set roots" if x: "below (blocks s) r x" for x
  proof -
    obtain d where d: "nodeOf s x = Some d" "desc (s_heap s) n d" using below_desc [OF ok c n x] by blast
    then show ?thesis using nodeOf_range(2) [OF ok d(1)] by (auto simp: roots(1))
  qed
  then have set: "set roots = {x. below (blocks s) r x}"
    using desc_below [OF ok c n] by (auto simp: roots(1))
  have fr: "frame (s_heap s) (s_heap s')" unfolding h' by (rule frame_unlink)
  have "blocks s' x = dropBelow r (blocks s) x" for x
  proof (cases "nodeOf s x")
    case (Some a)
    have "nodeInfo (s_heap s') a = nodeInfo (s_heap s) a"
    proof (rule frame_nodeInfo [OF fr nodeOf_range(1) [OF ok Some]])
      fix q assume "n_parent (s_heap s ! a) = Some q"
      from tree_heapD(5) [OF store_okD(1) [OF ok] nodeOf_range(1) [OF ok Some] this]
      show "q < length (s_heap s)" using nodeOf_range(1) [OF ok Some] by simp
    qed
    then show ?thesis using set by (simp add: blocks_def look dropBelow_def Some)
  qed (use set in \<open>simp add: blocks_def look dropBelow_def\<close>)
  then have "blocks s' = dropBelow r (blocks s)" by blast
  with run ok' roots(2) set show ?thesis by blast
qed

end
