(* ===== verification/FC_Head.thy ===== *)
theory FC_Head
  imports FC_Refine
begin

text \<open>\<^verbatim>\<open>Head\<close> computes the head of the fork choice rule: the proof that composes the passes.\<close>

section \<open>Stores that differ in balances only\<close>

definition same_but_balance :: "heap \<Rightarrow> heap \<Rightarrow> bool" where
  "same_but_balance h g \<longleftrightarrow> length g = length h
     \<and> (\<forall>a < length h. (g ! a)\<lparr>n_balance := 0\<rparr> = (h ! a)\<lparr>n_balance := 0\<rparr>)"

lemma same_but_balance_fields:
  assumes "same_but_balance h g" and "a < length h"
  shows "n_root (g ! a) = n_root (h ! a)" "n_children (g ! a) = n_children (h ! a)"
    "n_parent (g ! a) = n_parent (h ! a)" "n_bestDescendant (g ! a) = n_bestDescendant (h ! a)"
    "n_justifiedEpoch (g ! a) = n_justifiedEpoch (h ! a)"
proof -
  have "(g ! a)\<lparr>n_balance := 0\<rparr> = (h ! a)\<lparr>n_balance := 0\<rparr>"
    using assms by (simp add: same_but_balance_def)
  then show "n_root (g ! a) = n_root (h ! a)" "n_children (g ! a) = n_children (h ! a)"
    "n_parent (g ! a) = n_parent (h ! a)" "n_bestDescendant (g ! a) = n_bestDescendant (h ! a)"
    "n_justifiedEpoch (g ! a) = n_justifiedEpoch (h ! a)"
    by (cases "g ! a"; cases "h ! a"; simp)+
qed

lemma same_but_balance_tree:
  assumes "same_but_balance h g"
  shows "same_tree h g" and "best_in h \<Longrightarrow> best_in g"
proof -
  have len: "length g = length h" using assms by (simp add: same_but_balance_def)
  show "same_tree h g" by (simp add: same_tree_def same_links_def len same_but_balance_fields [OF assms])
  show "best_in h \<Longrightarrow> best_in g" by (simp add: best_in_def len same_but_balance_fields [OF assms])
qed

definition rebalanced :: "Store \<Rightarrow> Store \<Rightarrow> bool" where
  "rebalanced s s' \<longleftrightarrow> same_but_balance (s_heap s) (s_heap s')
     \<and> s_nodeByRoot s' = s_nodeByRoot s \<and> s_treeRootNode s' = s_treeRootNode s
     \<and> s_headNode s' = s_headNode s \<and> s_highestReceivedNode s' = s_highestReceivedNode s
     \<and> s_justifiedCheckpoint s' = s_justifiedCheckpoint s
     \<and> s_finalizedCheckpoint s' = s_finalizedCheckpoint s \<and> s_genesisTime s' = s_genesisTime s"

lemma rebalanced_refl [simp]: "rebalanced s s"
  by (simp add: rebalanced_def same_but_balance_def)

lemma rebalanced_trans: "rebalanced s1 s2 \<Longrightarrow> rebalanced s2 s3 \<Longrightarrow> rebalanced s1 s3"
  by (simp add: rebalanced_def same_but_balance_def)

lemma rebalanced_onNode: "rebalanced s (onNode n (\<lambda>nd. nd\<lparr>n_balance := x\<rparr>) s)"
  by (cases "n < length (s_heap s)")
     (auto simp: rebalanced_def same_but_balance_def nth_list_update list_update_beyond)

lemma rebalanced_balance: "rebalanced s (addBalance r b s)" "rebalanced s (subBalance r b s)"
  by (auto simp: addBalance_def subBalance_def rebalanced_onNode split: option.split)

lemma rebalanced_updateVote: "rebalanced s (snd (updateVote ob nb i (v, s)))"
proof -
  have "rebalanced s (subBalance r x (addBalance r' y s))" for r x r' y
    using rebalanced_balance rebalanced_trans by blast
  then show ?thesis by (simp add: updateVote_def Let_def)
qed

lemma rebalanced_updateVotesLoop: "rebalanced s (snd (updateVotesLoop ob nb i vs s))"
proof (induction vs arbitrary: i s)
  case (Cons v vs)
  obtain v' s' where run: "updateVote ob nb i (v, s) = (v', s')" by (meson surj_pair)
  obtain vs' s'' where run': "updateVotesLoop ob nb (Suc i) vs s' = (vs', s'')" by (meson surj_pair)
  have "rebalanced s s'" using rebalanced_updateVote [of s ob nb i v] run by simp
  moreover have "rebalanced s' s''" using Cons.IH [of s' "Suc i"] run' by simp
  ultimately show ?case using rebalanced_trans by (auto simp: run run')
qed simp

lemma rebalanced_updateBalances: "rebalanced (f_store f) (f_store (updateBalances f))"
  using rebalanced_updateVotesLoop [of "f_store f" "f_balances f" "f_justifiedBalances f" 0 "f_votes f"]
  by (auto simp: updateBalances_def split: prod.split)

lemma rebalanced_applyProposerBoostScore:
  "rebalanced (f_store f) (f_store (applyProposerBoostScore cfg f))"
proof -
  have 1: "rebalanced s (removePreviousBoost s)" for s
    by (auto simp: removePreviousBoost_def rebalanced_onNode split: option.split)
  have 2: "rebalanced s s' \<Longrightarrow> rebalanced s (s'\<lparr>s_previousProposerBoostRoot := x, s_previousProposerBoostScore := y\<rparr>)"
    for s s' x y by (simp add: rebalanced_def)
  let ?s = "removePreviousBoost (f_store f)"
  have "rebalanced (f_store f) (onNode n (\<lambda>nd. nd\<lparr>n_balance := x\<rparr>) ?s)" for n x
    using rebalanced_trans [OF 1 rebalanced_onNode] .
  then show ?thesis
    by (auto simp: applyProposerBoostScore_def Let_def 1 intro!: 2 split: option.split)
qed

lemma rebalanced_ok:
  assumes "rebalanced s s'" and "store_ok s"
  shows "store_ok s'" and "complete s \<Longrightarrow> complete s'"
proof -
  have h: "same_but_balance (s_heap s) (s_heap s')" and f: "s_nodeByRoot s' = s_nodeByRoot s"
    "s_treeRootNode s' = s_treeRootNode s" "s_headNode s' = s_headNode s"
    "s_highestReceivedNode s' = s_highestReceivedNode s"
    using assms(1) by (simp_all add: rebalanced_def)
  note t = same_but_balance_tree [OF h]
  show "store_ok s'"
    using store_ok_cong [OF assms(2) t(1) t(2) [OF store_okD(2) [OF assms(2)]]] f assms(2)
    by (simp add: store_ok_def)
  show "complete s \<Longrightarrow> complete s'" using complete_cong [OF assms(2) _ t(1)] f by simp
qed

section \<open>The weight pass\<close>

lemma weight_pass:
  assumes t: "tree_heap h" and b: "best_in h" and n: "n < length h"
  obtains h' where "applyWeightChanges (length h) background n h = (Inr (), h')"
    and "same_tree h h'" and "best_in h'"
    and "\<And>d. desc h n d \<Longrightarrow> weight.settled h h' d"
    and "\<And>d. d < length h \<Longrightarrow> \<exists>w. h' ! d = (h ! d)\<lparr>n_weight := w\<rparr>"
proof -
  let ?h' = "post weightUpd (length h) n h"
  have spec: "same_links h ?h'" "\<And>d. desc h n d \<Longrightarrow> weight.settled h ?h' d"
    "\<And>d. d < length h \<Longrightarrow> \<not> desc h n d \<Longrightarrow> ?h' ! d = h ! d"
    using weight.post_spec [OF t same_links_refl n, of "length h"] by auto
  have upd: "\<exists>w. weightUpd nd cs = nd\<lparr>n_weight := w\<rparr>" for nd cs
    unfolding weightUpd_def by (cases nd) auto
  have w: "\<exists>w. ?h' ! d = (h ! d)\<lparr>n_weight := w\<rparr>" if "d < length h" for d
  proof (cases "desc h n d")
    case True
    with spec(2) upd show ?thesis by (auto simp: weight.settled_def)
  next
    case False
    have "nd = nd\<lparr>n_weight := n_weight nd\<rparr>" for nd :: Node by simp
    with spec(3) [OF that False] show ?thesis by metis
  qed
  have len: "length ?h' = length h" using spec(1) by (simp add: same_links_def)
  have "n_root (?h' ! d) = n_root (h ! d)" "n_bestDescendant (?h' ! d) = n_bestDescendant (h ! d)"
    if "d < length h" for d using w [OF that] by auto
  then have "same_tree h ?h'" "best_in ?h'" using spec(1) b len by (simp_all add: same_tree_def best_in_def)
  then show ?thesis
    using that applyWeightChanges_post [OF t same_links_refl n, of "length h"] spec(2) w by simp
qed

section \<open>The head\<close>

definition justifiedNode :: "Store \<Rightarrow> addr option" where
  "justifiedNode s = (case nodeOf s (cp_Root (s_justifiedCheckpoint s)) of
     Some n \<Rightarrow> Some n
   | None \<Rightarrow> if cp_Epoch (s_justifiedCheckpoint s) = GenesisEpoch then s_treeRootNode s else None)"

lemma justifiedNode_cong:
  "s_nodeByRoot s' = s_nodeByRoot s \<Longrightarrow> s_justifiedCheckpoint s' = s_justifiedCheckpoint s \<Longrightarrow>
    s_treeRootNode s' = s_treeRootNode s \<Longrightarrow> justifiedNode s' = justifiedNode s"
  by (simp add: justifiedNode_def cong: option.case_cong)

lemma justifiedNode_desc:
  assumes "store_ok s" and "s_treeRootNode s = Some t" and "justifiedNode s = Some j"
  shows "desc (s_heap s) t j"
  using assms nodeOf_ok [OF store_okD(3) [OF assms(1)]]
  by (auto simp: justifiedNode_def split: option.splits if_splits)

lemma Store_head_eq:
  assumes "justifiedNode s = Some j"
  shows "Store_head cfg background now s =
    (let d = (case n_bestDescendant (s_heap s ! j) of None \<Rightarrow> j | Some d \<Rightarrow> d) in
     if viableForHead (s_heap s ! d) (cp_Epoch (s_justifiedCheckpoint s)) (EpochsSinceGenesis cfg now (s_genesisTime s))
     then (Inr (n_root (s_heap s ! d)), s\<lparr>s_allTipsAreInvalid := False, s_headNode := Some d\<rparr>)
     else (Inl ErrHeadNotEligible, s\<lparr>s_allTipsAreInvalid := True\<rparr>))"
proof -
  have "(case nodeOf s (cp_Root (s_justifiedCheckpoint s)) of
           Some n \<Rightarrow> Inr (Some n)
         | None \<Rightarrow> if cp_Epoch (s_justifiedCheckpoint s) = GenesisEpoch then Inr (s_treeRootNode s)
                   else Inl ErrUnknownJustifiedRoot) = Inr (Some j)"
    using assms by (simp add: justifiedNode_def split: option.splits if_splits)
  then show ?thesis unfolding Store_head_def Let_def by simp
qed

text \<open>The store after the weight and the best-descendant pass.\<close>

lemma passes:
  assumes ok: "store_ok s" and c: "complete s" and t: "s_treeRootNode s = Some t"
  obtains h2 h where "rootWeightChanges background s = (Inr (), s\<lparr>s_heap := h2\<rparr>)"
    and "rootBestDescendant background je fe ce (s\<lparr>s_heap := h2\<rparr>) = (Inr (), s\<lparr>s_heap := h\<rparr>)"
    and "same_tree (s_heap s) h" and "best_in h"
    and "\<And>a. a < length (s_heap s) \<Longrightarrow> n_balance (h ! a) = n_balance (s_heap s ! a)
      \<and> n_justifiedEpoch (h ! a) = n_justifiedEpoch (s_heap s ! a)"
    and "\<And>a. desc (s_heap s) t a \<Longrightarrow> best_settled je ce h a"
    and "\<And>a. (\<And>d. desc (s_heap s) t d \<Longrightarrow> n_root (s_heap s ! d) \<noteq> ZeroHash) \<Longrightarrow>
      (\<Sum>d | desc (s_heap s) t d. unat (n_balance (s_heap s ! d))) < 2 ^ 64 \<Longrightarrow> desc (s_heap s) t a \<Longrightarrow>
      unat (n_weight (h ! a)) = (\<Sum>e | desc (s_heap s) a e. unat (n_balance (s_heap s ! e)))"
proof -
  let ?h = "s_heap s"
  note th = store_okD(1) [OF ok] and b = store_okD(2) [OF ok] and tl = store_okD(4) [OF ok t]
  obtain h2 where run2: "applyWeightChanges (length ?h) background t ?h = (Inr (), h2)"
    and tree2: "same_tree ?h h2" and b2: "best_in h2"
    and settled: "\<And>d. desc ?h t d \<Longrightarrow> weight.settled ?h h2 d"
    and w2: "\<And>d. d < length ?h \<Longrightarrow> \<exists>w. h2 ! d = (?h ! d)\<lparr>n_weight := w\<rparr>"
    using weight_pass [OF th b tl] by metis
  note links2 = same_treeD(2) [OF tree2] and len2 = same_treeD(1) [OF tree2]
  note th2 = same_links_tree_heap [OF links2 th]
  have tl2: "t < length h2" using tl len2 by simp
  obtain h3 where run3: "updateBestDescendant (length h2) background je fe ce t h2 = (Inr (), h3)"
    and same3: "same_but_best h2 h3" and b3: "best_in h3"
    and best: "\<And>d. desc h2 t d \<Longrightarrow> best_settled je ce h3 d"
    using updateBestDescendant_settled [OF th2 b2 tl2 diff_le_self] by metis
  have run: "rootWeightChanges background s = (Inr (), s\<lparr>s_heap := h2\<rparr>)"
    "rootBestDescendant background je fe ce (s\<lparr>s_heap := h2\<rparr>) = (Inr (), s\<lparr>s_heap := h3\<rparr>)"
    by (simp_all add: rootWeightChanges_def rootBestDescendant_def t onHeap_def run2 run3)
  have tree: "same_tree ?h h3" using tree2 same_but_best_tree [OF same3] same_tree_trans by blast
  have "n_balance (h3 ! a) = n_balance (?h ! a) \<and> n_justifiedEpoch (h3 ! a) = n_justifiedEpoch (?h ! a)
      \<and> n_weight (h3 ! a) = n_weight (h2 ! a)" if a: "a < length ?h" for a
  proof -
    have "(h3 ! a)\<lparr>n_bestDescendant := None\<rparr> = (h2 ! a)\<lparr>n_bestDescendant := None\<rparr>"
      using same3 a len2 by (simp add: same_but_best_def)
    moreover obtain w where "h2 ! a = (?h ! a)\<lparr>n_weight := w\<rparr>" using w2 [OF a] by blast
    ultimately show ?thesis by (cases "h3 ! a"; cases "?h ! a") simp
  qed
  note same = this
  have desc2: "desc h2 t a \<longleftrightarrow> desc ?h t a" for a by (rule same_links_desc_iff [OF links2 th tl])
  show ?thesis
  proof (rule that [OF run tree b3])
    show "n_balance (h3 ! a) = n_balance (?h ! a) \<and> n_justifiedEpoch (h3 ! a) = n_justifiedEpoch (?h ! a)"
      if "a < length ?h" for a using same [OF that] by blast
    show "best_settled je ce h3 a" if "desc ?h t a" for a using best that by (simp add: desc2)
    show "unat (n_weight (h3 ! a)) = (\<Sum>e | desc ?h a e. unat (n_balance (?h ! e)))"
      if "\<And>d. desc ?h t d \<Longrightarrow> n_root (?h ! d) \<noteq> ZeroHash"
        "(\<Sum>d | desc ?h t d. unat (n_balance (?h ! d))) < 2 ^ 64" "desc ?h t a" for a
    proof -
      have "a < length ?h" using that(3) desc_range th tl by blast
      then show ?thesis using settled_weights [OF th settled that(1,2) tl that(3)] same by simp
    qed
  qed
qed

definition bestFrom :: "heap \<Rightarrow> addr \<Rightarrow> addr" where
  "bestFrom h j = (case n_bestDescendant (h ! j) of None \<Rightarrow> j | Some d \<Rightarrow> d)"

text \<open>The state the two passes leave, and where the justified node's link leads.\<close>

lemma passes_ghost:
  assumes ok: "store_ok s" and c: "complete s" and t: "s_treeRootNode s = Some t" and j: "justifiedNode s = Some j"
    and tree: "same_tree (s_heap s) h" and b: "best_in h"
    and best: "\<And>a. desc (s_heap s) t a \<Longrightarrow> best_settled je ce h a"
  shows "store_ok (s\<lparr>s_heap := h\<rparr>)" and "complete (s\<lparr>s_heap := h\<rparr>)"
    and "ghost h (viable_below h je ce) j (bestFrom h j)" and "desc h t j"
proof -
  show ok': "store_ok (s\<lparr>s_heap := h\<rparr>)" "complete (s\<lparr>s_heap := h\<rparr>)"
    using store_ok_cong [OF ok, of "s\<lparr>s_heap := h\<rparr>"] complete_cong [OF ok c, of "s\<lparr>s_heap := h\<rparr>"] tree b ok
    by (simp_all add: store_ok_def)
  have th: "tree_heap h" "t < length h" using store_okD(1,4) [OF ok'(1)] t by simp_all
  have desc_h: "desc h t a \<longleftrightarrow> desc (s_heap s) t a" for a
    using same_links_desc_iff [OF same_treeD(2) [OF tree] store_okD(1,4) [OF ok]] t by simp
  show jd: "desc h t j" using justifiedNode_desc [OF ok t j] by (simp add: desc_h)
  show "ghost h (viable_below h je ce) j (bestFrom h j)"
    using settled_ghost [OF th _ jd, of je ce] best desc_h by (simp add: bestFrom_def)
qed

text \<open>The accounts \<^verbatim>\<open>Head\<close> starts from, and the epoch of a clock reading.\<close>

definition accounted :: "BeaconChainConfig \<Rightarrow> ForkChoice \<Rightarrow> ForkChoice" where
  "accounted cfg f = applyProposerBoostScore cfg (updateBalances f)"

abbreviation epochAt :: "BeaconChainConfig \<Rightarrow> Time \<Rightarrow> ForkChoice \<Rightarrow> Epoch" where
  "epochAt cfg now f \<equiv> EpochsSinceGenesis cfg now (s_genesisTime (f_store f))"

abbreviation justEpoch :: "ForkChoice \<Rightarrow> Epoch" where
  "justEpoch f \<equiv> cp_Epoch (s_justifiedCheckpoint (f_store f))"

lemma accounted_rebalanced: "rebalanced (f_store f) (f_store (accounted cfg f))"
  unfolding accounted_def
  using rebalanced_trans [OF rebalanced_updateBalances rebalanced_applyProposerBoostScore] .

lemma accounted_ok:
  assumes "store_ok (f_store f)" and "complete (f_store f)"
  shows "store_ok (f_store (accounted cfg f))" "complete (f_store (accounted cfg f))"
    "s_treeRootNode (f_store (accounted cfg f)) = s_treeRootNode (f_store f)"
    "s_justifiedCheckpoint (f_store (accounted cfg f)) = s_justifiedCheckpoint (f_store f)"
    "s_genesisTime (f_store (accounted cfg f)) = s_genesisTime (f_store f)"
    "justifiedNode (f_store (accounted cfg f)) = justifiedNode (f_store f)"
    "same_tree (s_heap (f_store f)) (s_heap (f_store (accounted cfg f)))"
  using rebalanced_ok [OF accounted_rebalanced assms(1)] assms(2) accounted_rebalanced [of f cfg]
  by (simp_all add: rebalanced_def justifiedNode_def same_but_balance_tree cong: option.case_cong)

lemma FC_Head_run:
  assumes ok: "store_ok (f_store f)" and c: "complete (f_store f)"
    and t: "s_treeRootNode (f_store f) = Some t" and j: "justifiedNode (f_store f) = Some j"
  shows "\<exists>f' h. FC_Head cfg background clk f =
      (if viableForHead (h ! bestFrom h j) (justEpoch f) (epochAt cfg (clk 1) f)
       then Inr (n_root (h ! bestFrom h j)) else Inl ErrHeadNotEligible, f')
    \<and> s_heap (f_store f') = h \<and> s_treeRootNode (f_store f') = Some t
    \<and> store_ok (f_store f') \<and> complete (f_store f')
    \<and> same_tree (s_heap (f_store f)) h \<and> desc h t j
    \<and> ghost h (viable_below h (justEpoch f) (epochAt cfg (clk 0) f)) j (bestFrom h j)
    \<and> (\<forall>a < length h. n_balance (h ! a) = n_balance (f_node (accounted cfg f) a))
    \<and> ((\<forall>d. desc h t d \<longrightarrow> n_root (h ! d) \<noteq> ZeroHash) \<longrightarrow>
       (\<Sum>d | desc h t d. unat (n_balance (h ! d))) < 2 ^ 64 \<longrightarrow>
       (\<forall>a. desc h t a \<longrightarrow> unat (n_weight (h ! a)) = (\<Sum>e | desc h a e. unat (n_balance (h ! e)))))"
proof -
  define f1 where "f1 = accounted cfg f"
  let ?s = "f_store f1" and ?je = "justEpoch f" and ?ce = "\<lambda>i. epochAt cfg (clk i) f"
  note a = accounted_ok [OF ok c, of cfg, folded f1_def]
  have t1: "s_treeRootNode ?s = Some t" and j1: "justifiedNode ?s = Some j" using a t j by simp_all
  obtain h2 h where run: "rootWeightChanges background ?s = (Inr (), ?s\<lparr>s_heap := h2\<rparr>)"
    "rootBestDescendant background ?je (cp_Epoch (s_finalizedCheckpoint ?s)) (?ce 0) (?s\<lparr>s_heap := h2\<rparr>)
       = (Inr (), ?s\<lparr>s_heap := h\<rparr>)"
    and tree: "same_tree (s_heap ?s) h" and b: "best_in h"
    and same: "\<And>a. a < length (s_heap ?s) \<Longrightarrow> n_balance (h ! a) = n_balance (s_heap ?s ! a)
      \<and> n_justifiedEpoch (h ! a) = n_justifiedEpoch (s_heap ?s ! a)"
    and best: "\<And>a. desc (s_heap ?s) t a \<Longrightarrow> best_settled ?je (?ce 0) h a"
    and weights: "\<And>a. (\<And>d. desc (s_heap ?s) t d \<Longrightarrow> n_root (s_heap ?s ! d) \<noteq> ZeroHash) \<Longrightarrow>
      (\<Sum>d | desc (s_heap ?s) t d. unat (n_balance (s_heap ?s ! d))) < 2 ^ 64 \<Longrightarrow> desc (s_heap ?s) t a \<Longrightarrow>
      unat (n_weight (h ! a)) = (\<Sum>e | desc (s_heap ?s) a e. unat (n_balance (s_heap ?s ! e)))"
    by (fact passes [OF a(1,2) t1])
  have g: "store_ok (?s\<lparr>s_heap := h\<rparr>)" "complete (?s\<lparr>s_heap := h\<rparr>)"
    "ghost h (viable_below h ?je (?ce 0)) j (bestFrom h j)" "desc h t j"
    by (rule passes_ghost [OF a(1,2) t1 j1 tree b]; fact best)+
  let ?s3 = "?s\<lparr>s_heap := h\<rparr>" and ?d = "bestFrom h j"
  let ?v = "viableForHead (h ! ?d) ?je (?ce 1)"
  obtain s4 where s4_def: "s4 = (if ?v then ?s3\<lparr>s_allTipsAreInvalid := False, s_headNode := Some ?d\<rparr>
    else ?s3\<lparr>s_allTipsAreInvalid := True\<rparr>)" by blast
  have j3: "justifiedNode ?s3 = Some j" using j1 justifiedNode_cong [of ?s3 ?s] by simp
  have "Store_head cfg background (clk 1) ?s3 =
      (if ?v then Inr (n_root (h ! ?d)) else Inl ErrHeadNotEligible, s4)"
    unfolding Store_head_eq [OF j3] by (simp add: Let_def bestFrom_def [symmetric] a(4,5) s4_def)
  then have main: "FC_Head cfg background clk f =
      (if ?v then Inr (n_root (h ! ?d)) else Inl ErrHeadNotEligible, f1\<lparr>f_store := s4\<rparr>)"
    unfolding FC_Head_def accounted_def [symmetric] f1_def [symmetric]
    by (simp add: Let_def onStore_def run a(4,5))
  have dl: "?d < length h"
    using desc_range [OF ghost_desc [OF g(3)]] desc_range [OF g(4)] store_okD(1,4) [OF g(1)] t1 by auto
  have s4: "s_heap s4 = h" "s_treeRootNode s4 = Some t" "store_ok s4" "complete s4"
    using g(1,2) t1 store_ok_cong [OF g(1), of s4] complete_cong [OF g(1,2), of s4] dl
    by (auto simp: s4_def store_ok_def addr_in_def)
  have len: "length h = length (s_heap ?s)" using same_treeD(1) [OF tree] .
  have th: "tree_heap (s_heap ?s)" "t < length (s_heap ?s)" using store_okD(1,4) [OF a(1)] t1 by auto
  note iff = same_links_desc_iff [OF same_treeD(2) [OF tree] th(1)]
  have range: "x < length (s_heap ?s)" if "desc (s_heap ?s) y x" "y < length (s_heap ?s)" for x y
    using that desc_range th(1) by blast
  have eq: "(\<Sum>e | desc h y e. unat (n_balance (h ! e))) = (\<Sum>e | desc (s_heap ?s) y e. unat (n_balance (s_heap ?s ! e)))"
    if "y < length (s_heap ?s)" for y
    using that same range by (intro sum.cong) (auto simp: iff)
  have W: "unat (n_weight (h ! x)) = (\<Sum>e | desc h x e. unat (n_balance (h ! e)))"
    if r: "\<And>d. desc h t d \<Longrightarrow> n_root (h ! d) \<noteq> ZeroHash"
      and sum: "(\<Sum>d | desc h t d. unat (n_balance (h ! d))) < 2 ^ 64" and x: "desc h t x" for x
  proof -
    have x': "desc (s_heap ?s) t x" using x by (simp add: iff [OF th(2)])
    have xl: "x < length (s_heap ?s)" using range [OF x' th(2)] .
    have "n_root (s_heap ?s ! y) \<noteq> ZeroHash" if y: "desc (s_heap ?s) t y" for y
      using r [of y] y range [OF y th(2)] same_treeD(3) [OF tree] by (simp add: iff [OF th(2)])
    then show ?thesis using weights [OF _ _ x'] sum unfolding eq [OF th(2)] eq [OF xl] by blast
  qed
  have B: "n_balance (h ! x) = n_balance (f_node (accounted cfg f) x)" if "x < length h" for x
    using same that len by (simp add: f1_def)
  show ?thesis
    by (intro exI [of _ "f1\<lparr>f_store := s4\<rparr>"] exI [of _ h] conjI allI impI)
       (use main s4 g B W same_tree_trans [OF a(7) tree] in simp_all)
qed

end
