(* ===== verification/FC_Votes.thy ===== *)
theory FC_Votes
  imports FC_Head
begin

text \<open>
  The accounts of the fork choice: the balance of a block is what the validators that vote for it hold, plus the proposer boost. The
  theory shows that \<^verbatim>\<open>updateBalances\<close> and \<^verbatim>\<open>applyProposerBoostScore\<close> move the accounts from the last votes and balances to the new
  ones, and that new attestations and slashed validators keep them.
\<close>

section \<open>What the votes add up to\<close>

text \<open>The balance of the validators that are not slashed and whose vote satisfies \<open>P\<close>.\<close>

definition voting :: "ValidatorIndex set \<Rightarrow> u64 list \<Rightarrow> (Vote \<Rightarrow> bool) \<Rightarrow> Vote list \<Rightarrow> nat" where
  "voting slashed bs P votes =
     (\<Sum>i | i < length votes \<and> of_nat i \<notin> slashed \<and> P (votes ! i). unat (balanceAt bs i))"

text \<open>The same along the list, from the index \<open>i\<close> on.\<close>

fun tally :: "ValidatorIndex set \<Rightarrow> u64 list \<Rightarrow> (Vote \<Rightarrow> bool) \<Rightarrow> nat \<Rightarrow> Vote list \<Rightarrow> nat" where
  "tally slashed bs P i [] = 0"
| "tally slashed bs P i (v # vs) =
     (if of_nat i \<notin> slashed \<and> P v then unat (balanceAt bs i) else 0) + tally slashed bs P (Suc i) vs"

lemma tally_snoc:
  "tally slashed bs P i (vs @ [v]) = tally slashed bs P i vs
     + (if of_nat (i + length vs) \<notin> slashed \<and> P v then unat (balanceAt bs (i + length vs)) else 0)"
  by (induction vs arbitrary: i) (simp_all add: add.assoc)

lemma voting_tally [code]: "voting slashed bs P vs = tally slashed bs P 0 vs"
proof (induction vs rule: rev_induct)
  case (snoc v vs)
  let ?I = "{i. i < length vs \<and> of_nat i \<notin> slashed \<and> P (vs ! i)}"
  have "{i. i < length (vs @ [v]) \<and> of_nat i \<notin> slashed \<and> P ((vs @ [v]) ! i)}
      = (if of_nat (length vs) \<notin> slashed \<and> P v then insert (length vs) ?I else ?I)"
    by (auto simp: nth_append less_Suc_eq)
  then show ?case using snoc by (simp add: voting_def tally_snoc)
qed (simp add: voting_def)

lemma tally_cong: "(\<And>v. v \<in> set vs \<Longrightarrow> P v \<longleftrightarrow> Q v) \<Longrightarrow> tally slashed bs P i vs = tally slashed bs Q i vs"
  by (induction vs arbitrary: i) auto

lemma tally_le_sum: "tally slashed bs P i vs \<le> sum_list (map unat (drop i bs))"
proof (induction vs arbitrary: i)
  case (Cons v vs)
  have "unat (balanceAt bs i) + sum_list (map unat (drop (Suc i) bs)) \<le> sum_list (map unat (drop i bs))"
    by (cases "i < length bs") (simp_all add: balanceAt_def Cons_nth_drop_Suc [symmetric])
  then show ?case using Cons.IH [of "Suc i"] by simp
qed simp

text \<open>Votes for the roots of a set are the votes for each of them.\<close>

lemma tally_roots:
  assumes "finite R"
  shows "tally slashed bs (\<lambda>v. sel v \<in> R) i vs = (\<Sum>r \<in> R. tally slashed bs (\<lambda>v. sel v = r) i vs)"
proof (induction vs arbitrary: i)
  case (Cons v vs)
  have "(\<Sum>r \<in> R. if of_nat i \<notin> slashed \<and> sel v = r then unat (balanceAt bs i) else 0)
      = (if of_nat i \<notin> slashed \<and> sel v \<in> R then unat (balanceAt bs i) else 0)"
    using assms by (cases "of_nat i \<in> slashed") (simp_all add: sum.delta')
  then show ?case using Cons by (simp add: sum.distrib)
qed simp

section \<open>Accounts of a store\<close>

text \<open>Every known block but one with the zero root has the balance \<open>w\<close> gives for its root.\<close>

definition accounts :: "Store \<Rightarrow> (bytes32 \<Rightarrow> nat) \<Rightarrow> bool" where
  "accounts s w \<longleftrightarrow> (\<forall>r n. nodeOf s r = Some n \<longrightarrow> r \<noteq> ZeroHash \<longrightarrow> unat (n_balance (s_heap s ! n)) = w r)"

lemma accounts_cong: "accounts s w \<Longrightarrow> (\<And>r. r \<noteq> ZeroHash \<Longrightarrow> nodeOf s r \<noteq> None \<Longrightarrow> w r = w' r) \<Longrightarrow> accounts s w'"
  by (auto simp: accounts_def)

lemma accounts_onNode:
  assumes "store_ok s" "accounts s w" "nodeOf s r = Some n" "unat x = y"
  shows "accounts (onNode n (\<lambda>nd. nd\<lparr>n_balance := x\<rparr>) s) (w(r := y))"
  unfolding accounts_def
proof (intro allI impI)
  fix r' n' assume known: "nodeOf (onNode n (\<lambda>nd. nd\<lparr>n_balance := x\<rparr>) s) r' = Some n'" and nz: "r' \<noteq> ZeroHash"
  note n = nodeOf_range [OF assms(1,3)]
  have n': "n' < length (s_heap s)" "n_root (s_heap s ! n') = r'" using nodeOf_range [OF assms(1)] known by simp_all
  have "nodeOf s r' = Some n'" using known by simp
  then have "n' = n \<longleftrightarrow> r' = r" using n(2) n'(2) assms(3) by (metis option.inject)
  then show "unat (n_balance (s_heap (onNode n (\<lambda>nd. nd\<lparr>n_balance := x\<rparr>) s) ! n')) = (w(r := y)) r'"
    using assms(2,4) known nz n'(1) by (auto simp: accounts_def nth_list_update)
qed

lemma accounts_add:
  assumes "store_ok s" "accounts s w" "w r + unat b < 2 ^ 64"
  shows "accounts (addBalance r b s) (w(r := w r + unat b))"
proof (cases "\<exists>n. nodeOf s r = Some n \<and> r \<noteq> ZeroHash")
  case True
  then obtain n where n: "nodeOf s r = Some n" "r \<noteq> ZeroHash" by blast
  then have "unat (n_balance (s_heap s ! n)) = w r" using assms(2) by (simp add: accounts_def)
  then have "unat (n_balance (s_heap s ! n) + b) = w r + unat b" using assms(3) by (subst unat_add_exact) simp_all
  from accounts_onNode [OF assms(1,2) n(1) this] show ?thesis using n by (simp add: addBalance_def)
next
  case False
  then have "addBalance r b s = s" by (auto simp: addBalance_def split: option.split)
  then show ?thesis using False assms(2) by (auto simp: accounts_def)
qed

lemma accounts_sub:
  assumes "store_ok s" "accounts s w" "unat b \<le> w r"
  shows "accounts (subBalance r b s) (w(r := w r - unat b))"
proof (cases "\<exists>n. nodeOf s r = Some n \<and> r \<noteq> ZeroHash")
  case True
  then obtain n where n: "nodeOf s r = Some n" "r \<noteq> ZeroHash" by blast
  then have bal: "unat (n_balance (s_heap s ! n)) = w r" using assms(2) by (simp add: accounts_def)
  then have "\<not> n_balance (s_heap s ! n) < b" using assms(3) by (simp add: word_less_unat)
  then have "unat (if n_balance (s_heap s ! n) < b then 0 else n_balance (s_heap s ! n) - b) = w r - unat b"
    using bal by (simp add: unat_minus_u64 not_less)
  from accounts_onNode [OF assms(1,2) n(1) this] show ?thesis using n by (simp add: subBalance_def)
next
  case False
  then have "subBalance r b s = s" by (auto simp: subBalance_def split: option.split)
  then show ?thesis using False assms(2) by (auto simp: accounts_def)
qed

section \<open>The vote accounting\<close>

lemma store_ok_balance: "store_ok s \<Longrightarrow> store_ok (addBalance r b s)" "store_ok s \<Longrightarrow> store_ok (subBalance r b s)"
  using rebalanced_ok(1) rebalanced_balance by blast+

lemma nodeOf_balance [simp]: "s_nodeByRoot (addBalance r b s) = s_nodeByRoot s" "s_nodeByRoot (subBalance r b s) = s_nodeByRoot s"
  by (simp_all add: addBalance_def subBalance_def split: option.split)

lemma slashed_balance [simp]: "s_slashedIndices (addBalance r b s) = s_slashedIndices s" "s_slashedIndices (subBalance r b s) = s_slashedIndices s"
  by (simp_all add: addBalance_def subBalance_def split: option.split)

text \<open>What one vote contributes to a root.\<close>

abbreviation share :: "ValidatorIndex set \<Rightarrow> u64 list \<Rightarrow> nat \<Rightarrow> bool \<Rightarrow> nat" where
  "share slashed bs i b \<equiv> (if of_nat i \<notin> slashed \<and> b then unat (balanceAt bs i) else 0)"

lemma updateVote_accounts:
  assumes ok: "store_ok s" and acc: "accounts s (\<lambda>r. w r + share (s_slashedIndices s) ob i (v_currentRoot v = r))"
    and fits: "\<And>r. w r + unat (balanceAt ob i) + unat (balanceAt nb i) < 2 ^ 64"
    and run: "updateVote ob nb i (v, s) = (v', s')"
  shows "accounts s' (\<lambda>r. w r + share (s_slashedIndices s) nb i (v_nextRoot v = r))"
proof (cases "of_nat i \<in> s_slashedIndices s \<or> v_currentRoot v = ZeroHash \<and> v_nextRoot v = ZeroHash
    \<or> v_currentRoot v = v_nextRoot v \<and> balanceAt ob i = balanceAt nb i")
  case True
  then have "s' = s" using run by (auto simp: updateVote_def Let_def split: if_splits)
  then show ?thesis using True by (auto intro!: accounts_cong [OF acc])
next
  case False
  let ?o = "unat (balanceAt ob i)" and ?n = "unat (balanceAt nb i)" and ?c = "v_currentRoot v" and ?x = "v_nextRoot v"
  let ?w = "\<lambda>r. w r + (if ?c = r then ?o else 0)"
  have s': "s' = subBalance ?c (balanceAt ob i) (addBalance ?x (balanceAt nb i) s)"
    using run False by (auto simp: updateVote_def Let_def split: if_splits)
  have "accounts s ?w" using acc False by simp
  then have "accounts (addBalance ?x (balanceAt nb i) s) (?w(?x := ?w ?x + ?n))"
    using fits [of ?x] by (intro accounts_add [OF ok]) auto
  then have "accounts s' ((?w(?x := ?w ?x + ?n))(?c := (?w(?x := ?w ?x + ?n)) ?c - ?o))"
    unfolding s' by (rule accounts_sub [OF store_ok_balance(1) [OF ok]]) simp
  moreover have "(?w(?x := ?w ?x + ?n))(?c := (?w(?x := ?w ?x + ?n)) ?c - ?o) = (\<lambda>r. w r + (if ?x = r then ?n else 0))"
    by auto
  ultimately show ?thesis using False by simp
qed

lemma updateVote_frame:
  assumes "updateVote ob nb i (v, s) = (v', s')"
  shows "s_nodeByRoot s' = s_nodeByRoot s" "s_slashedIndices s' = s_slashedIndices s" "store_ok s \<Longrightarrow> store_ok s'"
    "v_nextRoot v' = v_nextRoot v" "of_nat i \<notin> s_slashedIndices s \<Longrightarrow> v_currentRoot v' = v_nextRoot v"
  using assms rebalanced_ok(1) [OF rebalanced_updateVote, of s ob nb i v]
  by (auto simp: updateVote_def Let_def split: if_splits)

lemma updateVotesLoop_accounts:
  assumes "store_ok s" "accounts s (\<lambda>r. w r + tally (s_slashedIndices s) ob (\<lambda>v. v_currentRoot v = r) i vs)"
    and "\<And>r. w r + sum_list (map unat (drop i ob)) + sum_list (map unat (drop i nb)) < 2 ^ 64"
    and "updateVotesLoop ob nb i vs s = (vs', s')"
  shows "accounts s' (\<lambda>r. w r + tally (s_slashedIndices s) nb (\<lambda>v. v_nextRoot v = r) i vs)
    \<and> s_nodeByRoot s' = s_nodeByRoot s \<and> s_slashedIndices s' = s_slashedIndices s \<and> store_ok s' \<and> length vs' = length vs
    \<and> (\<forall>k < length vs. of_nat (i + k) \<notin> s_slashedIndices s \<longrightarrow> v_currentRoot (vs' ! k) = v_nextRoot (vs ! k))"
  using assms
proof (induction vs arbitrary: i s s' vs' w)
  case (Cons v vs)
  let ?sl = "s_slashedIndices s" and ?cur = "\<lambda>r v. v_currentRoot v = r" and ?nxt = "\<lambda>r v. v_nextRoot v = r"
  obtain v1 s1 where run1: "updateVote ob nb i (v, s) = (v1, s1)" by (meson surj_pair)
  obtain vs1 s2 where run2: "updateVotesLoop ob nb (Suc i) vs s1 = (vs1, s2)" by (meson surj_pair)
  have out: "vs' = v1 # vs1" "s' = s2" using Cons.prems(4) by (simp_all add: run1 run2)
  note fr = updateVote_frame [OF run1]
  let ?t = "\<lambda>r. tally ?sl ob (?cur r) (Suc i) vs"
  have sums: "sum_list (map unat (drop i xs)) \<ge> unat (balanceAt xs i) + sum_list (map unat (drop (Suc i) xs))" for xs :: "u64 list"
    by (cases "i < length xs") (simp_all add: balanceAt_def Cons_nth_drop_Suc [symmetric])
  have t: "?t r \<le> sum_list (map unat (drop (Suc i) ob))" for r by (rule tally_le_sum)
  have 1: "accounts s1 (\<lambda>r. (w r + ?t r) + share ?sl nb i (?nxt r v))"
  proof (rule updateVote_accounts [OF Cons.prems(1) _ _ run1])
    show "accounts s (\<lambda>r. (w r + ?t r) + share ?sl ob i (?cur r v))" using Cons.prems(2) by (rule accounts_cong) simp
    show "(w r + ?t r) + unat (balanceAt ob i) + unat (balanceAt nb i) < 2 ^ 64" for r
      using Cons.prems(3) [of r] sums [of ob] sums [of nb] t [of r] by simp
  qed
  have "accounts s2 (\<lambda>r. (w r + share ?sl nb i (?nxt r v)) + tally (s_slashedIndices s1) nb (?nxt r) (Suc i) vs)
    \<and> s_nodeByRoot s2 = s_nodeByRoot s1 \<and> s_slashedIndices s2 = s_slashedIndices s1 \<and> store_ok s2 \<and> length vs1 = length vs
    \<and> (\<forall>k < length vs. of_nat (Suc i + k) \<notin> s_slashedIndices s1 \<longrightarrow> v_currentRoot (vs1 ! k) = v_nextRoot (vs ! k))"
  proof (rule Cons.IH [OF fr(3) [OF Cons.prems(1)] _ _ run2])
    show "accounts s1 (\<lambda>r. (w r + share ?sl nb i (?nxt r v)) + tally (s_slashedIndices s1) ob (?cur r) (Suc i) vs)"
      using 1 by (rule accounts_cong) (simp add: fr(2))
    show "(w r + share ?sl nb i (?nxt r v)) + sum_list (map unat (drop (Suc i) ob)) + sum_list (map unat (drop (Suc i) nb)) < 2 ^ 64" for r
      using Cons.prems(3) [of r] sums [of ob] sums [of nb] by simp
  qed
  note rest = this
  have "accounts s' (\<lambda>r. w r + tally ?sl nb (?nxt r) i (v # vs))" unfolding out using conjunct1 [OF rest] by (rule accounts_cong) (simp add: fr(2))
  then show ?case unfolding out using rest fr by (auto simp: nth_Cons less_Suc_eq_0_disj ac_simps split: nat.split)
qed simp

section \<open>The ledger\<close>

text \<open>The account of a root in terms of the last votes that were paid out and the last boost.\<close>

definition paidOut :: "ForkChoice \<Rightarrow> bytes32 \<Rightarrow> nat" where
  "paidOut f r = voting (s_slashedIndices (f_store f)) (f_balances f) (\<lambda>v. v_currentRoot v = r) (f_votes f)
     + (if r = s_previousProposerBoostRoot (f_store f) then unat (s_previousProposerBoostScore (f_store f)) else 0)"

definition ledger :: "ForkChoice \<Rightarrow> bool" where
  "ledger f \<longleftrightarrow> length (f_votes f) \<le> 2 ^ 64 \<and> accounts (f_store f) (paidOut f)"

text \<open>The score of a boost, and the account of a root in terms of the latest votes.\<close>

definition boostScore :: "BeaconChainConfig \<Rightarrow> ForkChoice \<Rightarrow> u64" where
  "boostScore cfg f = (s_committeeWeight (f_store f) * ProposerScoreBoost cfg) div 100"

definition latestVotes :: "ForkChoice \<Rightarrow> bytes32 set \<Rightarrow> nat" where
  "latestVotes f R = voting (s_slashedIndices (f_store f)) (f_justifiedBalances f) (\<lambda>v. v_nextRoot v \<in> R) (f_votes f)"

definition balances_fit :: "BeaconChainConfig \<Rightarrow> ForkChoice \<Rightarrow> bool" where
  "balances_fit cfg f \<longleftrightarrow> sum_list (map unat (f_balances f)) + sum_list (map unat (f_justifiedBalances f))
     + unat (s_previousProposerBoostScore (f_store f)) + unat (boostScore cfg f) < 2 ^ 64"

abbreviation boostFields :: "Store \<Rightarrow> u64 \<times> bytes32 \<times> bytes32 \<times> u64" where
  "boostFields s \<equiv> (s_committeeWeight s, s_proposerBoostRoot s, s_previousProposerBoostRoot s, s_previousProposerBoostScore s)"

lemma updateBalances_frame: "boostFields (f_store (updateBalances f)) = boostFields (f_store f)"
proof -
  have v: "boostFields (snd (updateVote ob nb i (v, s))) = boostFields s" for ob nb i v s
    by (simp add: updateVote_def Let_def addBalance_def subBalance_def split: option.split)
  have "boostFields (snd (updateVotesLoop ob nb i vs s)) = boostFields s" for ob nb i vs s
  proof (induction vs arbitrary: i s)
    case (Cons a vs)
    then show ?case using v [of ob nb i a s] by (simp add: case_prod_beta Let_def)
  qed simp
  then show ?thesis by (simp add: updateBalances_def case_prod_beta Let_def)
qed

lemma updateBalances_accounts:
  assumes ok: "store_ok (f_store f)" and led: "ledger f" and fits: "balances_fit cfg f"
  shows "accounts (f_store (updateBalances f)) (\<lambda>r. latestVotes f {r}
      + (if r = s_previousProposerBoostRoot (f_store f) then unat (s_previousProposerBoostScore (f_store f)) else 0))"
    "s_nodeByRoot (f_store (updateBalances f)) = s_nodeByRoot (f_store f)"
    "s_slashedIndices (f_store (updateBalances f)) = s_slashedIndices (f_store f)" "store_ok (f_store (updateBalances f))"
    "length (f_votes (updateBalances f)) = length (f_votes f)" "f_balances (updateBalances f) = f_justifiedBalances f"
    "\<forall>k < length (f_votes f). of_nat k \<notin> s_slashedIndices (f_store f) \<longrightarrow>
       v_currentRoot (f_votes (updateBalances f) ! k) = v_nextRoot (f_votes f ! k)"
proof -
  let ?s = "f_store f" and ?ob = "f_balances f" and ?nb = "f_justifiedBalances f"
  let ?w = "\<lambda>r. if r = s_previousProposerBoostRoot ?s then unat (s_previousProposerBoostScore ?s) else 0"
  obtain vs' s' where run: "updateVotesLoop ?ob ?nb 0 (f_votes f) ?s = (vs', s')" by (meson surj_pair)
  have acc: "accounts ?s (\<lambda>r. ?w r + tally (s_slashedIndices ?s) ?ob (\<lambda>v. v_currentRoot v = r) 0 (f_votes f))"
    using led unfolding ledger_def by (elim conjE) (erule accounts_cong, simp add: paidOut_def voting_tally)
  have "?w r + sum_list (map unat (drop 0 ?ob)) + sum_list (map unat (drop 0 ?nb)) < 2 ^ 64" for r
    using fits by (simp add: balances_fit_def)
  from updateVotesLoop_accounts [OF ok acc this run]
  have "accounts s' (\<lambda>r. ?w r + tally (s_slashedIndices ?s) ?nb (\<lambda>v. v_nextRoot v = r) 0 (f_votes f))"
    "s_nodeByRoot s' = s_nodeByRoot ?s" "s_slashedIndices s' = s_slashedIndices ?s" "store_ok s'" "length vs' = length (f_votes f)"
    "\<forall>k < length (f_votes f). of_nat k \<notin> s_slashedIndices ?s \<longrightarrow> v_currentRoot (vs' ! k) = v_nextRoot (f_votes f ! k)" by simp_all
  moreover have "f_store (updateBalances f) = s'" "f_votes (updateBalances f) = vs'" "f_balances (updateBalances f) = ?nb"
    by (simp_all add: updateBalances_def run)
  moreover have "accounts s' (\<lambda>r. latestVotes f {r} + ?w r)"
    using calculation(1) by (rule accounts_cong) (simp add: latestVotes_def voting_tally)
  ultimately show "accounts (f_store (updateBalances f)) (\<lambda>r. latestVotes f {r} + ?w r)"
    "s_nodeByRoot (f_store (updateBalances f)) = s_nodeByRoot (f_store f)"
    "s_slashedIndices (f_store (updateBalances f)) = s_slashedIndices (f_store f)" "store_ok (f_store (updateBalances f))"
    "length (f_votes (updateBalances f)) = length (f_votes f)" "f_balances (updateBalances f) = f_justifiedBalances f"
    "\<forall>k < length (f_votes f). of_nat k \<notin> s_slashedIndices (f_store f) \<longrightarrow>
       v_currentRoot (f_votes (updateBalances f) ! k) = v_nextRoot (f_votes f ! k)" by simp_all
qed

section \<open>The proposer boost\<close>

lemma removePreviousBoost_frame:
  "s_nodeByRoot (removePreviousBoost s) = s_nodeByRoot s" "s_slashedIndices (removePreviousBoost s) = s_slashedIndices s"
  "s_committeeWeight (removePreviousBoost s) = s_committeeWeight s" "s_proposerBoostRoot (removePreviousBoost s) = s_proposerBoostRoot s"
  "store_ok s \<Longrightarrow> store_ok (removePreviousBoost s)"
proof -
  have "rebalanced s (removePreviousBoost s)" by (simp add: removePreviousBoost_def rebalanced_onNode split: option.split)
  then show "store_ok s \<Longrightarrow> store_ok (removePreviousBoost s)" by (rule rebalanced_ok(1))
qed (simp_all add: removePreviousBoost_def split: option.split)

lemma removePreviousBoost_accounts:
  assumes ok: "store_ok s" and acc: "accounts s (\<lambda>r. w r + (if r = s_previousProposerBoostRoot s then unat (s_previousProposerBoostScore s) else 0))"
  shows "accounts (removePreviousBoost s) w"
proof (cases "\<exists>n. nodeOf s (s_previousProposerBoostRoot s) = Some n \<and> s_previousProposerBoostRoot s \<noteq> ZeroHash")
  case True
  let ?r = "s_previousProposerBoostRoot s" and ?x = "s_previousProposerBoostScore s"
  obtain n where n: "nodeOf s ?r = Some n" "?r \<noteq> ZeroHash" using True by blast
  then have "unat (n_balance (s_heap s ! n)) = w ?r + unat ?x" using acc by (simp add: accounts_def)
  then have "unat (n_balance (s_heap s ! n) - ?x) = w ?r" by (subst unat_minus_u64) (simp_all add: word_le_unat)
  from accounts_onNode [OF ok acc n(1) this] show ?thesis using n
    by (simp add: removePreviousBoost_def) (erule accounts_cong, simp)
next
  case False
  then have "removePreviousBoost s = s" by (auto simp: removePreviousBoost_def split: option.split)
  then show ?thesis using False by (auto intro!: accounts_cong [OF acc])
qed

lemma applyProposerBoostScore_accounts:
  assumes ok: "store_ok (f_store g)" and fits: "\<And>r. w r + unat (boostScore cfg g) < 2 ^ 64"
    and acc: "accounts (f_store g) (\<lambda>r. w r + (if r = s_previousProposerBoostRoot (f_store g)
      then unat (s_previousProposerBoostScore (f_store g)) else 0))"
  defines "g' \<equiv> applyProposerBoostScore cfg g"
  shows "accounts (f_store g') (\<lambda>r. w r + (if r = s_proposerBoostRoot (f_store g) then unat (boostScore cfg g) else 0))"
    "s_nodeByRoot (f_store g') = s_nodeByRoot (f_store g)" "s_slashedIndices (f_store g') = s_slashedIndices (f_store g)"
    "s_previousProposerBoostRoot (f_store g') = s_proposerBoostRoot (f_store g)" "f_votes g' = f_votes g" "f_balances g' = f_balances g"
    "s_proposerBoostRoot (f_store g) \<noteq> ZeroHash \<Longrightarrow> nodeOf (f_store g) (s_proposerBoostRoot (f_store g)) \<noteq> None \<Longrightarrow>
       s_previousProposerBoostScore (f_store g') = boostScore cfg g"
proof -
  let ?s = "removePreviousBoost (f_store g)" and ?r = "s_proposerBoostRoot (f_store g)" and ?x = "boostScore cfg g"
  note fr = removePreviousBoost_frame [of "f_store g"]
  have acc1: "accounts ?s w" by (rule removePreviousBoost_accounts [OF ok acc])
  have upd: "accounts (s\<lparr>s_previousProposerBoostRoot := a, s_previousProposerBoostScore := b\<rparr>) v \<longleftrightarrow> accounts s v" for s a b v
    by (simp add: accounts_def)
  show "accounts (f_store g') (\<lambda>r. w r + (if r = ?r then unat ?x else 0))"
  proof (cases "\<exists>n. nodeOf (f_store g) ?r = Some n \<and> ?r \<noteq> ZeroHash")
    case True
    then obtain n where n: "nodeOf ?s ?r = Some n" "?r \<noteq> ZeroHash" using fr by auto
    then have "unat (n_balance (s_heap ?s ! n)) = w ?r" using acc1 by (simp add: accounts_def)
    then have "unat (n_balance (s_heap ?s ! n) + ?x) = w ?r + unat ?x" using fits [of ?r] by (subst unat_add_exact) simp_all
    from accounts_onNode [OF fr(5) [OF ok] acc1 n(1) this]
    have "accounts (onNode n (\<lambda>nd. nd\<lparr>n_balance := n_balance (s_heap ?s ! n) + ?x\<rparr>) ?s) (\<lambda>r. w r + (if r = ?r then unat ?x else 0))"
      by (rule accounts_cong) simp
    then show ?thesis using n by (simp add: g'_def applyProposerBoostScore_def Let_def fr upd boostScore_def)
  next
    case False
    then have "f_store g' = ?s\<lparr>s_previousProposerBoostRoot := ?r, s_previousProposerBoostScore := 0\<rparr>"
      by (auto simp: g'_def applyProposerBoostScore_def Let_def fr split: option.split)
    then show ?thesis using False by (auto simp: upd fr intro!: accounts_cong [OF acc1])
  qed
qed (auto simp: g'_def applyProposerBoostScore_def Let_def boostScore_def removePreviousBoost_frame split: option.split if_splits)

lemma latestVotes_fit:
  assumes "balances_fit cfg f"
  shows "latestVotes f R + unat (boostScore cfg f) < 2 ^ 64"
proof -
  have "latestVotes f R \<le> sum_list (map unat (f_justifiedBalances f))"
    using tally_le_sum [of _ _ _ 0] by (simp add: latestVotes_def voting_tally)
  then show ?thesis using assms by (simp add: balances_fit_def)
qed

text \<open>Both passes together settle the latest votes and the current boost.\<close>

lemma accounted_accounts:
  assumes ok: "store_ok (f_store f)" and led: "ledger f" and fits: "balances_fit cfg f"
  shows "accounts (f_store (accounted cfg f)) (\<lambda>r. latestVotes f {r}
      + (if r = s_proposerBoostRoot (f_store f) then unat (boostScore cfg f) else 0))"
    "ledger (accounted cfg f)"
proof -
  let ?g = "updateBalances f"
  note u = updateBalances_accounts [OF assms]
  have fr: "s_proposerBoostRoot (f_store ?g) = s_proposerBoostRoot (f_store f)" "boostScore cfg ?g = boostScore cfg f"
    "s_previousProposerBoostRoot (f_store ?g) = s_previousProposerBoostRoot (f_store f)"
    "s_previousProposerBoostScore (f_store ?g) = s_previousProposerBoostScore (f_store f)"
    using updateBalances_frame [of f] by (simp_all add: boostScore_def)
  have "latestVotes f {r} + unat (boostScore cfg ?g) < 2 ^ 64" for r
    unfolding fr by (rule latestVotes_fit [OF fits])
  note a = applyProposerBoostScore_accounts [where w = "\<lambda>r. latestVotes f {r}", OF u(4) this u(1) [folded fr], folded accounted_def]
  show acc: "accounts (f_store (accounted cfg f)) (\<lambda>r. latestVotes f {r}
      + (if r = s_proposerBoostRoot (f_store f) then unat (boostScore cfg f) else 0))" using a(1) by (simp only: fr)
  have votes: "voting (s_slashedIndices (f_store f)) (f_justifiedBalances f) (\<lambda>v. v_currentRoot v = r) (f_votes ?g) = latestVotes f {r}" for r
    unfolding latestVotes_def voting_def using u(5,7) by (intro sum.cong) auto
  have "accounts (f_store (accounted cfg f)) (paidOut (accounted cfg f))"
    using acc by (rule accounts_cong) (auto simp: paidOut_def a(2-6) u(2,3,6) fr votes a(7) [unfolded fr u(2)])
  moreover have "length (f_votes (accounted cfg f)) \<le> 2 ^ 64" using led by (simp add: ledger_def a(5) u(5))
  ultimately show "ledger (accounted cfg f)" by (simp add: ledger_def)
qed

section \<open>The head and the accounts\<close>

text \<open>The passes after the accounting leave votes, balances and accounts as they are.\<close>

abbreviation voteFields :: "ForkChoice \<Rightarrow> Vote list \<times> u64 list \<times> ValidatorIndex set \<times> (bytes32 \<times> addr) list \<times> bytes32 \<times> u64" where
  "voteFields f \<equiv> (f_votes f, f_balances f, s_slashedIndices (f_store f), s_nodeByRoot (f_store f),
     s_previousProposerBoostRoot (f_store f), s_previousProposerBoostScore (f_store f))"

lemma FC_Head_fields: "voteFields (snd (FC_Head cfg ctx clk f)) = voteFields (accounted cfg f)"
proof -
  have "voteFields (snd (onStore (rootWeightChanges ctx) g)) = voteFields g"
    "voteFields (snd (onStore (rootBestDescendant ctx je fe ce) g)) = voteFields g"
    "voteFields (snd (onStore (Store_head cfg ctx now) g)) = voteFields g" for g je fe ce now
    by (auto simp: onStore_def onHeap_def rootWeightChanges_def rootBestDescendant_def Store_head_def Let_def case_prod_beta
        split: option.split sum.split)
  then show ?thesis
    unfolding FC_Head_def accounted_def [symmetric] by (simp add: obind_def Let_def case_prod_beta split: sum.split)
qed

lemma FC_Head_ledger:
  assumes "store_ok (f_store f)" "complete (f_store f)" "s_treeRootNode (f_store f) = Some t" "justifiedNode (f_store f) = Some j"
    and led: "ledger (accounted cfg f)" and f': "f' = snd (FC_Head cfg background clk f)"
  shows "ledger f'"
proof -
  obtain h where h: "s_heap (f_store f') = h" "store_ok (f_store f')" "\<forall>a < length h. n_balance (h ! a) = n_balance (f_node (accounted cfg f) a)"
    using FC_Head_run [OF assms(1-4), of cfg clk] unfolding f' by (metis snd_conv)
  have fields: "voteFields f' = voteFields (accounted cfg f)" unfolding f' by (rule FC_Head_fields)
  then have paid: "paidOut f' = paidOut (accounted cfg f)" by (auto simp: paidOut_def)
  have "unat (n_balance (s_heap (f_store f') ! n)) = paidOut f' r" if "nodeOf (f_store f') r = Some n" "r \<noteq> ZeroHash" for r n
    using that led h nodeOf_range(1) [OF h(2) that(1)] fields by (simp add: ledger_def accounts_def paid)
  then show ?thesis using led fields by (simp add: ledger_def accounts_def)
qed

lemma subtree_votes:
  assumes "finite D" "inj_on root D"
  shows "(\<Sum>e \<in> D. latestVotes f {root e} + (if root e = b then x else 0)) = latestVotes f (root ` D) + (if b \<in> root ` D then x else 0)"
proof -
  have "latestVotes f (root ` D) = (\<Sum>r \<in> root ` D. latestVotes f {r})"
    using tally_roots [OF finite_imageI [OF assms(1)], where sel = v_nextRoot] by (simp add: latestVotes_def voting_tally)
  also have "\<dots> = (\<Sum>e \<in> D. latestVotes f {root e})" using assms(2) by (simp add: sum.reindex)
  finally have 1: "latestVotes f (root ` D) = (\<Sum>e \<in> D. latestVotes f {root e})" .
  have "(\<Sum>e \<in> D. if root e = b then x else 0) = (\<Sum>r \<in> root ` D. if r = b then x else 0)" unfolding sum.reindex [OF assms(2)] by simp
  also have "\<dots> = (if b \<in> root ` D then x else 0)" using assms(1) by simp
  finally have 2: "(\<Sum>e \<in> D. if root e = b then x else 0) = (if b \<in> root ` D then x else 0)" .
  show ?thesis unfolding sum.distrib 1 2 ..
qed

section \<open>Attestations and slashed validators\<close>

text \<open>An attestation changes the next root of votes only; the votes it adds to the list have no current root.\<close>

lemma processVote_current:
  "length votes \<le> 2 ^ 64 \<Longrightarrow> length (processVote root e i votes) \<le> 2 ^ 64
    \<and> length votes \<le> length (processVote root e i votes)
    \<and> (\<forall>k < length (processVote root e i votes).
         v_currentRoot (processVote root e i votes ! k) = (if k < length votes then v_currentRoot (votes ! k) else ZeroHash))"
  using unat_u64_bound [of i]
  by (auto simp: processVote_def growVotes_def emptyVote_def Let_def nth_append nth_list_update)

lemma processVotes_current:
  "length votes \<le> 2 ^ 64 \<Longrightarrow> length (fold (processVote root e) is votes) \<le> 2 ^ 64
    \<and> length votes \<le> length (fold (processVote root e) is votes)
    \<and> (\<forall>k < length (fold (processVote root e) is votes).
         v_currentRoot (fold (processVote root e) is votes ! k) = (if k < length votes then v_currentRoot (votes ! k) else ZeroHash))"
proof (induction "is" arbitrary: votes)
  case (Cons i "is")
  note one = processVote_current [OF Cons.prems, of root e i]
  from Cons.IH [OF conjunct1 [OF one]] one show ?case by auto
qed simp

lemma ledger_ProcessAttestation:
  assumes "ledger f"
  shows "ledger (ProcessAttestation is root e f)"
proof -
  let ?vs = "f_votes f" and ?vs' = "fold (processVote root e) is (f_votes f)"
  have len: "length ?vs \<le> 2 ^ 64" using assms by (simp add: ledger_def)
  note v = processVotes_current [OF len, of root e "is"]
  have "voting sl bs (\<lambda>v. v_currentRoot v = r) ?vs' = voting sl bs (\<lambda>v. v_currentRoot v = r) ?vs" if "r \<noteq> ZeroHash" for sl bs r
    unfolding voting_def using v that by (intro sum.cong) (auto split: if_splits)
  then have "paidOut (ProcessAttestation is root e f) r = paidOut f r" if "r \<noteq> ZeroHash" for r
    using that by (simp add: paidOut_def ProcessAttestation_def)
  then have "accounts (f_store f) (paidOut (ProcessAttestation is root e f))"
    using assms unfolding ledger_def by (elim conjE) (erule accounts_cong, simp)
  then show ?thesis using v by (simp add: ledger_def ProcessAttestation_def)
qed

lemma sum_split_one: "finite A \<Longrightarrow> sum g A = sum g (A - {x}) + (if x \<in> A then g x else 0 :: nat)"
  using sum.remove [of A x g] by (cases "x \<in> A") simp_all

lemma voting_insert:
  assumes "length vs \<le> 2 ^ 64" "index \<notin> slashed"
  shows "voting slashed bs P vs = voting (insert index slashed) bs P vs
    + (if unat index < length vs \<and> P (vs ! unat index) then unat (balanceAt bs (unat index)) else 0)"
proof -
  let ?A = "{i. i < length vs \<and> of_nat i \<notin> slashed \<and> P (vs ! i)}" and ?B = "{i. i < length vs \<and> of_nat i \<notin> insert index slashed \<and> P (vs ! i)}"
  have eq: "of_nat i = index \<longleftrightarrow> i = unat index" if "i < length vs" for i
    using that assms(1) by (auto simp: unat_of_nat)
  have B: "?B = ?A - {unat index}"
    by (rule set_eqI) (simp only: mem_Collect_eq Diff_iff insert_iff empty_iff, use eq in blast)
  have A: "unat index \<in> ?A \<longleftrightarrow> unat index < length vs \<and> P (vs ! unat index)" using assms(2) by simp
  have "(\<Sum>i \<in> ?A. unat (balanceAt bs i)) = (\<Sum>i \<in> ?A - {unat index}. unat (balanceAt bs i))
      + (if unat index \<in> ?A then unat (balanceAt bs (unat index)) else 0)" by (rule sum_split_one) simp
  then show ?thesis unfolding voting_def B [symmetric] A .
qed

lemma ledger_InsertSlashedIndex:
  assumes ok: "store_ok (f_store f)" and led: "ledger f"
  shows "ledger (InsertSlashedIndex index f)" "index \<in> s_slashedIndices (f_store (InsertSlashedIndex index f))"
proof -
  let ?s = "f_store f" and ?i = "unat index"
  let ?s1 = "?s\<lparr>s_slashedIndices := insert index (s_slashedIndices ?s)\<rparr>" and ?c = "v_currentRoot (f_votes f ! unat index)"
  have len: "length (f_votes f) \<le> 2 ^ 64" and acc: "accounts ?s (paidOut f)" using led by (simp_all add: ledger_def)
  have acc1: "accounts ?s1 (paidOut f)" and ok1: "store_ok ?s1"
    using acc store_ok_cong [OF ok, of ?s1] ok by (simp_all add: accounts_def store_ok_def map_ok_def addr_in_def)
  show "index \<in> s_slashedIndices (f_store (InsertSlashedIndex index f))"
    by (simp add: InsertSlashedIndex_def Let_def split: option.split)
  show "ledger (InsertSlashedIndex index f)"
  proof (cases "index \<in> s_slashedIndices ?s")
    case True
    then show ?thesis using led by (simp add: InsertSlashedIndex_def)
  next
    case False
    let ?cut = "\<lambda>r. if ?i < length (f_votes f) \<and> ?c = r then unat (balanceAt (f_balances f) ?i) else 0"
    have paid: "paidOut f r = paidOut (f\<lparr>f_store := ?s1\<rparr>) r + ?cut r" for r
      using voting_insert [OF len False, of "f_balances f" "\<lambda>v. v_currentRoot v = r"] by (simp add: paidOut_def)
    show ?thesis
    proof (cases "?i < length (f_balances f) \<and> ?i < length (f_votes f) \<and> nodeOf ?s ?c \<noteq> None")
      case True
      then obtain n where n: "nodeOf ?s1 ?c = Some n" by auto
      let ?b = "f_balances f ! ?i" and ?nb = "n_balance (s_heap ?s ! n)"
      let ?s2 = "onNode n (\<lambda>nd. nd\<lparr>n_balance := (if ?nb < ?b then 0 else ?nb - ?b)\<rparr>) ?s1"
      have f': "InsertSlashedIndex index f = f\<lparr>f_store := ?s2\<rparr>" using False True n by (simp add: InsertSlashedIndex_def Let_def)
      have "accounts ?s2 ((paidOut f)(?c := unat (if ?nb < ?b then 0 else ?nb - ?b)))" by (rule accounts_onNode [OF ok1 acc1 n refl])
      then have acc2: "accounts ?s2 (paidOut (f\<lparr>f_store := ?s1\<rparr>))"
      proof (rule accounts_cong)
        fix r assume r: "r \<noteq> ZeroHash"
        have "unat ?nb = paidOut f ?c" if "?c = r" using acc n that r by (simp add: accounts_def)
        then show "((paidOut f)(?c := unat (if ?nb < ?b then 0 else ?nb - ?b))) r = paidOut (f\<lparr>f_store := ?s1\<rparr>) r"
          using paid [of r] True by (auto simp: balanceAt_def word_less_unat unat_minus_u64 word_le_unat)
      qed
      have "paidOut (f\<lparr>f_store := ?s2\<rparr>) = paidOut (f\<lparr>f_store := ?s1\<rparr>)" by (rule ext) (simp add: paidOut_def)
      moreover have "f_store (f\<lparr>f_store := ?s2\<rparr>) = ?s2" "f_votes (f\<lparr>f_store := ?s2\<rparr>) = f_votes f" by simp_all
      ultimately show ?thesis unfolding ledger_def f' using len acc2 by (simp only:)
    next
      case gone: False
      then have f': "InsertSlashedIndex index f = f\<lparr>f_store := ?s1\<rparr>"
        using False by (auto simp: InsertSlashedIndex_def Let_def split: option.split)
      have "accounts ?s1 (paidOut (f\<lparr>f_store := ?s1\<rparr>))"
        using acc1 by (rule accounts_cong) (use gone paid in \<open>auto simp: balanceAt_def\<close>)
      then show ?thesis using len by (simp add: ledger_def f')
    qed
  qed
qed

lemma latestVotes_InsertSlashedIndex:
  assumes "ledger f" and "index \<notin> s_slashedIndices (f_store f)"
  shows "latestVotes f R = latestVotes (InsertSlashedIndex index f) R
    + (if unat index < length (f_votes f) \<and> v_nextRoot (f_votes f ! unat index) \<in> R
       then unat (balanceAt (f_justifiedBalances f) (unat index)) else 0)"
proof -
  have "s_slashedIndices (f_store (InsertSlashedIndex index f)) = insert index (s_slashedIndices (f_store f))"
    "f_votes (InsertSlashedIndex index f) = f_votes f" "f_justifiedBalances (InsertSlashedIndex index f) = f_justifiedBalances f"
    by (simp_all add: InsertSlashedIndex_def Let_def insert_absorb split: option.split)
  then show ?thesis using voting_insert [OF _ assms(2), of "f_votes f" "f_justifiedBalances f" "\<lambda>v. v_nextRoot v \<in> R"] assms(1)
    by (simp add: latestVotes_def ledger_def)
qed

lemma ledger_updateJustifiedBalances: "ledger f \<Longrightarrow> ledger (snd (updateJustifiedBalances cfg root f))"
  by (auto simp: updateJustifiedBalances_def ledger_def accounts_def paidOut_def case_prod_beta Let_def split: sum.split)

end
