(* ===== verification/FC_Properties.thy ===== *)
theory FC_Properties
  imports FC_Votes
begin

text \<open>The properties of the fork choice tree: insertion, removal, pruning, ancestors and the head.\<close>

lemma ex_store_nth:
  "n_parent (s_heap ex_store ! 1) = Some 0" "n_optimistic (s_heap ex_store ! 1)"
  "n_children (s_heap ex_store ! 1) = [3]"
proof -
  have "map g (s_heap ex_store) ! 1 = g (s_heap ex_store ! 1)" for g :: "Node \<Rightarrow> 'a"
    by (simp add: ex_store_tree(2))
  from this [of n_parent] this [of n_optimistic] this [of n_children]
  show "n_parent (s_heap ex_store ! 1) = Some 0" "n_optimistic (s_heap ex_store ! 1)"
    "n_children (s_heap ex_store ! 1) = [3]"
    by (simp_all add: ex_store_tree(3,4,8))
qed

text \<open>Three validators with latest votes for the blocks 3, 4 and 4.\<close>

definition ex_forkchoice :: ForkChoice where
  "ex_forkchoice = FC_New\<lparr>f_store := ex_store,
     f_votes := map (\<lambda>r. \<lparr>v_currentRoot = 0, v_nextRoot = r, v_nextEpoch = 1\<rparr>) [3, 4, 4],
     f_justifiedBalances := [32, 31, 30]\<rparr>"

lemma ex_forkchoice_ok: "store_ok (f_store ex_forkchoice)" "complete (f_store ex_forkchoice)"
  "s_treeRootNode (f_store ex_forkchoice) = Some 0"
  by (simp_all add: ex_forkchoice_def ex_store_ok ex_store_tree(1))

lemma ex_justified: "justifiedNode (f_store ex_forkchoice) = Some 0"
proof -
  have "s_justifiedCheckpoint ex_store = zeroCheckpoint" by code_simp
  then show ?thesis
    by (simp add: ex_forkchoice_def justifiedNode_def ex_store_tree(1,7) zeroCheckpoint_def)
qed

definition ex_headed :: ForkChoice where
  "ex_headed = snd (FC_Head mainnetBeaconConfig background ex_clock ex_forkchoice)"

lemma ex_headed_heap:
  "map n_balance (s_heap (f_store ex_headed)) = [0, 0, 32, 61]"
  "map n_root (s_heap (f_store ex_headed)) = [1, 2, 3, 4]"
  "map n_children (s_heap (f_store ex_headed)) = [[1, 2], [3], [], []]"
  by code_simp+

section \<open>The head\<close>

text \<open>C1. \<^verbatim>\<open>Head\<close> is the head of the fork choice rule: from the justified block it walks, at every block,
  to the heaviest child that leads to a viable block, the greater root winning a tie, until no child
  does; it returns the root of the block where this walk ends, and that end is unique. If that block
  is not viable at the second clock reading it reports an ineligible head instead. When justified
  epochs grow along branches up to the store's, the children kept are exactly those of the consensus
  specification, which looks at leaves only. The store keeps its invariant.\<close>

theorem Head_is_fork_choice_head:
  assumes "store_ok (f_store f)" and "complete (f_store f)"
    and "s_treeRootNode (f_store f) = Some t" and "justifiedNode (f_store f) = Some j"
  shows "\<exists>f' d. let h = s_heap (f_store f'); keep = viable_below h (justEpoch f) (epochAt cfg (clk 0) f) in
    FC_Head cfg background clk f =
      (if viableForHead (h ! d) (justEpoch f) (epochAt cfg (clk 1) f)
       then Inr (n_root (h ! d)) else Inl ErrHeadNotEligible, f')
    \<and> ghost h keep j d \<and> (\<forall>d'. ghost h keep j d' \<longrightarrow> d' = d)
    \<and> (epochs_grow h (justEpoch f) j \<and> justEpoch f \<le> MaxUint64 - 2 \<longrightarrow>
         ghost h (leaf_viable h (justEpoch f) (epochAt cfg (clk 0) f)) j d)
    \<and> store_ok (f_store f') \<and> complete (f_store f')"
proof -
  obtain f' h where run: "FC_Head cfg background clk f =
      (if viableForHead (h ! bestFrom h j) (justEpoch f) (epochAt cfg (clk 1) f)
       then Inr (n_root (h ! bestFrom h j)) else Inl ErrHeadNotEligible, f')"
    and h: "s_heap (f_store f') = h" and t: "s_treeRootNode (f_store f') = Some t"
    and ok: "store_ok (f_store f')" "complete (f_store f')"
    and same: "same_tree (s_heap (f_store f)) h" and j: "desc h t j"
    and g: "ghost h (viable_below h (justEpoch f) (epochAt cfg (clk 0) f)) j (bestFrom h j)"
    and B: "\<forall>a < length h. n_balance (h ! a) = n_balance (f_node (accounted cfg f) a)"
    and W: "(\<forall>d. desc h t d \<longrightarrow> n_root (h ! d) \<noteq> ZeroHash) \<longrightarrow>
      (\<Sum>d | desc h t d. unat (n_balance (h ! d))) < 2 ^ 64 \<longrightarrow>
      (\<forall>a. desc h t a \<longrightarrow> unat (n_weight (h ! a)) = (\<Sum>e | desc h a e. unat (n_balance (h ! e))))"
    using FC_Head_run [OF assms(1-4), of cfg clk] by metis
  have th: "tree_heap h" "t < length h" using store_okD(1,4) [OF ok(1)] t h by auto
  have jl: "j < length h" using desc_range [OF j th] by simp
  have "roots_differ h t" using complete_roots_differ [OF ok(2) t] by (simp add: h)
  then have "roots_differ h j" unfolding roots_differ_def using desc_trans [OF _ j] by blast
  with g have unique: "\<forall>d'. ghost h (viable_below h (justEpoch f) (epochAt cfg (clk 0) f)) j d' \<longrightarrow> d' = bestFrom h j"
    using ghost_unique by blast
  have "ghost h (leaf_viable h (justEpoch f) (epochAt cfg (clk 0) f)) j (bestFrom h j)"
    if "epochs_grow h (justEpoch f) j" "justEpoch f \<le> MaxUint64 - 2"
    using ghost_cong [OF g] viable_below_leaf [OF th(1) jl that] by blast
  with run unique g ok h show ?thesis unfolding Let_def by blast
qed

theorem Head_is_fork_choice_head_witness:
  "store_ok (f_store ex_forkchoice) \<and> complete (f_store ex_forkchoice)
   \<and> s_treeRootNode (f_store ex_forkchoice) = Some 0 \<and> justifiedNode (f_store ex_forkchoice) = Some 0
   \<and> fst (FC_Head mainnetBeaconConfig background ex_clock ex_forkchoice) = Inr 4
   \<and> (\<exists>d. ghost (s_heap (f_store ex_headed)) (viable_below (s_heap (f_store ex_headed)) (justEpoch ex_forkchoice)
          (epochAt mainnetBeaconConfig (ex_clock 0) ex_forkchoice)) 0 d)"
proof -
  have "fst (FC_Head mainnetBeaconConfig background ex_clock ex_forkchoice) = Inr 4" by code_simp
  moreover have "\<exists>d. ghost (s_heap (f_store ex_headed)) (viable_below (s_heap (f_store ex_headed))
      (justEpoch ex_forkchoice) (epochAt mainnetBeaconConfig (ex_clock 0) ex_forkchoice)) 0 d"
    using Head_is_fork_choice_head [OF ex_forkchoice_ok ex_justified, of mainnetBeaconConfig ex_clock]
    unfolding Let_def ex_headed_def by (metis snd_conv)
  ultimately show ?thesis using ex_forkchoice_ok ex_justified by blast
qed

text \<open>C2. After \<^verbatim>\<open>Head\<close> the weight of a block is the weight of the consensus specification: the justified balances of all validators
  that are not slashed and whose latest vote is for the block or a block below it, plus the proposer boost if the boosted block is the
  block or below it. This holds if the node balances stood for the votes and the boost paid out before, as they do again afterwards; if
  no block of the tree has the zero root, whose weight the code does not compute; and if the old and new balances and boosts together
  fit in 64 bits.\<close>

theorem Head_weights:
  assumes "store_ok (f_store f)" and "complete (f_store f)"
    and "s_treeRootNode (f_store f) = Some t" and "justifiedNode (f_store f) = Some j"
    and "ledger f" and "balances_fit cfg f" and "snd (FC_Head cfg background clk f) = f'"
    and "\<And>d. desc (s_heap (f_store f')) t d \<Longrightarrow> n_root (f_node f' d) \<noteq> ZeroHash"
    and "desc (s_heap (f_store f')) t a"
  shows "(let below = (\<lambda>e. n_root (f_node f' e)) ` {e. desc (s_heap (f_store f')) a e} in
      unat (n_weight (f_node f' a)) = latestVotes f below
        + (if s_proposerBoostRoot (f_store f) \<in> below then unat (boostScore cfg f) else 0))
    \<and> ledger f'"
proof -
  obtain f'' h where run: "FC_Head cfg background clk f =
      (if viableForHead (h ! bestFrom h j) (justEpoch f) (epochAt cfg (clk 1) f)
       then Inr (n_root (h ! bestFrom h j)) else Inl ErrHeadNotEligible, f'')"
    and h: "s_heap (f_store f'') = h" and t: "s_treeRootNode (f_store f'') = Some t"
    and ok: "store_ok (f_store f'')" "complete (f_store f'')"
    and same: "same_tree (s_heap (f_store f)) h" and j: "desc h t j"
    and g: "ghost h (viable_below h (justEpoch f) (epochAt cfg (clk 0) f)) j (bestFrom h j)"
    and B: "\<forall>a < length h. n_balance (h ! a) = n_balance (f_node (accounted cfg f) a)"
    and W: "(\<forall>d. desc h t d \<longrightarrow> n_root (h ! d) \<noteq> ZeroHash) \<longrightarrow>
      (\<Sum>d | desc h t d. unat (n_balance (h ! d))) < 2 ^ 64 \<longrightarrow>
      (\<forall>a. desc h t a \<longrightarrow> unat (n_weight (h ! a)) = (\<Sum>e | desc h a e. unat (n_balance (h ! e))))"
    using FC_Head_run [OF assms(1-4), of cfg clk] by metis
  have f': "f' = f''" using assms(7) run by simp
  note acc = accounted_accounts [OF assms(1,5,6)]
  let ?val = "\<lambda>r. latestVotes f {r} + (if r = s_proposerBoostRoot (f_store f) then unat (boostScore cfg f) else 0)"
  have nz: "n_root (h ! d) \<noteq> ZeroHash" if "desc h t d" for d using assms(8) that by (simp add: f' h)
  have th: "tree_heap h" "t < length h" using store_okD(1,4) [OF ok(1)] t h by auto
  have known: "nodeOf (f_store (accounted cfg f)) (n_root (h ! d)) = Some d" if "desc h t d" for d
    using ok(2) t that FC_Head_fields [of cfg background clk f] run by (simp add: complete_def h)
  have bal: "unat (n_balance (h ! d)) = ?val (n_root (h ! d))" if "desc h t d" for d
    using acc(1) known [OF that] nz [OF that] B desc_range [OF that th] by (simp add: accounts_def)
  have sum: "(\<Sum>e | desc h x e. unat (n_balance (h ! e))) = latestVotes f ((\<lambda>e. n_root (h ! e)) ` {e. desc h x e})
      + (if s_proposerBoostRoot (f_store f) \<in> (\<lambda>e. n_root (h ! e)) ` {e. desc h x e} then unat (boostScore cfg f) else 0)"
    if x: "desc h t x" for x
  proof -
    have sub: "desc h t e" if "desc h x e" for e by (rule desc_trans [OF that x])
    have "inj_on (\<lambda>e. n_root (h ! e)) {e. desc h x e}"
      using complete_roots_inj [OF ok(2) t] sub by (auto intro: inj_onI simp: h)
    moreover have "finite {e. desc h x e}" using finite_desc [OF th(1)] desc_range [OF x th] by blast
    moreover have "(\<Sum>e | desc h x e. unat (n_balance (h ! e))) = (\<Sum>e | desc h x e. ?val (n_root (h ! e)))"
      using bal sub by (intro sum.cong) auto
    ultimately show ?thesis using subtree_votes [of "{e. desc h x e}" "\<lambda>e. n_root (h ! e)"] by simp
  qed
  have "(\<Sum>d | desc h t d. unat (n_balance (h ! d)))
      \<le> latestVotes f ((\<lambda>e. n_root (h ! e)) ` {e. desc h t e}) + unat (boostScore cfg f)"
    unfolding sum [OF desc_refl] by simp
  also have "\<dots> < 2 ^ 64" by (rule latestVotes_fit [OF assms(6)])
  finally have fits: "(\<Sum>d | desc h t d. unat (n_balance (h ! d))) < 2 ^ 64" .
  have a: "desc h t a" using assms(9) by (simp only: f' h)
  have "\<forall>d. desc h t d \<longrightarrow> n_root (h ! d) \<noteq> ZeroHash" using nz by blast
  with W fits a have w: "unat (n_weight (h ! a)) = (\<Sum>e | desc h a e. unat (n_balance (h ! e)))" by blast
  have "ledger f'" by (rule FC_Head_ledger [OF assms(1-4) acc(2) assms(7) [symmetric]])
  then show ?thesis unfolding Let_def f' h w sum [OF a] by blast
qed

lemma ex_headed_ok: "store_ok (f_store ex_headed)" "s_treeRootNode (f_store ex_headed) = Some 0"
proof -
  obtain f' where "ex_headed = f'" "store_ok (f_store f')" "s_treeRootNode (f_store f') = Some 0"
    using FC_Head_run [OF ex_forkchoice_ok ex_justified, of mainnetBeaconConfig ex_clock]
    unfolding ex_headed_def by (metis snd_conv)
  then show "store_ok (f_store ex_headed)" "s_treeRootNode (f_store ex_headed) = Some 0" by simp_all
qed

lemma ex_headed_nth:
  assumes "d < 4"
  shows "n_balance (f_node ex_headed d) = [0, 0, 32, 61] ! d" "n_root (f_node ex_headed d) = [1, 2, 3, 4] ! d"
    "n_children (f_node ex_headed d) = [[1, 2], [3], [], []] ! d" "length (s_heap (f_store ex_headed)) = 4"
proof -
  show len: "length (s_heap (f_store ex_headed)) = 4" using arg_cong [OF ex_headed_heap(1), of length] by simp
  have "map g (s_heap (f_store ex_headed)) ! d = g (f_node ex_headed d)" for g :: "Node \<Rightarrow> 'a"
    using assms len by simp
  from this [of n_balance] this [of n_root] this [of n_children]
  show "n_balance (f_node ex_headed d) = [0, 0, 32, 61] ! d" "n_root (f_node ex_headed d) = [1, 2, 3, 4] ! d"
    "n_children (f_node ex_headed d) = [[1, 2], [3], [], []] ! d" by (simp_all only: ex_headed_heap)
qed

lemma ex_headed_desc:
  assumes "desc (s_heap (f_store ex_headed)) 0 d"
  shows "d = 0 \<or> d = 1 \<or> d = 2 \<or> d = 3"
proof -
  have "d < 4"
    using assms desc_range store_okD(1) [OF ex_headed_ok(1)] ex_headed_nth(4) [of 0] by fastforce
  then show ?thesis by auto
qed

lemma ex_headed_below: "{e. desc (s_heap (f_store ex_headed)) 1 e} = {1, 3}"
proof -
  let ?h = "s_heap (f_store ex_headed)"
  have "e = 1 \<or> e = 3" if "desc ?h a e" and "a = 1" for a e
    using that
  proof (induction rule: desc.induct)
    case (desc_step a b c)
    then consider "b = 1" | "b = 3" by blast
    then show ?case using desc_step.hyps(2) by cases (simp_all add: ex_headed_nth)
  qed simp
  moreover have "desc ?h 1 3" using desc_step [OF desc_refl [of ?h 1], of 3] by (simp add: ex_headed_nth)
  ultimately show ?thesis by auto
qed

lemma ex_ledger: "ledger ex_forkchoice" "balances_fit mainnetBeaconConfig ex_forkchoice"
proof -
  have bal: "map n_balance (s_heap ex_store) = [0, 0, 0, 0]" by code_simp
  have "n_balance (s_heap ex_store ! a) = 0" if "a < 4" for a
  proof -
    have "a < length (s_heap ex_store)" using that arg_cong [OF bal, of length] by simp
    then have "n_balance (s_heap ex_store ! a) = [0, 0, 0, 0] ! a" by (simp flip: bal)
    then show ?thesis using that by (auto simp: less_Suc_eq numeral_eq_Suc)
  qed
  moreover have "a < 4" if "nodeOf ex_store r = Some a" for r a
    using that by (auto simp: ex_store_tree(7) split: if_splits)
  moreover have score: "s_previousProposerBoostScore ex_store = 0" by code_simp
  then have "paidOut ex_forkchoice r = 0" if "r \<noteq> ZeroHash" for r
    using that by (simp add: paidOut_def voting_tally ex_forkchoice_def)
  ultimately show "ledger ex_forkchoice" by (auto simp: ledger_def accounts_def ex_forkchoice_def)
  have "s_committeeWeight ex_store = 0" by code_simp
  with score show "balances_fit mainnetBeaconConfig ex_forkchoice"
    by (simp add: balances_fit_def boostScore_def ex_forkchoice_def FC_New_def)
qed

theorem Head_weights_witness:
  "ledger ex_forkchoice \<and> balances_fit mainnetBeaconConfig ex_forkchoice
   \<and> unat (n_weight (f_node ex_headed 1)) = latestVotes ex_forkchoice {2, 4}
   \<and> latestVotes ex_forkchoice {2, 4} = 61 \<and> ledger ex_headed"
proof -
  let ?h = "s_heap (f_store ex_headed)"
  have roots: "n_root (f_node ex_headed d) \<noteq> ZeroHash" if "desc ?h 0 d" for d
    using ex_headed_desc [OF that] by (auto simp: ex_headed_nth)
  have "1 \<in> set (n_children (f_node ex_headed 0))" by (simp add: ex_headed_nth)
  then have one: "desc ?h 0 1" using desc_step [OF desc_refl] by blast
  have "s_slashedIndices ex_store = {}" by code_simp
  then have "latestVotes ex_forkchoice {2, 4} = 61"
    by (simp add: latestVotes_def voting_tally ex_forkchoice_def balanceAt_def)
  moreover have "s_proposerBoostRoot (f_store ex_forkchoice) = 0" by code_simp
  moreover note Head_weights [OF ex_forkchoice_ok ex_justified ex_ledger ex_headed_def [symmetric] roots one]
  moreover have "(\<lambda>e. n_root (f_node ex_headed e)) ` {e. desc ?h 1 e} = {2, 4}"
    unfolding ex_headed_below by (simp add: ex_headed_nth)
  ultimately show ?thesis using ex_ledger unfolding Let_def by simp
qed

text \<open>C32. The accounts that \<^verbatim>\<open>Head\<close> relies on are kept between two calls: a batch of attestations, new justified balances and a newly
  slashed validator all leave every node balance equal to the votes and the boost paid out to it. The slashed validator is counted in
  no latest vote any more: the votes for any set of blocks lose exactly its justified balance if it voted for one of them.\<close>

theorem votes_accounted:
  assumes "store_ok (f_store f)" and "ledger f"
  shows "ledger (ProcessAttestation is root e f) \<and> ledger (snd (updateJustifiedBalances cfg root f))
    \<and> ledger (InsertSlashedIndex i f) \<and> i \<in> s_slashedIndices (f_store (InsertSlashedIndex i f))
    \<and> (i \<notin> s_slashedIndices (f_store f) \<longrightarrow> latestVotes f R = latestVotes (InsertSlashedIndex i f) R
         + (if unat i < length (f_votes f) \<and> v_nextRoot (f_votes f ! unat i) \<in> R
            then unat (balanceAt (f_justifiedBalances f) (unat i)) else 0))"
  using ledger_ProcessAttestation [OF assms(2)] ledger_updateJustifiedBalances [OF assms(2)]
    ledger_InsertSlashedIndex [OF assms] latestVotes_InsertSlashedIndex [OF assms(2)] by blast

theorem votes_accounted_witness:
  "store_ok (f_store ex_headed) \<and> ledger ex_headed \<and> ledger (InsertSlashedIndex 1 ex_headed)
   \<and> n_balance (f_node ex_headed 3) = 61 \<and> n_balance (f_node (InsertSlashedIndex 1 ex_headed) 3) = 30
   \<and> latestVotes (InsertSlashedIndex 1 ex_headed) {4} = 30"
proof -
  have led: "ledger ex_headed"
    unfolding ex_headed_def by (rule FC_Head_ledger [OF ex_forkchoice_ok ex_justified accounted_accounts(2) [OF ex_forkchoice_ok(1) ex_ledger] refl])
  have "n_balance (f_node (InsertSlashedIndex 1 ex_headed) 3) = 30" by code_simp
  moreover have "f_votes ex_headed = map (\<lambda>r. \<lparr>v_currentRoot = r, v_nextRoot = r, v_nextEpoch = 1\<rparr>) [3, 4, 4]"
    "f_justifiedBalances ex_headed = [32, 31, 30]" "s_slashedIndices (f_store ex_headed) = {}" by code_simp+
  moreover from this have "latestVotes ex_headed {4} = 61" by (simp add: latestVotes_def voting_tally balanceAt_def)
  ultimately show ?thesis
    using votes_accounted [OF ex_headed_ok(1) led, where i = 1 and R = "{4}"] led ex_headed_ok
    by (simp add: ex_headed_nth balanceAt_def)
qed

section \<open>The block tree interface\<close>

text \<open>
  What the users of the store rely on when blocks are added: an invariant, the abstract tree, and
  an operation that adds a new block or finds the block already there.
\<close>

locale block_tree =
  fixes inv :: "'s \<Rightarrow> bool" and tree :: "'s \<Rightarrow> blockTree" and add :: "ROBlock \<Rightarrow> 's \<Rightarrow> ('s, 'n) outcome"
  assumes add_inv: "inv s \<Longrightarrow> inv (snd (add b s))"
    and add_tree: "inv s \<Longrightarrow> add b s = (Inr n, s') \<Longrightarrow>
      tree s' = (if b_root b \<in> dom (tree s) then tree s else addBlock b (tree s))"
begin

lemma add_known:
  assumes "inv s" and "add b s = (Inr n, s')"
  shows "b_root b \<in> dom (tree s')"
  using add_tree [OF assms] by (auto simp: addBlock_def)

lemma add_keeps:
  assumes "inv s" and "add b s = (Inr n, s')" and "tree s r = Some x"
  shows "tree s' r = Some x"
  using add_tree [OF assms(1,2)] assms(3) by (auto simp: addBlock_def)

lemma add_below:
  assumes "inv s" and "add b s = (Inr n, s')" and "below (tree s) r x"
  shows "below (tree s') r x"
  using assms(3)
proof (induction rule: below.induct)
  case (below_self r)
  then obtain y where "tree s r = Some y" by blast
  then have "r \<in> dom (tree s')" using add_keeps [OF assms(1,2)] by blast
  then show ?case by (rule below.below_self)
next
  case (below_child r p x sl)
  show ?case by (rule below.below_child [OF below_child.IH add_keeps [OF assms(1,2) below_child.hyps(2)]])
qed

lemma add_child:
  assumes "inv s" and "add b s = (Inr n, s')" and "b_root b \<notin> dom (tree s)" and "b_parentRoot b \<in> dom (tree s)"
  shows "below (tree s') (b_parentRoot b) (b_root b)"
proof -
  obtain y where "tree s (b_parentRoot b) = Some y" using assms(4) by blast
  then have "b_parentRoot b \<in> dom (tree s')" using add_keeps [OF assms(1,2)] by blast
  moreover have "tree s' (b_root b) = Some (b_slot b, Some (b_parentRoot b))"
    using add_tree [OF assms(1,2)] assms(3,4) by (simp add: addBlock_def)
  ultimately show ?thesis using below_child [OF below_self] by blast
qed

lemma add_ancestor:
  assumes "inv s" and "add b s = (Inr n, s')" and "ancestorAt (tree s) slot r q"
  shows "ancestorAt (tree s') slot r q"
  using assms(3)
proof (induction rule: ancestorAt.induct)
  case (ancestor_here r sl p)
  show ?case using ancestorAt.ancestor_here add_keeps [OF assms(1,2) ancestor_here(1)] ancestor_here(2) by blast
next
  case (ancestor_up r sl p q)
  show ?case
    using ancestorAt.ancestor_up add_keeps [OF assms(1,2) ancestor_up.hyps(1)] ancestor_up.hyps(2) ancestor_up.IH
    by blast
qed

end

abbreviation sound :: "Store \<Rightarrow> bool" where
  "sound s \<equiv> store_ok s \<and> complete s"

interpretation fcstore: block_tree sound blocks "\<lambda>b. Store_insert cfg ctx clk b je fe" for cfg ctx clk je fe
proof
  fix s b assume "sound s"
  then show "sound (snd (Store_insert cfg ctx clk b je fe s))" using Store_insert_ok by blast
next
  fix s b n s' assume s: "sound s" and run: "Store_insert cfg ctx clk b je fe s = (Inr n, s')"
  show "blocks s' = (if b_root b \<in> dom (blocks s) then blocks s else addBlock b (blocks s))"
  proof (cases "b_root b \<in> dom (blocks s)")
    case True
    then have "s' = s" using Store_insert_ok [of s cfg ctx clk b je fe] s run by (auto simp: dom_blocks)
    with True show ?thesis by simp
  next
    case False
    then show ?thesis using Store_insert_refines [OF _ _ run] s by simp
  qed
qed

section \<open>Inserting\<close>

text \<open>C3. \<^verbatim>\<open>insert\<close> implements the abstract block tree: whatever the block, the clock, the context and the
  outcome, the store keeps its invariant; a success returns the node filed under the root of the block,
  leaves a tree that had the block as it was, and otherwise adds exactly the block, below its parent.\<close>

theorem insert_refines:
  assumes "store_ok s" and "complete s"
  shows "let (r, s') = Store_insert cfg ctx clk b je fe s in store_ok s' \<and> complete s'
    \<and> (\<forall>n. r = Inr n \<longrightarrow> nodeOf s' (b_root b) = Some n
         \<and> blocks s' = (if b_root b \<in> dom (blocks s) then blocks s else addBlock b (blocks s)))"
proof -
  obtain r s' where run: "Store_insert cfg ctx clk b je fe s = (r, s')" by fastforce
  have "store_ok s' \<and> complete s'" using fcstore.add_inv assms run by (metis snd_conv)
  moreover have "nodeOf s' (b_root b) = Some n" if "r = Inr n" for n
    using Store_insert_ok [OF assms, of cfg ctx clk b je fe] run that grownD(8) by fastforce
  ultimately show ?thesis using fcstore.add_tree assms run by (fastforce simp: Let_def)
qed

theorem insert_refines_witness:
  "store_ok ex_store \<and> complete ex_store \<and> blocks (ex_add (ex_block 5 4 4) ex_store) = addBlock (ex_block 5 4 4) (blocks ex_store)"
proof -
  have r: "fst (Store_insert mainnetBeaconConfig background ex_clock (ex_block 5 4 4) 0 0 ex_store) = Inr 4"
    by code_simp
  have "b_root (ex_block 5 4 4) \<notin> dom (blocks ex_store)"
    by (simp add: dom_blocks ex_block_def ex_store_tree(7))
  then show ?thesis
    using insert_refines [OF ex_store_ok, of mainnetBeaconConfig background ex_clock "ex_block 5 4 4" 0 0]
      ex_store_ok r unfolding ex_add_def by (auto simp: Let_def split: prod.splits)
qed

text \<open>C7. Inserting a block never changes what is known about the blocks already there: every answer
  \<^verbatim>\<open>AncestorRoot\<close> gave before a successful \<^verbatim>\<open>insert\<close> it still gives afterwards.\<close>

theorem insert_keeps_ancestors:
  assumes "store_ok (f_store f)" and "complete (f_store f)"
    and "onStore (Store_insert cfg ctx clk b je fe) f = (Inr n, f')"
    and "AncestorRoot background f r slot = Inr q"
  shows "AncestorRoot background f' r slot = Inr q"
proof -
  obtain s' where run: "Store_insert cfg ctx clk b je fe (f_store f) = (Inr n, s')" and f': "f_store f' = s'"
    using assms(3) by (auto simp: onStore_def split: prod.splits)
  have s: "sound (f_store f)" using assms(1,2) by simp
  have s': "sound s'" using fcstore.add_inv [OF s] run by (metis snd_conv)
  have "ancestorAt (blocks (f_store f)) slot r q" using AncestorRoot_cases [OF assms(1,2)] assms(4) by blast
  then have "ancestorAt (blocks s') slot r q" using fcstore.add_ancestor [OF s run] by blast
  then show ?thesis using AncestorRoot_cases [of f'] s' f' by blast
qed

definition ex_grown :: ForkChoice where
  "ex_grown = snd (onStore (Store_insert mainnetBeaconConfig background ex_clock (ex_block 5 4 4) 0 0) ex_forkchoice)"

theorem insert_keeps_ancestors_witness:
  "AncestorRoot background ex_forkchoice 4 2 = Inr 2 \<and> AncestorRoot background ex_grown 4 2 = Inr 2"
proof -
  have r: "fst (onStore (Store_insert mainnetBeaconConfig background ex_clock (ex_block 5 4 4) 0 0) ex_forkchoice) = Inr 4"
    and a: "AncestorRoot background ex_forkchoice 4 2 = Inr 2" by code_simp+
  have "onStore (Store_insert mainnetBeaconConfig background ex_clock (ex_block 5 4 4) 0 0) ex_forkchoice = (Inr 4, ex_grown)"
    unfolding ex_grown_def using r by (metis prod.collapse)
  from insert_keeps_ancestors [OF ex_forkchoice_ok(1,2) this a] a show ?thesis by simp
qed

section \<open>Ancestors\<close>

text \<open>C6. \<^verbatim>\<open>AncestorRoot\<close> returns a root exactly when it is the first block at or before the slot on the way
  from the given block to the root of the abstract tree; its only other outcome is the error for a
  missing node, so its recursion bound is always enough.\<close>

theorem AncestorRoot_refines:
  assumes "store_ok (f_store f)" and "complete (f_store f)"
  shows "(AncestorRoot background f r slot = Inr q \<longleftrightarrow> ancestorAt (blocks (f_store f)) slot r q)
    \<and> ((\<nexists>q. ancestorAt (blocks (f_store f)) slot r q) \<longleftrightarrow> AncestorRoot background f r slot = Inl ErrNilNode)"
proof -
  have "AncestorRoot background f r slot = Inl ErrNilNode \<or> (\<exists>q. AncestorRoot background f r slot = Inr q)"
    using AncestorRoot_cases [OF assms, of r slot] by (cases "AncestorRoot background f r slot") auto
  then show ?thesis using AncestorRoot_cases [OF assms, of r slot] by fastforce
qed

theorem AncestorRoot_refines_witness:
  "store_ok (f_store ex_forkchoice) \<and> complete (f_store ex_forkchoice) \<and> ancestorAt (blocks (f_store ex_forkchoice)) 2 4 2"
proof -
  have "AncestorRoot background ex_forkchoice 4 2 = Inr 2" by code_simp
  then show ?thesis using AncestorRoot_refines [OF ex_forkchoice_ok(1,2), of 4 2 2] ex_forkchoice_ok by blast
qed

section \<open>Removing and pruning\<close>

text \<open>C4. Removing an optimistic block removes exactly its subtree: the returned roots are the block and its
  descendants, each once, the abstract tree loses these blocks and keeps all others as they were, and the
  store keeps its invariant.\<close>

theorem removeNode_removes_subtree:
  assumes "store_ok s" and "complete s" and "nodeOf s r = Some n"
    and "n_parent (s_heap s ! n) = Some p" and "n_optimistic (s_heap s ! n)"
  shows "\<exists>roots s'. removeNode background (Some n) s = (Inr roots, s') \<and> store_ok s' \<and> complete s'
    \<and> blocks s' = dropBelow r (blocks s) \<and> distinct roots \<and> set roots = {x. below (blocks s) r x}"
  using removeNode_refines [OF assms] .

theorem removeNode_removes_subtree_witness:
  "fst (removeNode background (Some 1) ex_store) = Inr [4, 2] \<and> {x. below (blocks ex_store) 2 x} = {4, 2}"
proof -
  have n: "nodeOf ex_store 2 = Some 1" by (simp add: ex_store_tree(7))
  have r: "fst (removeNode background (Some 1) ex_store) = Inr [4, 2]" by code_simp
  with removeNode_removes_subtree [OF ex_store_ok n ex_store_nth(1,2)] show ?thesis by auto
qed

text \<open>C5. \<^verbatim>\<open>prune\<close> never fails on a finalized block of the tree that has a parent: it makes the finalized block
  the tree root and keeps exactly its descendants, except those below a child that is not after the start
  of the finalized epoch when the finalized block itself is before it. The store keeps its invariant, and
  every block below the new root is found by its root when no child conflicts.\<close>

theorem prune_exact:
  assumes "store_ok s" and "complete s" and "nodeOf s (cp_Root (s_finalizedCheckpoint s)) = Some f"
    and "n_parent (s_heap s ! f) = Some p" and "EpochStart cfg (cp_Epoch (s_finalizedCheckpoint s)) = Inr m"
  shows "\<exists>s'. Store_prune cfg background s = (Inr (), s') \<and> store_ok s' \<and> s_treeRootNode s' = Some f
    \<and> (\<forall>r a. nodeOf s' r = Some a \<longleftrightarrow>
         nodeOf s r = Some a \<and> desc (s_heap s) f a \<and> a \<notin> cutOff (s_heap s) f m)
    \<and> (cutOff (s_heap s) f m = {} \<longrightarrow> complete s')"
proof (rule Store_prune_spec [OF assms])
  fix s' assume *: "Store_prune cfg background s = (Inr (), s')" "store_ok s'" "s_treeRootNode s' = Some f"
    and look: "\<And>r. nodeOf s' r = (case nodeOf s r of None \<Rightarrow> None
      | Some a \<Rightarrow> if desc (s_heap s) f a \<and> a \<notin> cutOff (s_heap s) f m then Some a else None)"
    and c: "cutOff (s_heap s) f m = {} \<Longrightarrow> complete s'"
  have "nodeOf s' r = Some a \<longleftrightarrow> nodeOf s r = Some a \<and> desc (s_heap s) f a \<and> a \<notin> cutOff (s_heap s) f m" for r a
    unfolding look by (auto split: option.split)
  with * c show ?thesis by blast
qed

definition ex_finalized :: "Epoch \<Rightarrow> Store" where
  "ex_finalized e = ex_store\<lparr>s_finalizedCheckpoint := \<lparr>cp_Epoch = e, cp_Root = 2\<rparr>\<rparr>"

lemma ex_finalized_ok: "store_ok (ex_finalized e)" "complete (ex_finalized e)"
  "nodeOf (ex_finalized e) (cp_Root (s_finalizedCheckpoint (ex_finalized e))) = Some 1"
  "n_parent (s_heap (ex_finalized e) ! 1) = Some 0"
  using ex_store_ok store_ok_cong [OF ex_store_ok(1), of "ex_finalized e"]
    complete_cong [OF ex_store_ok, of "ex_finalized e"] ex_store_nth
  by (simp_all add: ex_finalized_def ex_store_tree store_ok_def)

theorem prune_exact_witness:
  "fst (Store_prune mainnetBeaconConfig background (ex_finalized 0)) = Inr ()
   \<and> s_nodeByRoot (snd (Store_prune mainnetBeaconConfig background (ex_finalized 0))) = [(2, 1), (4, 3)]
   \<and> store_ok (snd (Store_prune mainnetBeaconConfig background (ex_finalized 0)))"
proof -
  have m: "EpochStart mainnetBeaconConfig (cp_Epoch (s_finalizedCheckpoint (ex_finalized 0))) = Inr 0"
    and t: "s_nodeByRoot (snd (Store_prune mainnetBeaconConfig background (ex_finalized 0))) = [(2, 1), (4, 3)]"
    by code_simp+
  obtain s' where run: "Store_prune mainnetBeaconConfig background (ex_finalized 0) = (Inr (), s')" "store_ok s'"
    using prune_exact [OF ex_finalized_ok m] by blast
  show ?thesis using t unfolding run(1) fst_conv snd_conv using run(2) by blast
qed

definition ex_conflict :: Store where
  "ex_conflict = ex_store\<lparr>s_justifiedCheckpoint := \<lparr>cp_Epoch = 1, cp_Root = 2\<rparr>,
     s_finalizedCheckpoint := \<lparr>cp_Epoch = 1, cp_Root = 2\<rparr>\<rparr>"

definition ex_pruned :: ForkChoice where
  "ex_pruned = ex_forkchoice\<lparr>f_store := snd (Store_prune mainnetBeaconConfig background ex_conflict)\<rparr>"

lemma ex_conflict_ok: "store_ok ex_conflict" "complete ex_conflict"
  "nodeOf ex_conflict (cp_Root (s_finalizedCheckpoint ex_conflict)) = Some 1" "n_parent (s_heap ex_conflict ! 1) = Some 0"
  using ex_store_ok store_ok_cong [OF ex_store_ok(1), of ex_conflict]
    complete_cong [OF ex_store_ok, of ex_conflict] ex_store_nth
  by (simp_all add: ex_conflict_def ex_store_tree store_ok_def)

text \<open>C26. The pruning of conflicting children is not complete: when the finalized block is not at the start slot of the finalized
  epoch, every child of it that is not after that slot is dropped from the map of nodes but stays among the children of the new tree
  root, so the walk of \<^verbatim>\<open>Head\<close> can still enter it. The example shows that \<^verbatim>\<open>Head\<close> then returns a block that \<^verbatim>\<open>HasNode\<close>
  denies.\<close>

theorem prune_leaves_conflicting_child:
  assumes "store_ok s" and "complete s" and "nodeOf s (cp_Root (s_finalizedCheckpoint s)) = Some f"
    and "n_parent (s_heap s ! f) = Some p" and "EpochStart cfg (cp_Epoch (s_finalizedCheckpoint s)) = Inr m"
    and "n_slot (s_heap s ! f) \<noteq> m" and "c \<in> set (n_children (s_heap s ! f))" and "incompatible (s_heap s) m c"
  shows "\<exists>s'. Store_prune cfg background s = (Inr (), s') \<and> s_treeRootNode s' = Some f
    \<and> c \<in> set (n_children (s_heap s' ! f)) \<and> nodeOf s (n_root (s_heap s ! c)) = Some c
    \<and> nodeOf s' (n_root (s_heap s ! c)) = None"
proof (rule Store_prune_spec [OF assms(1-5)])
  fix s' assume run: "Store_prune cfg background s = (Inr (), s')" "s_treeRootNode s' = Some f"
    and look: "\<And>r. nodeOf s' r = (case nodeOf s r of None \<Rightarrow> None
      | Some a \<Rightarrow> if desc (s_heap s) f a \<and> a \<notin> cutOff (s_heap s) f m then Some a else None)"
    and kids: "n_children (s_heap s' ! f) = n_children (s_heap s ! f)"
  obtain t where t: "s_treeRootNode s = Some t" "desc (s_heap s) t f"
    using nodeOf_ok [OF store_okD(3) [OF assms(1)] assms(3)] by metis
  then have "nodeOf s (n_root (s_heap s ! c)) = Some c"
    using assms(2,7) desc_step unfolding complete_def by blast
  moreover have "c \<in> cutOff (s_heap s) f m"
    using assms(6-8) by (auto simp: cutOff_def conflicting_def incompatible_def)
  ultimately show ?thesis using run kids assms(7) by (simp add: look)
qed

theorem prune_leaves_conflicting_child_witness:
  "store_ok ex_conflict \<and> complete ex_conflict \<and> s_treeRootNode (f_store ex_pruned) = Some 1
   \<and> 3 \<in> set (n_children (f_node ex_pruned 1)) \<and> nodeOf (f_store ex_pruned) (n_root (s_heap ex_conflict ! 3)) = None
   \<and> fst (FC_Head mainnetBeaconConfig background ex_clock ex_pruned) = Inr 4 \<and> \<not> HasNode ex_pruned 4"
proof -
  have "EpochStart mainnetBeaconConfig (cp_Epoch (s_finalizedCheckpoint ex_conflict)) = Inr 32"
    and "n_slot (s_heap ex_conflict ! 1) \<noteq> 32" and "3 \<in> set (n_children (s_heap ex_conflict ! 1))"
    and "incompatible (s_heap ex_conflict) 32 3" by code_simp+
  from prune_leaves_conflicting_child [OF ex_conflict_ok this]
  have "s_treeRootNode (f_store ex_pruned) = Some 1 \<and> 3 \<in> set (n_children (f_node ex_pruned 1))
      \<and> nodeOf (f_store ex_pruned) (n_root (s_heap ex_conflict ! 3)) = None"
    by (auto simp: ex_pruned_def)
  moreover have "fst (FC_Head mainnetBeaconConfig background ex_clock ex_pruned) = Inr 4" by code_simp
  moreover have "\<not> HasNode ex_pruned 4" by code_simp
  ultimately show ?thesis using ex_conflict_ok(1,2) by simp
qed

end
