(* ===== verification/Slasher_Params.thy ===== *)
theory Slasher_Params
  imports Slots
begin

text \<open>
  The slasher's parameters and the layout of its span chunks (\<^verbatim>\<open>beacon-chain/slasher/params.go\<close>).

  A span holds one cell for every epoch of a history of H epochs, cut into chunks of C epochs; the
  chunks of K validators with the same chunk index are stored in one flat slice. The model is of the
  code under positive parameters, as every configuration of the repository has them: with one of
  them zero the divisions panic.
\<close>

section \<open>The parameters\<close>

record Parameters =
  chunkSize :: u64
  validatorChunkSize :: u64
  historyLength :: Epoch

definition DefaultParams :: Parameters where
  "DefaultParams = \<lparr>chunkSize = 16, validatorChunkSize = 256, historyLength = 4096\<rparr>"

definition NewParams :: "u64 \<Rightarrow> u64 \<Rightarrow> Epoch \<Rightarrow> Parameters" where
  "NewParams c k h = \<lparr>chunkSize = c, validatorChunkSize = k, historyLength = h\<rparr>"

definition chunkIndex :: "Parameters \<Rightarrow> Epoch \<Rightarrow> u64" where
  "chunkIndex p epoch = epoch mod historyLength p div chunkSize p"

definition validatorChunkIndex :: "Parameters \<Rightarrow> ValidatorIndex \<Rightarrow> u64" where
  "validatorChunkIndex p validatorIndex = validatorIndex div validatorChunkSize p"

definition firstEpoch :: "Parameters \<Rightarrow> u64 \<Rightarrow> Epoch" where
  "firstEpoch p ci = ci * chunkSize p"

definition lastEpoch :: "Parameters \<Rightarrow> u64 \<Rightarrow> Epoch result" where
  "lastEpoch p ci = Epoch_Add (firstEpoch p ci) (chunkSize p - 1)"

definition chunkOffset :: "Parameters \<Rightarrow> Epoch \<Rightarrow> u64" where
  "chunkOffset p epoch = epoch mod chunkSize p"

definition validatorOffset :: "Parameters \<Rightarrow> ValidatorIndex \<Rightarrow> u64" where
  "validatorOffset p validatorIndex = validatorIndex mod validatorChunkSize p"

definition cellIndex :: "Parameters \<Rightarrow> ValidatorIndex \<Rightarrow> Epoch \<Rightarrow> u64" where
  "cellIndex p validatorIndex epoch = validatorOffset p validatorIndex * chunkSize p + chunkOffset p epoch"

text \<open>
  The database key of a chunk. \<^verbatim>\<open>ssz.MarshalUint64\<close> of the third-party package \<^verbatim>\<open>fastssz\<close> is the
  argument \<open>marshal\<close>.
\<close>

definition flatSliceID :: "(u64 \<Rightarrow> 'key) \<Rightarrow> Parameters \<Rightarrow> u64 \<Rightarrow> u64 \<Rightarrow> 'key result" where
  "flatSliceID marshal p vci ci =
     (let width = historyLength p div chunkSize p in
      rbind (Epoch_Mul width vci) (\<lambda>x. rbind (Epoch_Add x ci) (\<lambda>y. Inr (marshal y))))"

definition ValidatorIndexesInChunk :: "Parameters \<Rightarrow> u64 \<Rightarrow> ValidatorIndex list" where
  "ValidatorIndexesInChunk p vci =
     (let low = vci * validatorChunkSize p; high = (vci + 1) * validatorChunkSize p
      in map of_nat [unat low ..< unat high])"

section \<open>The layout\<close>

text \<open>
  Parameters the layout works for: positive, a history of whole chunks, a flat slice that can be
  addressed, and distances that fit the 16 bits of a cell. The default ones are such.
\<close>

definition params_ok :: "Parameters \<Rightarrow> bool" where
  "params_ok p \<longleftrightarrow> 0 < unat (chunkSize p) \<and> 0 < unat (validatorChunkSize p) \<and> 0 < unat (historyLength p)
     \<and> unat (chunkSize p) dvd unat (historyLength p) \<and> unat (historyLength p) < 65536
     \<and> unat (chunkSize p) * unat (validatorChunkSize p) < 2 ^ 64"

lemma params_okD:
  assumes "params_ok p"
  shows "0 < unat (chunkSize p)" "0 < unat (validatorChunkSize p)" "0 < unat (historyLength p)"
    "unat (chunkSize p) dvd unat (historyLength p)" "unat (historyLength p) < 65536"
    "unat (chunkSize p) * unat (validatorChunkSize p) < 2 ^ 64"
    "unat (chunkSize p) \<le> unat (historyLength p)"
  using assms dvd_imp_le by (auto simp: params_ok_def)

lemma DefaultParams_ok: "params_ok DefaultParams"
  by (simp add: params_ok_def DefaultParams_def)

lemma unat_chunkIndex:
  "unat (chunkIndex p e) = unat e mod unat (historyLength p) div unat (chunkSize p)"
  by (simp add: chunkIndex_def unat_div_u64 unat_mod_u64)

lemma chunkIndex_small:
  "unat e < unat (historyLength p) \<Longrightarrow> unat (chunkIndex p e) = unat e div unat (chunkSize p)"
  by (simp add: unat_chunkIndex)

text \<open>The cell of a validator and an epoch in the flat slice, as a number.\<close>

lemma unat_cellIndex:
  assumes "params_ok p"
  shows "unat (cellIndex p v e) =
      unat v mod unat (validatorChunkSize p) * unat (chunkSize p) + unat e mod unat (chunkSize p)"
    and "unat (cellIndex p v e) < unat (chunkSize p) * unat (validatorChunkSize p)"
proof -
  let ?C = "unat (chunkSize p)" and ?K = "unat (validatorChunkSize p)"
  have vk: "unat v mod ?K < ?K" and ec: "unat e mod ?C < ?C" using params_okD(1,2) [OF assms] by simp_all
  then have "(unat v mod ?K + 1) * ?C \<le> ?K * ?C" by (intro mult_le_mono1) simp
  then have bound: "unat v mod ?K * ?C + unat e mod ?C < ?C * ?K"
    using ec by (simp add: algebra_simps)
  then have "unat v mod ?K * ?C < 2 ^ 64" "unat v mod ?K * ?C + unat e mod ?C < 2 ^ 64"
    using params_okD(6) [OF assms] by linarith+
  then show eq: "unat (cellIndex p v e) = unat v mod ?K * ?C + unat e mod ?C"
    by (simp add: cellIndex_def validatorOffset_def chunkOffset_def unat_mod_u64 unat_mult_exact unat_add_exact)
  show "unat (cellIndex p v e) < ?C * ?K" unfolding eq by (rule bound)
qed

lemma cell_inj:
  fixes c :: nat
  assumes "a * c + x = b * c + y" and "x < c" and "y < c"
  shows "a = b \<and> x = y"
proof -
  have "a = (a * c + x) div c" "b = (b * c + y) div c" "x = (a * c + x) mod c" "y = (b * c + y) mod c"
    using assms(2,3) by simp_all
  then show ?thesis using assms(1) by simp
qed

lemma cells_inj:
  assumes "params_ok p" and vc: "validatorChunkIndex p v = validatorChunkIndex p v'"
    and ec: "chunkIndex p e = chunkIndex p e'"
    and small: "unat e < unat (historyLength p)" "unat e' < unat (historyLength p)"
    and cell: "cellIndex p v e = cellIndex p v' e'"
  shows "v = v' \<and> e = e'"
proof -
  let ?C = "unat (chunkSize p)" and ?K = "unat (validatorChunkSize p)"
  have "unat v mod ?K = unat v' mod ?K \<and> unat e mod ?C = unat e' mod ?C"
    using cell_inj [of "unat v mod ?K" ?C "unat e mod ?C" "unat v' mod ?K" "unat e' mod ?C"]
      arg_cong [OF cell, of unat] unat_cellIndex(1) [OF assms(1)] params_okD(1) [OF assms(1)] by simp
  moreover have "unat v div ?K = unat v' div ?K"
    using arg_cong [OF vc, of unat] by (simp add: validatorChunkIndex_def unat_div_u64)
  moreover have "unat e div ?C = unat e' div ?C"
    using arg_cong [OF ec, of unat] small by (simp add: chunkIndex_small)
  ultimately show ?thesis unfolding u64_eq_iff by (metis div_mult_mod_eq)
qed

text \<open>C29. The cells of a flat slice do not overlap: every cell lies inside the slice, and two validators of the
  same validator chunk and two epochs of the same chunk of the history share a cell only if they are the
  same.\<close>

theorem cells_distinct:
  assumes "params_ok p"
  shows "unat (cellIndex p v e) < unat (chunkSize p) * unat (validatorChunkSize p)
    \<and> (validatorChunkIndex p v = validatorChunkIndex p v' \<longrightarrow> chunkIndex p e = chunkIndex p e' \<longrightarrow>
       unat e < unat (historyLength p) \<longrightarrow> unat e' < unat (historyLength p) \<longrightarrow>
       cellIndex p v e = cellIndex p v' e' \<longrightarrow> v = v' \<and> e = e')"
  using unat_cellIndex(2) [OF assms] cells_inj [OF assms] by blast

theorem cells_distinct_witness:
  "params_ok DefaultParams \<and> cellIndex DefaultParams 258 35 = 35 \<and> unat (cellIndex DefaultParams 258 35) < 16 * 256"
  using cells_distinct [OF DefaultParams_ok, of 258 35 0 0] DefaultParams_ok
  by (simp add: cellIndex_def validatorOffset_def chunkOffset_def DefaultParams_def)

lemma flatSliceID_D:
  assumes "flatSliceID marshal p vci ci = Inr k"
  shows "\<exists>y. unat y = unat vci * (unat (historyLength p) div unat (chunkSize p)) + unat ci \<and> k = marshal y"
  using assms by (auto simp: flatSliceID_def rbind_eq_Inr epoch.unsafe_exact unat_div_u64 mult.commute)

text \<open>C30. Database keys identify chunks: with an injective encoding of the key number, two chunks of the history
  have the same key only if their validator chunk index and their chunk index agree.\<close>

theorem flatSliceID_unique:
  assumes "params_ok p" and "inj marshal"
    and "flatSliceID marshal p vci (chunkIndex p e) = Inr k" and "flatSliceID marshal p vci' (chunkIndex p e') = Inr k"
  shows "vci = vci' \<and> chunkIndex p e = chunkIndex p e'"
proof -
  let ?W = "unat (historyLength p) div unat (chunkSize p)"
  have width: "unat (chunkIndex p x) < ?W" for x
  proof -
    have "unat x mod unat (historyLength p) < ?W * unat (chunkSize p)"
      using params_okD(3,4) [OF assms(1)] by simp
    then show ?thesis by (simp add: unat_chunkIndex less_mult_imp_div_less)
  qed
  obtain y where y: "unat y = unat vci * ?W + unat (chunkIndex p e)" "k = marshal y"
    using flatSliceID_D [OF assms(3)] by blast
  obtain y' where y': "unat y' = unat vci' * ?W + unat (chunkIndex p e')" "k = marshal y'"
    using flatSliceID_D [OF assms(4)] by blast
  have "unat y = unat y'" using y(2) y'(2) assms(2) by (metis injD)
  then show ?thesis
    using cell_inj [of "unat vci" ?W _ "unat vci'"] width y(1) y'(1) unfolding u64_eq_iff by metis
qed

theorem flatSliceID_unique_witness:
  "params_ok DefaultParams \<and> flatSliceID id DefaultParams 2 (chunkIndex DefaultParams 4112) = Inr 513
   \<and> (2 :: u64) = 2 \<and> chunkIndex DefaultParams 4112 = chunkIndex DefaultParams 31"
proof -
  have k: "flatSliceID id DefaultParams 2 (chunkIndex DefaultParams 4112) = Inr 513"
    "flatSliceID id DefaultParams 2 (chunkIndex DefaultParams 31) = Inr 513"
    by code_simp+
  show ?thesis using flatSliceID_unique [OF DefaultParams_ok inj_on_id k] DefaultParams_ok k by blast
qed

text \<open>The validators of a chunk are those with its validator chunk index.\<close>

lemma ValidatorIndexesInChunk_iff:
  assumes "params_ok p" and "(unat vci + 1) * unat (validatorChunkSize p) < 2 ^ 64"
  shows "v \<in> set (ValidatorIndexesInChunk p vci) \<longleftrightarrow> validatorChunkIndex p v = vci"
proof -
  let ?K = "unat (validatorChunkSize p)"
  have "unat vci + 1 < 2 ^ 64"
    using assms(2) params_okD(2) [OF assms(1)] by (metis One_nat_def Suc_leI le_less_trans mult.right_neutral mult_le_mono2)
  then have low: "unat (vci * validatorChunkSize p) = unat vci * ?K"
    and high: "unat ((vci + 1) * validatorChunkSize p) = (unat vci + 1) * ?K"
    using assms(2) by (simp_all add: unat_mult_exact unat_add_exact algebra_simps)
  have "v \<in> set (ValidatorIndexesInChunk p vci) \<longleftrightarrow> unat v \<in> {unat vci * ?K ..< (unat vci + 1) * ?K}"
  proof
    assume "v \<in> set (ValidatorIndexesInChunk p vci)"
    then obtain n where "v = of_nat n" "n \<in> {unat vci * ?K ..< (unat vci + 1) * ?K}"
      unfolding ValidatorIndexesInChunk_def Let_def low high by auto
    moreover from this(2) assms(2) have "n < 2 ^ 64" by simp
    ultimately show "unat v \<in> {unat vci * ?K ..< (unat vci + 1) * ?K}" by (simp add: unat_of_nat)
  next
    assume "unat v \<in> {unat vci * ?K ..< (unat vci + 1) * ?K}"
    then have "(of_nat (unat v) :: u64) \<in> of_nat ` {unat vci * ?K ..< (unat vci + 1) * ?K}" by (rule imageI)
    then show "v \<in> set (ValidatorIndexesInChunk p vci)"
      unfolding ValidatorIndexesInChunk_def Let_def low high by simp
  qed
  also have "\<dots> \<longleftrightarrow> unat v div ?K = unat vci"
  proof -
    have "unat v div ?K = unat vci \<longleftrightarrow> unat vci \<le> unat v div ?K \<and> unat v div ?K < unat vci + 1" by linarith
    then show ?thesis
      using params_okD(2) [OF assms(1)] by (simp add: less_eq_div_iff_mult_less_eq div_less_iff_less_mult)
  qed
  finally show ?thesis by (simp add: validatorChunkIndex_def u64_eq_iff unat_div_u64)
qed

end
