(* ===== verification/Slasher_Chunks.thy ===== *)
theory Slasher_Chunks
  imports Slasher_Params
begin

text \<open>
  The slasher's attestation wrappers (\<^verbatim>\<open>beacon-chain/slasher/types\<close>) and its span chunks
  (\<^verbatim>\<open>beacon-chain/slasher/chunks.go\<close>).

  A chunk is mutated in place by the code and always stored back by its users, so the operations return
  the new slice. An operation that fails abandons the chunk: its users return the error and drop all chunks.
\<close>

section \<open>Attestations\<close>

text \<open>
  The generated message types. \<^verbatim>\<open>IndexedAttestation\<close> has the version \<^verbatim>\<open>Phase0\<close>,
  \<^verbatim>\<open>IndexedAttestationElectra\<close> the version \<^verbatim>\<open>Electra\<close>; both hold the same fields. A field that
  is a pointer is an option.
\<close>

record AttCheckpoint =
  ac_Epoch :: Epoch
  ac_Root :: bytes32

record AttestationData =
  ad_Slot :: Slot
  ad_CommitteeIndex :: u64
  ad_BeaconBlockRoot :: bytes32
  ad_Source :: "AttCheckpoint option"
  ad_Target :: "AttCheckpoint option"

record AttFields =
  att_AttestingIndices :: "u64 list"
  att_Data :: "AttestationData option"
  att_Signature :: "u8 list"

datatype IndexedAtt = IndexedAttestation AttFields | IndexedAttestationElectra AttFields

fun attFields :: "IndexedAtt \<Rightarrow> AttFields" where
  "attFields (IndexedAttestation a) = a"
| "attFields (IndexedAttestationElectra a) = a"

fun IndexedAtt_Version :: "IndexedAtt \<Rightarrow> forkVersion" where
  "IndexedAtt_Version (IndexedAttestation a) = Phase0"
| "IndexedAtt_Version (IndexedAttestationElectra a) = Electra"

datatype AttSlashing =
    AttesterSlashing AttFields AttFields
  | AttesterSlashingElectra AttFields AttFields

datatype ChunkKind = MinSpan | MaxSpan

record IndexedAttestationWrapper =
  w_IndexedAttestation :: "IndexedAtt option"
  w_DataRoot :: bytes32

text \<open>\<^verbatim>\<open>w.IndexedAttestation.GetAttestingIndices()\<close>, and the epochs below \<^verbatim>\<open>GetData()\<close>; a missing pointer panics.\<close>

definition attestingIndices :: "IndexedAttestationWrapper \<Rightarrow> u64 list result" where
  "attestingIndices w =
     (case w_IndexedAttestation w of None \<Rightarrow> Inl Panic | Some a \<Rightarrow> Inr (att_AttestingIndices (attFields a)))"

definition sourceEpoch :: "IndexedAttestationWrapper \<Rightarrow> Epoch result" where
  "sourceEpoch w =
     (case w_IndexedAttestation w of
        None \<Rightarrow> Inl Panic
      | Some a \<Rightarrow> (case att_Data (attFields a) of
          None \<Rightarrow> Inl Panic
        | Some d \<Rightarrow> (case ad_Source d of None \<Rightarrow> Inl Panic | Some c \<Rightarrow> Inr (ac_Epoch c))))"

definition targetEpoch :: "IndexedAttestationWrapper \<Rightarrow> Epoch result" where
  "targetEpoch w =
     (case w_IndexedAttestation w of
        None \<Rightarrow> Inl Panic
      | Some a \<Rightarrow> (case att_Data (attFields a) of
          None \<Rightarrow> Inl Panic
        | Some d \<Rightarrow> (case ad_Target d of None \<Rightarrow> Inl Panic | Some c \<Rightarrow> Inr (ac_Epoch c))))"

text \<open>\<^verbatim>\<open>unifyAttWrapperVersion\<close> (\<^verbatim>\<open>helpers.go\<close>) rewrites one of the two wrappers in place.\<close>

definition toElectra :: "IndexedAttestationWrapper \<Rightarrow> IndexedAttestationWrapper" where
  "toElectra w = w\<lparr>w_IndexedAttestation :=
     map_option (\<lambda>a. IndexedAttestationElectra (attFields a)) (w_IndexedAttestation w)\<rparr>"

definition unifyAttWrapperVersion :: "IndexedAttestationWrapper \<Rightarrow> IndexedAttestationWrapper
    \<Rightarrow> (IndexedAttestationWrapper \<times> IndexedAttestationWrapper) result" where
  "unifyAttWrapperVersion w1 w2 =
     (case (w_IndexedAttestation w1, w_IndexedAttestation w2) of
        (Some a1, Some a2) \<Rightarrow>
          if IndexedAtt_Version a1 = IndexedAtt_Version a2 then Inr (w1, w2)
          else if IndexedAtt_Version a1 \<noteq> Electra then Inr (toElectra w1, w2)
          else Inr (w1, toElectra w2)
      | _ \<Rightarrow> Inl Panic)"

text \<open>
  The slashing built of an existing and an incoming attestation of the same type: the one with the
  lower data root comes first.
\<close>

definition attesterSlashing :: "IndexedAttestationWrapper \<Rightarrow> IndexedAttestationWrapper \<Rightarrow> AttSlashing result" where
  "attesterSlashing existing incoming =
     (let swap = (w_DataRoot existing > w_DataRoot incoming) in
      case (w_IndexedAttestation existing, w_IndexedAttestation incoming) of
        (Some (IndexedAttestationElectra e), Some (IndexedAttestationElectra i)) \<Rightarrow>
          Inr (if swap then AttesterSlashingElectra i e else AttesterSlashingElectra e i)
      | (Some (IndexedAttestation e), Some (IndexedAttestation i)) \<Rightarrow>
          Inr (if swap then AttesterSlashing i e else AttesterSlashing e i)
      | (Some _, Some _) \<Rightarrow> Inl ErrWrongType
      | _ \<Rightarrow> Inl Panic)"

text \<open>Both steps: the slashing, and the incoming wrapper as it is left.\<close>

definition unifiedSlashing :: "IndexedAttestationWrapper \<Rightarrow> IndexedAttestationWrapper
    \<Rightarrow> (AttSlashing \<times> IndexedAttestationWrapper \<times> IndexedAttestationWrapper) result" where
  "unifiedSlashing existing incoming =
     rbind (unifyAttWrapperVersion existing incoming) (\<lambda>(w1, w2).
     rbind (attesterSlashing w1 w2) (\<lambda>s. Inr (s, w1, w2)))"

section \<open>Cells\<close>

type_synonym chunk = "u16 list"

definition requiredLen :: "Parameters \<Rightarrow> u64" where
  "requiredLen p = chunkSize p * validatorChunkSize p"

definition chunkDataAtEpoch :: "Parameters \<Rightarrow> chunk \<Rightarrow> ValidatorIndex \<Rightarrow> Epoch \<Rightarrow> Epoch result" where
  "chunkDataAtEpoch p chunk validatorIdx epoch =
     (if of_nat (length chunk) \<noteq> requiredLen p then Inl ErrChunkLength
      else let cellIdx = cellIndex p validatorIdx epoch in
        if cellIdx \<ge> of_nat (length chunk) then Inl ErrCellIndex
        else Epoch_Add epoch (ucast (chunk ! unat cellIdx)))"

definition epochDistance :: "Epoch \<Rightarrow> Epoch \<Rightarrow> u16 result" where
  "epochDistance epoch baseEpoch =
     (if baseEpoch > epoch then Inl ErrBaseEpoch
      else rbind (Epoch_Sub epoch baseEpoch) (\<lambda>d. Inr (ucast d)))"

definition setChunkRawDistance :: "Parameters \<Rightarrow> chunk \<Rightarrow> ValidatorIndex \<Rightarrow> Epoch \<Rightarrow> u16 \<Rightarrow> chunk result" where
  "setChunkRawDistance p chunk validatorIdx epochInChunk distance =
     (let cellIdx = cellIndex p validatorIdx epochInChunk in
      if cellIdx \<ge> of_nat (length chunk) then Inl ErrCellIndex
      else Inr (chunk[unat cellIdx := distance]))"

definition setChunkDataAtEpoch :: "Parameters \<Rightarrow> chunk \<Rightarrow> ValidatorIndex \<Rightarrow> Epoch \<Rightarrow> Epoch \<Rightarrow> chunk result" where
  "setChunkDataAtEpoch p chunk validatorIdx epochInChunk target =
     rbind (epochDistance target epochInChunk) (setChunkRawDistance p chunk validatorIdx epochInChunk)"

section \<open>The two kinds of chunks\<close>

datatype Chunker = MinSpanChunksSlice chunk | MaxSpanChunksSlice chunk

fun NeutralElement :: "Chunker \<Rightarrow> u16" where
  "NeutralElement (MinSpanChunksSlice d) = 65535"
| "NeutralElement (MaxSpanChunksSlice d) = 0"

fun Chunk :: "Chunker \<Rightarrow> chunk" where
  "Chunk (MinSpanChunksSlice d) = d"
| "Chunk (MaxSpanChunksSlice d) = d"

definition EmptyMinSpanChunksSlice :: "Parameters \<Rightarrow> Chunker" where
  "EmptyMinSpanChunksSlice p = MinSpanChunksSlice (replicate (unat (requiredLen p)) 65535)"

definition EmptyMaxSpanChunksSlice :: "Parameters \<Rightarrow> Chunker" where
  "EmptyMaxSpanChunksSlice p = MaxSpanChunksSlice (replicate (unat (requiredLen p)) 0)"

definition MinChunkSpansSliceFrom :: "Parameters \<Rightarrow> chunk \<Rightarrow> Chunker result" where
  "MinChunkSpansSliceFrom p chunk =
     (if of_nat (length chunk) \<noteq> requiredLen p then Inl ErrChunkLength else Inr (MinSpanChunksSlice chunk))"

definition MaxChunkSpansSliceFrom :: "Parameters \<Rightarrow> chunk \<Rightarrow> Chunker result" where
  "MaxChunkSpansSliceFrom p chunk =
     (if of_nat (length chunk) \<noteq> requiredLen p then Inl ErrChunkLength else Inr (MaxSpanChunksSlice chunk))"

text \<open>
  \<^verbatim>\<open>CheckSlashable\<close>. The database lookup is an argument; the record it returns is a fresh object. The
  result is the slashing, if any, and the incoming wrapper, which the unification may have rewritten.
\<close>

type_synonym record_lookup = "ValidatorIndex \<Rightarrow> Epoch \<Rightarrow> IndexedAttestationWrapper option result"

definition MinSpan_CheckSlashable :: "Parameters \<Rightarrow> chunk \<Rightarrow> record_lookup \<Rightarrow> ValidatorIndex
    \<Rightarrow> IndexedAttestationWrapper \<Rightarrow> (AttSlashing option \<times> IndexedAttestationWrapper) result" where
  "MinSpan_CheckSlashable p data AttestationRecordForValidator validatorIdx incoming =
     rbind (sourceEpoch incoming) (\<lambda>source. rbind (targetEpoch incoming) (\<lambda>target.
     rbind (chunkDataAtEpoch p data validatorIdx source) (\<lambda>minTarget.
     if target \<le> minTarget then Inr (None, incoming)
     else rbind (AttestationRecordForValidator validatorIdx minTarget) (\<lambda>existing.
     case existing of
       None \<Rightarrow> Inr (None, incoming)
     | Some existing \<Rightarrow>
         rbind (sourceEpoch existing) (\<lambda>existingSource.
         if existingSource \<le> source then Inr (None, incoming)
         else rbind (unifiedSlashing existing incoming) (\<lambda>(s, _, incoming'). Inr (Some s, incoming')))))))"

definition MaxSpan_CheckSlashable :: "Parameters \<Rightarrow> chunk \<Rightarrow> record_lookup \<Rightarrow> ValidatorIndex
    \<Rightarrow> IndexedAttestationWrapper \<Rightarrow> (AttSlashing option \<times> IndexedAttestationWrapper) result" where
  "MaxSpan_CheckSlashable p data AttestationRecordForValidator validatorIdx incoming =
     rbind (sourceEpoch incoming) (\<lambda>source. rbind (targetEpoch incoming) (\<lambda>target.
     rbind (chunkDataAtEpoch p data validatorIdx source) (\<lambda>maxTarget.
     if target \<ge> maxTarget then Inr (None, incoming)
     else rbind (AttestationRecordForValidator validatorIdx maxTarget) (\<lambda>existing.
     case existing of
       None \<Rightarrow> Inr (None, incoming)
     | Some existing \<Rightarrow>
         rbind (sourceEpoch existing) (\<lambda>existingSource.
         if existingSource \<ge> source then Inr (None, incoming)
         else rbind (unifiedSlashing existing incoming) (\<lambda>(s, _, incoming'). Inr (Some s, incoming')))))))"

text \<open>
  \<^verbatim>\<open>Update\<close>: the loop over the epochs of a chunk, and the method. The loop of a min span goes down and
  stays at epoch 0 for one more round; \<open>Suc (Suc start)\<close> rounds are enough. The loop of a max span
  goes up to the current epoch.
\<close>

primrec MinSpan_updateLoop :: "nat \<Rightarrow> Parameters \<Rightarrow> u64 \<Rightarrow> Epoch \<Rightarrow> ValidatorIndex \<Rightarrow> Epoch \<Rightarrow> Epoch \<Rightarrow> chunk
    \<Rightarrow> (bool \<times> chunk) result" where
  "MinSpan_updateLoop 0 p ci minEpoch v newTarget epochInChunk data = Inl OutOfFuel"
| "MinSpan_updateLoop (Suc k) p ci minEpoch v newTarget epochInChunk data =
     (if chunkIndex p epochInChunk = ci \<and> epochInChunk \<ge> minEpoch
      then rbind (chunkDataAtEpoch p data v epochInChunk) (\<lambda>chunkTarget.
        if newTarget < chunkTarget
        then rbind (setChunkDataAtEpoch p data v epochInChunk newTarget) (\<lambda>data'.
          MinSpan_updateLoop k p ci minEpoch v newTarget
            (if epochInChunk > 0 then epochInChunk - 1 else epochInChunk) data')
        else Inr (False, data))
      else Inr (epochInChunk \<ge> minEpoch, data))"

definition minEpochOf :: "Parameters \<Rightarrow> Epoch \<Rightarrow> Epoch" where
  "minEpochOf p currentEpoch =
     (if currentEpoch > historyLength p - 1 then currentEpoch - (historyLength p - 1) else 0)"

definition MinSpan_Update :: "Parameters \<Rightarrow> u64 \<Rightarrow> Epoch \<Rightarrow> ValidatorIndex \<Rightarrow> Epoch \<Rightarrow> Epoch \<Rightarrow> chunk
    \<Rightarrow> (bool \<times> chunk) result" where
  "MinSpan_Update p ci currentEpoch v startEpoch newTarget data =
     MinSpan_updateLoop (Suc (Suc (unat startEpoch))) p ci (minEpochOf p currentEpoch) v newTarget startEpoch data"

primrec MaxSpan_updateLoop :: "nat \<Rightarrow> Parameters \<Rightarrow> u64 \<Rightarrow> Epoch \<Rightarrow> ValidatorIndex \<Rightarrow> Epoch \<Rightarrow> Epoch \<Rightarrow> chunk
    \<Rightarrow> (bool \<times> chunk) result" where
  "MaxSpan_updateLoop 0 p ci currentEpoch v newTarget epochInChunk data = Inl OutOfFuel"
| "MaxSpan_updateLoop (Suc k) p ci currentEpoch v newTarget epochInChunk data =
     (if chunkIndex p epochInChunk = ci \<and> epochInChunk \<le> currentEpoch
      then rbind (chunkDataAtEpoch p data v epochInChunk) (\<lambda>chunkTarget.
        if newTarget > chunkTarget
        then rbind (setChunkDataAtEpoch p data v epochInChunk newTarget) (\<lambda>data'.
          MaxSpan_updateLoop k p ci currentEpoch v newTarget (epochInChunk + 1) data')
        else Inr (False, data))
      else Inr (epochInChunk \<le> currentEpoch, data))"

definition MaxSpan_Update :: "Parameters \<Rightarrow> u64 \<Rightarrow> Epoch \<Rightarrow> ValidatorIndex \<Rightarrow> Epoch \<Rightarrow> Epoch \<Rightarrow> chunk
    \<Rightarrow> (bool \<times> chunk) result" where
  "MaxSpan_Update p ci currentEpoch v startEpoch newTarget data =
     MaxSpan_updateLoop (Suc (Suc (unat currentEpoch - unat startEpoch))) p ci currentEpoch v newTarget startEpoch data"

text \<open>\<^verbatim>\<open>StartEpoch\<close>; \<open>None\<close> is \<^verbatim>\<open>exists = false\<close>.\<close>

definition MinSpan_StartEpoch :: "Parameters \<Rightarrow> Epoch \<Rightarrow> Epoch \<Rightarrow> Epoch option result" where
  "MinSpan_StartEpoch p source currentEpoch =
     (if source = 0 then Inr None
      else let difference = (if currentEpoch > historyLength p then currentEpoch - historyLength p else 0) in
        if source \<le> difference then Inr None
        else rbind (Epoch_Sub source 1) (\<lambda>e. Inr (Some e)))"

definition MaxSpan_StartEpoch :: "Epoch \<Rightarrow> Epoch \<Rightarrow> Epoch option result" where
  "MaxSpan_StartEpoch source currentEpoch =
     (if source \<ge> currentEpoch then Inr None
      else rbind (Epoch_Add source 1) (\<lambda>e. Inr (Some e)))"

definition MinSpan_NextChunkStartEpoch :: "Parameters \<Rightarrow> Epoch \<Rightarrow> Epoch result" where
  "MinSpan_NextChunkStartEpoch p startEpoch =
     (let prevChunkIdx = chunkIndex p startEpoch
      in lastEpoch p (if prevChunkIdx > 0 then prevChunkIdx - 1 else prevChunkIdx))"

definition MaxSpan_NextChunkStartEpoch :: "Parameters \<Rightarrow> Epoch \<Rightarrow> Epoch" where
  "MaxSpan_NextChunkStartEpoch p startEpoch = firstEpoch p (chunkIndex p startEpoch + 1)"

section \<open>The interface of a chunk\<close>

fun CheckSlashable :: "Parameters \<Rightarrow> Chunker \<Rightarrow> record_lookup \<Rightarrow> ValidatorIndex
    \<Rightarrow> IndexedAttestationWrapper \<Rightarrow> (AttSlashing option \<times> IndexedAttestationWrapper) result" where
  "CheckSlashable p (MinSpanChunksSlice d) db v w = MinSpan_CheckSlashable p d db v w"
| "CheckSlashable p (MaxSpanChunksSlice d) db v w = MaxSpan_CheckSlashable p d db v w"

fun Chunker_Update :: "Parameters \<Rightarrow> u64 \<Rightarrow> Epoch \<Rightarrow> ValidatorIndex \<Rightarrow> Epoch \<Rightarrow> Epoch \<Rightarrow> Chunker
    \<Rightarrow> (bool \<times> Chunker) result" where
  "Chunker_Update p ci cur v start target (MinSpanChunksSlice d) =
     rbind (MinSpan_Update p ci cur v start target d) (\<lambda>(keepGoing, d'). Inr (keepGoing, MinSpanChunksSlice d'))"
| "Chunker_Update p ci cur v start target (MaxSpanChunksSlice d) =
     rbind (MaxSpan_Update p ci cur v start target d) (\<lambda>(keepGoing, d'). Inr (keepGoing, MaxSpanChunksSlice d'))"

fun Chunker_StartEpoch :: "Parameters \<Rightarrow> Chunker \<Rightarrow> Epoch \<Rightarrow> Epoch \<Rightarrow> Epoch option result" where
  "Chunker_StartEpoch p (MinSpanChunksSlice d) source cur = MinSpan_StartEpoch p source cur"
| "Chunker_StartEpoch p (MaxSpanChunksSlice d) source cur = MaxSpan_StartEpoch source cur"

fun NextChunkStartEpoch :: "Parameters \<Rightarrow> Chunker \<Rightarrow> Epoch \<Rightarrow> Epoch result" where
  "NextChunkStartEpoch p (MinSpanChunksSlice d) start = MinSpan_NextChunkStartEpoch p start"
| "NextChunkStartEpoch p (MaxSpanChunksSlice d) start = Inr (MaxSpan_NextChunkStartEpoch p start)"

end
