(* ===== verification/Slasher_Service.thy ===== *)
theory Slasher_Service
  imports Slasher_Chunks
begin

text \<open>
  The slasher service around the chunks: its queues (\<^verbatim>\<open>queue.go\<close>), the grouping and filtering helpers
  (\<^verbatim>\<open>helpers.go\<close>), the detection of double proposals (\<^verbatim>\<open>detect_blocks.go\<close>) and of slashable
  attestations (\<^verbatim>\<open>detect_attestations.go\<close>), the processing of slashings (\<^verbatim>\<open>process_slashings.go\<close>)
  and the handlers of incoming messages and slot ticks (\<^verbatim>\<open>receive.go\<close>).

  Everything the service calls outside its package is a field of \<open>ServiceConfig\<close>: the database, the
  hash of a slashing, the checks of signatures, the operations pool, the head state and the encoding of
  a database key. A Go map is an association list and is iterated in the order of the list. The
  attestation wrappers of a batch are shared and rewritten in place by the code: the batch is a list,
  and a pointer to one of its wrappers is its position.
\<close>

section \<open>The environment and the state\<close>

record BeaconBlockHeader =
  bh_Slot :: Slot
  bh_ProposerIndex :: ValidatorIndex
  bh_ParentRoot :: bytes32
  bh_StateRoot :: bytes32
  bh_BodyRoot :: bytes32

record SignedBeaconBlockHeader =
  sh_Header :: "BeaconBlockHeader option"
  sh_Signature :: "u8 list"

record SignedBlockHeaderWrapper =
  hw_SignedBeaconBlockHeader :: SignedBeaconBlockHeader
  hw_HeaderRoot :: bytes32

record ProposerSlashing =
  ps_Header_1 :: SignedBeaconBlockHeader
  ps_Header_2 :: SignedBeaconBlockHeader

text \<open>A double vote found in the database; the second wrapper is one of the batch.\<close>

record AttesterDoubleVote =
  dv_Target :: Epoch
  dv_ValidatorIndex :: ValidatorIndex
  dv_Wrapper_1 :: IndexedAttestationWrapper
  dv_Wrapper_2 :: nat

record ('db, 'key, 'pool) ServiceConfig =
  AttestationRecordForValidator :: "'db \<Rightarrow> record_lookup"
  SaveAttestationRecordsForValidators :: "IndexedAttestationWrapper list \<Rightarrow> 'db \<Rightarrow> ('db, unit) outcome"
  CheckAttesterDoubleVotes :: "'db \<Rightarrow> IndexedAttestationWrapper list \<Rightarrow> AttesterDoubleVote list result"
  LoadSlasherChunks :: "'db \<Rightarrow> ChunkKind \<Rightarrow> 'key list \<Rightarrow> (chunk list \<times> bool list) result"
  SaveSlasherChunks :: "ChunkKind \<Rightarrow> 'key list \<Rightarrow> chunk list \<Rightarrow> 'db \<Rightarrow> ('db, unit) outcome"
  CheckDoubleBlockProposals :: "'db \<Rightarrow> SignedBlockHeaderWrapper list \<Rightarrow> ProposerSlashing list result"
  SaveBlockProposals :: "SignedBlockHeaderWrapper list \<Rightarrow> 'db \<Rightarrow> ('db, unit) outcome"
  LastEpochWrittenForValidators :: "'db \<Rightarrow> ValidatorIndex list \<Rightarrow> (ValidatorIndex \<times> Epoch) list result"
  PruneAttestationsAtEpoch :: "Epoch \<Rightarrow> 'db \<Rightarrow> ('db, u64) outcome"
  PruneProposalsAtEpoch :: "Epoch \<Rightarrow> 'db \<Rightarrow> ('db, u64) outcome"
  marshalUint64 :: "u64 \<Rightarrow> 'key"
  slashingRoot :: "AttSlashing \<Rightarrow> bytes32 result"
  dataRoot :: "AttestationData option \<Rightarrow> bytes32 result"
  headerRoot :: "BeaconBlockHeader \<Rightarrow> bytes32 result"
  headStateAvailable :: "unit result"
  attSignatureValid :: "IndexedAtt \<Rightarrow> bool"
  blockSignatureValid :: "SignedBeaconBlockHeader \<Rightarrow> bool"
  InsertAttesterSlashing :: "AttSlashing \<Rightarrow> 'pool \<Rightarrow> 'pool"
  InsertProposerSlashing :: "ProposerSlashing \<Rightarrow> 'pool \<Rightarrow> 'pool"

type_synonym slashings = "(bytes32 \<times> AttSlashing) list"
type_synonym chunks = "(u64 \<times> Chunker) list"
type_synonym batch = "IndexedAttestationWrapper list"

text \<open>The entries of one map put into another.\<close>

definition putAll :: "('k \<times> 'v) list \<Rightarrow> ('k \<times> 'v) list \<Rightarrow> ('k \<times> 'v) list" where
  "putAll new m = fold (\<lambda>(k, v). AList.update k v) new m"

section \<open>Queues\<close>

record attestationsQueue =
  aq_items :: "IndexedAttestationWrapper option list"

record blocksQueue =
  bq_items :: "SignedBlockHeaderWrapper list"

definition newAttestationsQueue :: attestationsQueue where
  "newAttestationsQueue = \<lparr>aq_items = []\<rparr>"

definition newBlocksQueue :: blocksQueue where
  "newBlocksQueue = \<lparr>bq_items = []\<rparr>"

definition attestationsQueue_push :: "IndexedAttestationWrapper option \<Rightarrow> attestationsQueue \<Rightarrow> attestationsQueue" where
  "attestationsQueue_push att q = q\<lparr>aq_items := aq_items q @ [att]\<rparr>"

definition attestationsQueue_dequeue :: "attestationsQueue \<Rightarrow> IndexedAttestationWrapper option list \<times> attestationsQueue" where
  "attestationsQueue_dequeue q = (aq_items q, q\<lparr>aq_items := []\<rparr>)"

definition attestationsQueue_size :: "attestationsQueue \<Rightarrow> nat" where
  "attestationsQueue_size q = length (aq_items q)"

definition attestationsQueue_extend :: "IndexedAttestationWrapper option list \<Rightarrow> attestationsQueue \<Rightarrow> attestationsQueue" where
  "attestationsQueue_extend atts q = q\<lparr>aq_items := aq_items q @ atts\<rparr>"

definition blocksQueue_push :: "SignedBlockHeaderWrapper \<Rightarrow> blocksQueue \<Rightarrow> blocksQueue" where
  "blocksQueue_push blk q = q\<lparr>bq_items := bq_items q @ [blk]\<rparr>"

definition blocksQueue_dequeue :: "blocksQueue \<Rightarrow> SignedBlockHeaderWrapper list \<times> blocksQueue" where
  "blocksQueue_dequeue q = (bq_items q, q\<lparr>bq_items := []\<rparr>)"

definition blocksQueue_size :: "blocksQueue \<Rightarrow> nat" where
  "blocksQueue_size q = length (bq_items q)"

definition blocksQueue_extend :: "SignedBlockHeaderWrapper list \<Rightarrow> blocksQueue \<Rightarrow> blocksQueue" where
  "blocksQueue_extend blks q = q\<lparr>bq_items := bq_items q @ blks\<rparr>"

section \<open>Helpers\<close>

definition appendTo :: "'k \<Rightarrow> 'v \<Rightarrow> ('k \<times> 'v list) list \<Rightarrow> ('k \<times> 'v list) list" where
  "appendTo k v m = AList.update k ((case map_of m k of None \<Rightarrow> [] | Some vs \<Rightarrow> vs) @ [v]) m"

definition groupByValidatorChunkIndex :: "Parameters \<Rightarrow> batch \<Rightarrow> (u64 \<times> nat list) list result" where
  "groupByValidatorChunkIndex p ws =
     rfold (\<lambda>i m. rbind (attestingIndices (ws ! i)) (\<lambda>vs.
         Inr (fold (\<lambda>g. appendTo g i) (remdups (map (validatorChunkIndex p) vs)) m)))
       [0..<length ws] []"

definition groupByChunkIndex :: "Parameters \<Rightarrow> batch \<Rightarrow> nat list \<Rightarrow> (u64 \<times> nat list) list result" where
  "groupByChunkIndex p ws is =
     rfold (\<lambda>i m. rbind (sourceEpoch (ws ! i)) (\<lambda>source. Inr (appendTo (chunkIndex p source) i m))) is []"

definition validateAttestationIntegrity :: "IndexedAtt option \<Rightarrow> bool" where
  "validateAttestationIntegrity att =
     (case att of
        None \<Rightarrow> False
      | Some a \<Rightarrow> (case att_Data (attFields a) of
          None \<Rightarrow> False
        | Some d \<Rightarrow> (case (ad_Source d, ad_Target d) of
            (Some source, Some target) \<Rightarrow>
              if ac_Epoch source = 0 \<and> ac_Epoch target = 0 then True
              else ac_Epoch source < ac_Epoch target
          | _ \<Rightarrow> False)))"

text \<open>\<^verbatim>\<open>filterAttestations\<close>: the body of the loop on the three results, and the function.\<close>

definition filterStep :: "Parameters \<Rightarrow> Epoch \<Rightarrow> IndexedAttestationWrapper option \<Rightarrow> batch \<times> batch \<times> nat
    \<Rightarrow> (batch \<times> batch \<times> nat) result" where
  "filterStep p currentEpoch attWrapper = (\<lambda>(valid, validInFuture, numDropped).
     case attWrapper of
       None \<Rightarrow> Inr (valid, validInFuture, Suc numDropped)
     | Some w \<Rightarrow>
         if \<not> validateAttestationIntegrity (w_IndexedAttestation w)
         then Inr (valid, validInFuture, Suc numDropped)
         else rbind (sourceEpoch w) (\<lambda>source. rbind (targetEpoch w) (\<lambda>target.
           if source + historyLength p \<le> currentEpoch then Inr (valid, validInFuture, Suc numDropped)
           else if target > currentEpoch then Inr (valid, validInFuture @ [w], numDropped)
           else Inr (valid @ [w], validInFuture, numDropped))))"

definition filterAttestations :: "Parameters \<Rightarrow> IndexedAttestationWrapper option list \<Rightarrow> Epoch
    \<Rightarrow> (batch \<times> batch \<times> nat) result" where
  "filterAttestations p attWrappers currentEpoch = rfold (filterStep p currentEpoch) attWrappers ([], [], 0)"

definition BLSSignatureLength :: nat where
  "BLSSignatureLength = 96"

definition validateBlockHeaderIntegrity :: "SignedBeaconBlockHeader option \<Rightarrow> bool" where
  "validateBlockHeaderIntegrity header =
     (case header of
        None \<Rightarrow> False
      | Some h \<Rightarrow> \<not> (sh_Header h = None \<or> length (sh_Signature h) \<noteq> BLSSignatureLength
          \<or> sh_Signature h = replicate BLSSignatureLength 0))"

text \<open>\<^verbatim>\<open>strconv.FormatUint(val, 10)\<close>.\<close>

fun decimal :: "nat \<Rightarrow> string" where
  "decimal n = (if n < 10 then [char_of (48 + n)] else decimal (n div 10) @ [char_of (48 + n mod 10)])"

definition uintToString :: "u64 \<Rightarrow> string" where
  "uintToString val = decimal (unat val)"

definition isDoubleProposal :: "bytes32 \<Rightarrow> bytes32 \<Rightarrow> bool" where
  "isDoubleProposal incomingSigningRoot existingSigningRoot =
     (if existingSigningRoot = ZeroHash then False else incomingSigningRoot \<noteq> existingSigningRoot)"

section \<open>Double proposals\<close>

definition proposalKey :: "SignedBlockHeaderWrapper \<Rightarrow> string result" where
  "proposalKey proposal =
     (case sh_Header (hw_SignedBeaconBlockHeader proposal) of
        None \<Rightarrow> Inl Panic
      | Some h \<Rightarrow> Inr (uintToString (bh_Slot h) @ '':'' @ uintToString (bh_ProposerIndex h)))"

text \<open>The loop over the incoming proposals, on the map of those already seen and the slashings found.\<close>

definition proposalStep :: "SignedBlockHeaderWrapper
    \<Rightarrow> (string \<times> SignedBlockHeaderWrapper) list \<times> ProposerSlashing list
    \<Rightarrow> ((string \<times> SignedBlockHeaderWrapper) list \<times> ProposerSlashing list) result" where
  "proposalStep incoming = (\<lambda>(existingProposals, slashings).
     rbind (proposalKey incoming) (\<lambda>key.
     case map_of existingProposals key of
       None \<Rightarrow> Inr (AList.update key incoming existingProposals, slashings)
     | Some existing \<Rightarrow>
         if isDoubleProposal (hw_HeaderRoot incoming) (hw_HeaderRoot existing)
         then Inr (existingProposals, slashings @
           [\<lparr>ps_Header_1 = hw_SignedBeaconBlockHeader existing, ps_Header_2 = hw_SignedBeaconBlockHeader incoming\<rparr>])
         else Inr (existingProposals, slashings)))"

definition internalSlashings :: "SignedBlockHeaderWrapper list \<Rightarrow> ProposerSlashing list result" where
  "internalSlashings incomingProposals = rbind (rfold proposalStep incomingProposals ([], [])) (\<lambda>(_, sl). Inr sl)"

definition detectProposerSlashings :: "('db, 'key, 'pool) ServiceConfig \<Rightarrow> SignedBlockHeaderWrapper list \<Rightarrow> 'db
    \<Rightarrow> ('db, ProposerSlashing list) outcome" where
  "detectProposerSlashings cfg incomingProposals db =
     (case internalSlashings incomingProposals of
        Inl e \<Rightarrow> (Inl e, db)
      | Inr internal \<Rightarrow>
          (case CheckDoubleBlockProposals cfg db incomingProposals of
             Inl e \<Rightarrow> (Inl e, db)
           | Inr databaseSlashings \<Rightarrow>
               obind (SaveBlockProposals cfg incomingProposals db) (\<lambda>_ db'.
               (Inr (internal @ databaseSlashings), db'))))"

section \<open>Chunks of the database\<close>

definition initChunk :: "Parameters \<Rightarrow> ChunkKind \<Rightarrow> bool \<Rightarrow> chunk \<Rightarrow> Chunker result" where
  "initChunk p chunkKind chunkExists raw =
     (case chunkKind of
        MinSpan \<Rightarrow> if chunkExists then MinChunkSpansSliceFrom p raw else Inr (EmptyMinSpanChunksSlice p)
      | MaxSpan \<Rightarrow> if chunkExists then MaxChunkSpansSliceFrom p raw else Inr (EmptyMaxSpanChunksSlice p))"

definition chunkKeys :: "('db, 'key, 'pool) ServiceConfig \<Rightarrow> Parameters \<Rightarrow> u64 \<Rightarrow> u64 list \<Rightarrow> 'key list result" where
  "chunkKeys cfg p vci chunkIndexes =
     rfold (\<lambda>ci keys. rbind (flatSliceID (marshalUint64 cfg) p vci ci) (\<lambda>k. Inr (keys @ [k]))) chunkIndexes []"

definition loadChunksFromDisk :: "('db, 'key, 'pool) ServiceConfig \<Rightarrow> Parameters \<Rightarrow> 'db \<Rightarrow> u64 \<Rightarrow> ChunkKind \<Rightarrow> u64 list
    \<Rightarrow> chunks result" where
  "loadChunksFromDisk cfg p db vci chunkKind chunkIndexes =
     (if chunkIndexes = [] then Inr []
      else rbind (chunkKeys cfg p vci chunkIndexes) (\<lambda>keys.
        rbind (LoadSlasherChunks cfg db chunkKind keys) (\<lambda>(rawChunks, chunksExist).
        if length rawChunks \<noteq> length chunkIndexes then Inl ErrChunkCount
        else if length chunksExist \<noteq> length chunkIndexes then Inl ErrChunkCount
        else rfold (\<lambda>(ci, raw, exists) m. rbind (initChunk p chunkKind exists raw) (\<lambda>c. Inr (AList.update ci c m)))
               (zip chunkIndexes (zip rawChunks chunksExist)) [])))"

definition getChunkFromDatabase :: "('db, 'key, 'pool) ServiceConfig \<Rightarrow> Parameters \<Rightarrow> 'db \<Rightarrow> ChunkKind \<Rightarrow> u64 \<Rightarrow> u64
    \<Rightarrow> Chunker result" where
  "getChunkFromDatabase cfg p db chunkKind vci ci =
     rbind (loadChunksFromDisk cfg p db vci chunkKind [ci]) (\<lambda>diskChunks.
     case map_of diskChunks ci of Some c \<Rightarrow> Inr c | None \<Rightarrow> Inl ErrMissingChunk)"

text \<open>
  \<^verbatim>\<open>GetChunkFromDatabase\<close> of the inspection tool, on an opened database: the last epoch of the
  validator, the two chunk indices and the chunk.
\<close>

definition GetChunkFromDatabase :: "('db, 'key, 'pool) ServiceConfig \<Rightarrow> Parameters \<Rightarrow> 'db \<Rightarrow> ChunkKind \<Rightarrow> ValidatorIndex
    \<Rightarrow> Epoch \<Rightarrow> (Epoch \<times> u64 \<times> u64 \<times> Chunker) result" where
  "GetChunkFromDatabase cfg p db chunkKind validatorIndex source =
     (let vci = validatorChunkIndex p validatorIndex; ci = chunkIndex p source in
      rbind (LastEpochWrittenForValidators cfg db [validatorIndex]) (\<lambda>lastEpochs.
      case lastEpochs of
        [] \<Rightarrow> Inl ErrNoRecord
      | (_, lastEp) # _ \<Rightarrow>
          rbind (Epoch_Sub lastEp (historyLength p)) (\<lambda>atBestSmallestEpoch.
          if source < atBestSmallestEpoch \<or> source > lastEp then Inl ErrOutsideHistory
          else rbind (getChunkFromDatabase cfg p db chunkKind vci ci) (\<lambda>c. Inr (lastEp, ci, vci, c)))))"

text \<open>\<^verbatim>\<open>saveChunksToDisk\<close>: all chunks of all validator chunk indices in one write.\<close>

definition saveChunksToDisk :: "('db, 'key, 'pool) ServiceConfig \<Rightarrow> Parameters \<Rightarrow> ChunkKind \<Rightarrow> (u64 \<times> chunks) list \<Rightarrow> 'db
    \<Rightarrow> ('db, unit) outcome" where
  "saveChunksToDisk cfg p chunkKind memo db =
     (let entries = [(vci, ci, c). (vci, cs) \<leftarrow> memo, (ci, c) \<leftarrow> cs] in
      case rfold (\<lambda>(vci, ci, c) keys. rbind (flatSliceID (marshalUint64 cfg) p vci ci) (\<lambda>k. Inr (keys @ [k]))) entries [] of
        Inl e \<Rightarrow> (Inl e, db)
      | Inr keys \<Rightarrow> SaveSlasherChunks cfg chunkKind keys (map (\<lambda>(vci, ci, c). Chunk c) entries) db)"

section \<open>Bringing chunks up to the current epoch\<close>

type_synonym epochMap = "(ValidatorIndex \<times> Epoch) list"

definition firstEpochToUpdate :: "Parameters \<Rightarrow> epochMap \<Rightarrow> ValidatorIndex \<Rightarrow> Epoch \<Rightarrow> Epoch option result" where
  "firstEpochToUpdate p latest validatorIndex currentEpoch =
     (let latestEpochUpdated = (case map_of latest validatorIndex of None \<Rightarrow> 0 | Some e \<Rightarrow> e) in
      rbind (Epoch_SafeAdd latestEpochUpdated 1) (\<lambda>next.
      let epochToUpdate = (if map_of latest validatorIndex = None then 0 else next) in
      if latestEpochUpdated = currentEpoch then Inr None
      else if latestEpochUpdated > currentEpoch then Inl ErrEpochToWrite
      else Inr (Some (if currentEpoch - epochToUpdate \<ge> historyLength p
                      then currentEpoch + 1 - historyLength p else epochToUpdate))))"

text \<open>
  The epochs of a loop \<^verbatim>\<open>for e := first; e <= last; e++\<close>. Up to the greatest 64-bit number the loop
  does not end.
\<close>

definition epochRange :: "Epoch \<Rightarrow> Epoch \<Rightarrow> Epoch list result" where
  "epochRange lo hi =
     (if lo > hi then Inr []
      else if hi = MaxUint64 then Inl OutOfFuel
      else Inr (map of_nat [unat lo ..< Suc (unat hi)]))"

definition neededStep :: "Parameters \<Rightarrow> epochMap \<Rightarrow> Epoch \<Rightarrow> ValidatorIndex \<Rightarrow> Epoch option \<times> u64 list
    \<Rightarrow> (Epoch option \<times> u64 list) result" where
  "neededStep p latest currentEpoch validatorIndex = (\<lambda>(minFirst, needed).
     rbind (firstEpochToUpdate p latest validatorIndex currentEpoch) (\<lambda>first.
     case first of
       None \<Rightarrow> Inr (minFirst, needed)
     | Some e \<Rightarrow>
         if (\<exists>m \<in> set_option minFirst. m \<le> e) then Inr (minFirst, needed)
         else rbind (epochRange e currentEpoch) (\<lambda>es. Inr (Some e, fold (\<lambda>x. List.insert (chunkIndex p x)) es needed))))"

definition findNeededChunkIndexes :: "Parameters \<Rightarrow> epochMap \<Rightarrow> ValidatorIndex list \<Rightarrow> Epoch \<Rightarrow> Epoch option
    \<Rightarrow> u64 list result" where
  "findNeededChunkIndexes p latest validatorIndexes currentEpoch minFirst =
     rbind (rfold (neededStep p latest currentEpoch) validatorIndexes (minFirst, [])) (\<lambda>(_, needed). Inr needed)"

fun withData :: "Chunker \<Rightarrow> chunk \<Rightarrow> Chunker" where
  "withData (MinSpanChunksSlice _) d = MinSpanChunksSlice d"
| "withData (MaxSpanChunksSlice _) d = MaxSpanChunksSlice d"

text \<open>
  The neutral element for one validator and one epoch. The nested loops of the code over the chunks and
  over the epochs of a chunk are one loop over the epochs here.
\<close>

definition neutralize :: "Parameters \<Rightarrow> ValidatorIndex \<Rightarrow> Epoch \<Rightarrow> chunks \<Rightarrow> chunks result" where
  "neutralize p validatorIndex epochToUpdate cs =
     (let ci = chunkIndex p epochToUpdate in
      case map_of cs ci of
        None \<Rightarrow> Inl ErrMissingChunk
      | Some c \<Rightarrow>
          rbind (setChunkRawDistance p (Chunk c) validatorIndex epochToUpdate (NeutralElement c)) (\<lambda>d.
          Inr (AList.update ci (withData c d) cs)))"

definition updatedChunkByChunkIndex :: "('db, 'key, 'pool) ServiceConfig \<Rightarrow> Parameters \<Rightarrow> epochMap \<Rightarrow> 'db \<Rightarrow> ChunkKind
    \<Rightarrow> Epoch \<Rightarrow> u64 \<Rightarrow> chunks result" where
  "updatedChunkByChunkIndex cfg p latest db chunkKind currentEpoch vci =
     (let validatorIndexes = ValidatorIndexesInChunk p vci in
      rbind (findNeededChunkIndexes p latest validatorIndexes currentEpoch None) (\<lambda>needed.
      rbind (loadChunksFromDisk cfg p db vci chunkKind needed) (\<lambda>cs.
      rfold (\<lambda>v cs. rbind (firstEpochToUpdate p latest v currentEpoch) (\<lambda>first.
          case first of
            None \<Rightarrow> Inr cs
          | Some e \<Rightarrow> rbind (epochRange e currentEpoch) (\<lambda>es. rfold (neutralize p v) es cs)))
        validatorIndexes cs)))"

section \<open>Surround votes\<close>

definition chunkFor :: "(u64 \<Rightarrow> Chunker result) \<Rightarrow> chunks \<Rightarrow> u64 \<Rightarrow> Chunker result" where
  "chunkFor load cs ci = (case map_of cs ci of Some c \<Rightarrow> Inr c | None \<Rightarrow> load ci)"

text \<open>
  The loop of \<^verbatim>\<open>applyAttestationForValidator\<close> over the chunks of a span. A max span visits at most every
  chunk index twice and a min span every index once and the first one twice, so twice the history
  length is more rounds than there are.
\<close>

primrec updateChunksLoop :: "nat \<Rightarrow> Parameters \<Rightarrow> (u64 \<Rightarrow> Chunker result) \<Rightarrow> Epoch \<Rightarrow> ValidatorIndex \<Rightarrow> Epoch \<Rightarrow> Epoch
    \<Rightarrow> chunks \<Rightarrow> chunks result" where
  "updateChunksLoop 0 p load currentEpoch v target startEpoch cs = Inl OutOfFuel"
| "updateChunksLoop (Suc k) p load currentEpoch v target startEpoch cs =
     (let ci = chunkIndex p startEpoch in
      rbind (chunkFor load cs ci) (\<lambda>c.
      rbind (Chunker_Update p ci currentEpoch v startEpoch target c) (\<lambda>(keepGoing, c').
      let cs' = AList.update ci c' cs in
      if \<not> keepGoing then Inr cs'
      else rbind (NextChunkStartEpoch p c' startEpoch) (\<lambda>startEpoch'.
        updateChunksLoop k p load currentEpoch v target startEpoch' cs'))))"

definition applyAttestationForValidator :: "Parameters \<Rightarrow> record_lookup \<Rightarrow> (u64 \<Rightarrow> Chunker result) \<Rightarrow> chunks
    \<Rightarrow> IndexedAttestationWrapper \<Rightarrow> ValidatorIndex \<Rightarrow> Epoch
    \<Rightarrow> (AttSlashing option \<times> IndexedAttestationWrapper \<times> chunks) result" where
  "applyAttestationForValidator p records load cs w validatorIndex currentEpoch =
     rbind (sourceEpoch w) (\<lambda>source. rbind (targetEpoch w) (\<lambda>target.
     rbind (chunkFor load cs (chunkIndex p source)) (\<lambda>c.
     rbind (CheckSlashable p c records validatorIndex w) (\<lambda>(slashing, w').
     case slashing of
       Some s \<Rightarrow> Inr (Some s, w', cs)
     | None \<Rightarrow>
         rbind (Chunker_StartEpoch p c source currentEpoch) (\<lambda>start.
         case start of
           None \<Rightarrow> Inr (None, w', cs)
         | Some startEpoch \<Rightarrow>
             rbind (updateChunksLoop (2 * unat (historyLength p) + 4) p load currentEpoch validatorIndex target
                      startEpoch cs) (\<lambda>cs'. Inr (None, w', cs')))))))"

text \<open>\<^verbatim>\<open>updateSpans\<close>: one validator of one attestation, one attestation, and the whole batch.\<close>

type_synonym spansState = "batch \<times> chunks \<times> slashings"

definition spanValidator :: "('db, 'key, 'pool) ServiceConfig \<Rightarrow> Parameters \<Rightarrow> 'db \<Rightarrow> ChunkKind \<Rightarrow> u64 \<Rightarrow> Epoch \<Rightarrow> nat
    \<Rightarrow> ValidatorIndex \<Rightarrow> spansState \<Rightarrow> spansState result" where
  "spanValidator cfg p db kind vci currentEpoch i validatorIndex = (\<lambda>(ws, cs, sl).
     if vci \<noteq> validatorChunkIndex p validatorIndex then Inr (ws, cs, sl)
     else rbind (applyAttestationForValidator p (AttestationRecordForValidator cfg db)
                   (getChunkFromDatabase cfg p db kind vci) cs (ws ! i) validatorIndex currentEpoch)
       (\<lambda>(slashing, w', cs').
        case slashing of
          None \<Rightarrow> Inr (ws[i := w'], cs', sl)
        | Some s \<Rightarrow> rbind (slashingRoot cfg s) (\<lambda>root. Inr (ws[i := w'], cs', AList.update root s sl))))"

definition spanAttestation :: "('db, 'key, 'pool) ServiceConfig \<Rightarrow> Parameters \<Rightarrow> 'db \<Rightarrow> ChunkKind \<Rightarrow> u64 \<Rightarrow> Epoch \<Rightarrow> nat
    \<Rightarrow> spansState \<Rightarrow> spansState result" where
  "spanAttestation cfg p db kind vci currentEpoch i = (\<lambda>(ws, cs, sl).
     rbind (attestingIndices (ws ! i)) (\<lambda>vs.
     rfold (spanValidator cfg p db kind vci currentEpoch i) vs (ws, cs, sl)))"

definition updateSpans :: "('db, 'key, 'pool) ServiceConfig \<Rightarrow> Parameters \<Rightarrow> 'db \<Rightarrow> chunks \<Rightarrow> (u64 \<times> nat list) list
    \<Rightarrow> ChunkKind \<Rightarrow> u64 \<Rightarrow> Epoch \<Rightarrow> batch \<Rightarrow> spansState result" where
  "updateSpans cfg p db updatedChunks groups kind vci currentEpoch ws =
     rfold (\<lambda>(_, is) st. rfold (spanAttestation cfg p db kind vci currentEpoch) is st) groups (ws, updatedChunks, [])"

text \<open>\<^verbatim>\<open>checkSurroundVotes\<close>: the variables of its loop, one validator chunk index, and the function.\<close>

definition maxChunkBeforeFlush :: nat where
  "maxChunkBeforeFlush = 25600"

record 'db surroundState =
  su_db :: 'db
  su_latest :: epochMap
  su_batch :: batch
  su_slashings :: slashings
  su_minChunks :: "(u64 \<times> chunks) list"
  su_maxChunks :: "(u64 \<times> chunks) list"
  su_chunksCounts :: nat

definition flushChunks :: "('db, 'key, 'pool) ServiceConfig \<Rightarrow> Parameters \<Rightarrow> 'db surroundState
    \<Rightarrow> ('db surroundState, unit) outcome" where
  "flushChunks cfg p st =
     (case saveChunksToDisk cfg p MinSpan (su_minChunks st) (su_db st) of
        (Inl e, db) \<Rightarrow> (Inl e, st\<lparr>su_db := db\<rparr>)
      | (Inr _, db) \<Rightarrow>
          (case saveChunksToDisk cfg p MaxSpan (su_maxChunks st) db of
             (Inl e, db') \<Rightarrow> (Inl e, st\<lparr>su_db := db'\<rparr>)
           | (Inr _, db') \<Rightarrow> (Inr (), st\<lparr>su_db := db'\<rparr>)))"

text \<open>The detection for one validator chunk index, up to the memoized chunks.\<close>

definition surroundDetect :: "('db, 'key, 'pool) ServiceConfig \<Rightarrow> Parameters \<Rightarrow> Epoch \<Rightarrow> u64 \<times> nat list
    \<Rightarrow> 'db surroundState \<Rightarrow> 'db surroundState result" where
  "surroundDetect cfg p currentEpoch = (\<lambda>(vci, is) st.
     rbind (updatedChunkByChunkIndex cfg p (su_latest st) (su_db st) MinSpan currentEpoch vci) (\<lambda>minChunks.
     rbind (updatedChunkByChunkIndex cfg p (su_latest st) (su_db st) MaxSpan currentEpoch vci) (\<lambda>maxChunks.
     rbind (groupByChunkIndex p (su_batch st) is) (\<lambda>groups.
     rbind (updateSpans cfg p (su_db st) minChunks groups MinSpan vci currentEpoch (su_batch st)) (\<lambda>(ws, minChunks', surrounding).
     rbind (updateSpans cfg p (su_db st) maxChunks groups MaxSpan vci currentEpoch ws) (\<lambda>(ws', maxChunks', surrounded).
     Inr (st\<lparr>su_batch := ws',
            su_slashings := putAll surrounded (putAll surrounding (su_slashings st)),
            su_minChunks := AList.update vci minChunks' (su_minChunks st),
            su_maxChunks := AList.update vci maxChunks' (su_maxChunks st),
            su_chunksCounts := su_chunksCounts st + length minChunks + length maxChunks\<rparr>)))))))"

definition surroundStep :: "('db, 'key, 'pool) ServiceConfig \<Rightarrow> Parameters \<Rightarrow> Epoch \<Rightarrow> u64 \<times> nat list
    \<Rightarrow> 'db surroundState \<Rightarrow> ('db surroundState, unit) outcome" where
  "surroundStep cfg p currentEpoch g st =
     (case surroundDetect cfg p currentEpoch g st of
        Inl e \<Rightarrow> (Inl e, st)
      | Inr st1 \<Rightarrow>
          obind (if su_chunksCounts st1 \<ge> maxChunkBeforeFlush
                 then obind (flushChunks cfg p st1) (\<lambda>_ st2.
                   (Inr (), st2\<lparr>su_chunksCounts := 0, su_minChunks := [], su_maxChunks := []\<rparr>))
                 else (Inr (), st1)) (\<lambda>_ st2.
          (Inr (), st2\<lparr>su_latest := fold (\<lambda>v. AList.update v currentEpoch) (ValidatorIndexesInChunk p (fst g))
                                        (su_latest st2)\<rparr>)))"

primrec surroundLoop :: "('db, 'key, 'pool) ServiceConfig \<Rightarrow> Parameters \<Rightarrow> Epoch \<Rightarrow> (u64 \<times> nat list) list
    \<Rightarrow> 'db surroundState \<Rightarrow> ('db surroundState, unit) outcome" where
  "surroundLoop cfg p currentEpoch [] st = (Inr (), st)"
| "surroundLoop cfg p currentEpoch (g # gs) st =
     obind (surroundStep cfg p currentEpoch g st) (\<lambda>_ st'. surroundLoop cfg p currentEpoch gs st')"

definition checkSurroundVotes :: "('db, 'key, 'pool) ServiceConfig \<Rightarrow> Parameters \<Rightarrow> Epoch \<Rightarrow> batch \<Rightarrow> 'db \<Rightarrow> epochMap
    \<Rightarrow> ('db surroundState, unit) outcome" where
  "checkSurroundVotes cfg p currentEpoch ws db latest =
     (let st = \<lparr>su_db = db, su_latest = latest, su_batch = ws, su_slashings = [], su_minChunks = [],
                su_maxChunks = [], su_chunksCounts = 0\<rparr> in
      case groupByValidatorChunkIndex p ws of
        Inl e \<Rightarrow> (Inl e, st)
      | Inr groups \<Rightarrow> obind (surroundLoop cfg p currentEpoch groups st) (\<lambda>_ st'. flushChunks cfg p st'))"

section \<open>Double votes\<close>

text \<open>
  \<^verbatim>\<open>checkDoubleVotes\<close>: one validator of one attestation of the batch against those seen before, all of
  them, and the double votes the database reports.
\<close>

type_synonym doubleState = "batch \<times> ((u64 \<times> Epoch) \<times> nat) list \<times> slashings"

definition doubleVoteStep :: "('db, 'key, 'pool) ServiceConfig \<Rightarrow> nat \<Rightarrow> Epoch \<Rightarrow> u64 \<Rightarrow> doubleState \<Rightarrow> doubleState result" where
  "doubleVoteStep cfg i target validatorIndex = (\<lambda>(ws, existingAttWrappers, sl).
     let info = (validatorIndex, target) in
     case map_of existingAttWrappers info of
       None \<Rightarrow> Inr (ws, AList.update info i existingAttWrappers, sl)
     | Some j \<Rightarrow>
         if w_DataRoot (ws ! j) = w_DataRoot (ws ! i) then Inr (ws, existingAttWrappers, sl)
         else rbind (unifiedSlashing (ws ! j) (ws ! i)) (\<lambda>(s, w1, w2).
           rbind (slashingRoot cfg s) (\<lambda>root.
           Inr (ws[j := w1, i := w2], existingAttWrappers, AList.update root s sl))))"

definition doubleVoteAtt :: "('db, 'key, 'pool) ServiceConfig \<Rightarrow> nat \<Rightarrow> doubleState \<Rightarrow> doubleState result" where
  "doubleVoteAtt cfg i = (\<lambda>(ws, ex, sl).
     rbind (targetEpoch (ws ! i)) (\<lambda>target. rbind (attestingIndices (ws ! i)) (\<lambda>vs.
     rfold (doubleVoteStep cfg i target) vs (ws, ex, sl))))"

definition databaseDoubleVote :: "('db, 'key, 'pool) ServiceConfig \<Rightarrow> AttesterDoubleVote \<Rightarrow> batch \<times> slashings
    \<Rightarrow> (batch \<times> slashings) result" where
  "databaseDoubleVote cfg doubleVote = (\<lambda>(ws, sl).
     rbind (unifiedSlashing (dv_Wrapper_1 doubleVote) (ws ! dv_Wrapper_2 doubleVote)) (\<lambda>(s, w1, w2).
     rbind (slashingRoot cfg s) (\<lambda>root.
     Inr (ws[dv_Wrapper_2 doubleVote := w2], AList.update root s sl))))"

definition checkDoubleVotes :: "('db, 'key, 'pool) ServiceConfig \<Rightarrow> 'db \<Rightarrow> batch \<Rightarrow> (batch \<times> slashings) result" where
  "checkDoubleVotes cfg db ws =
     rbind (rfold (doubleVoteAtt cfg) [0..<length ws] (ws, [], [])) (\<lambda>(ws1, _, sl).
     rbind (CheckAttesterDoubleVotes cfg db ws1) (\<lambda>doubleVotes.
     rfold (databaseDoubleVote cfg) doubleVotes (ws1, sl)))"

section \<open>The service\<close>

record 'db Service =
  sv_params :: Parameters
  sv_attsQueue :: attestationsQueue
  sv_blksQueue :: blocksQueue
  sv_latestEpochUpdatedForValidator :: epochMap
  sv_db :: 'db

definition checkSlashableAttestations :: "('db, 'key, 'pool) ServiceConfig \<Rightarrow> Epoch \<Rightarrow> batch \<Rightarrow> 'db Service
    \<Rightarrow> ('db Service, slashings) outcome" where
  "checkSlashableAttestations cfg currentEpoch atts s =
     (case checkDoubleVotes cfg (sv_db s) atts of
        Inl e \<Rightarrow> (Inl e, s)
      | Inr (atts1, doubleVoteSlashings) \<Rightarrow>
          (case SaveAttestationRecordsForValidators cfg atts1 (sv_db s) of
             (Inl e, db) \<Rightarrow> (Inl e, s\<lparr>sv_db := db\<rparr>)
           | (Inr _, db) \<Rightarrow>
               (case checkSurroundVotes cfg (sv_params s) currentEpoch atts1 db (sv_latestEpochUpdatedForValidator s) of
                  (r, st) \<Rightarrow>
                    let s' = s\<lparr>sv_db := su_db st, sv_latestEpochUpdatedForValidator := su_latest st\<rparr> in
                    (case r of
                       Inl e \<Rightarrow> (Inl e, s')
                     | Inr _ \<Rightarrow> (Inr (putAll (su_slashings st) (putAll doubleVoteSlashings [])), s')))))"

fun FirstAttestation :: "AttSlashing \<Rightarrow> IndexedAtt" where
  "FirstAttestation (AttesterSlashing a b) = IndexedAttestation a"
| "FirstAttestation (AttesterSlashingElectra a b) = IndexedAttestationElectra a"

fun SecondAttestation :: "AttSlashing \<Rightarrow> IndexedAtt" where
  "SecondAttestation (AttesterSlashing a b) = IndexedAttestation b"
| "SecondAttestation (AttesterSlashingElectra a b) = IndexedAttestationElectra b"

text \<open>The slashings that pass both signature checks go to the operations pool, whose errors are logged only.\<close>

definition processAttesterSlashings :: "('db, 'key, 'pool) ServiceConfig \<Rightarrow> slashings \<Rightarrow> 'pool \<Rightarrow> ('pool, slashings) outcome" where
  "processAttesterSlashings cfg sl pool =
     (if sl = [] then (Inr [], pool)
      else case headStateAvailable cfg of
          Inl e \<Rightarrow> (Inl e, pool)
        | Inr _ \<Rightarrow>
            let good = filter (\<lambda>(root, s). attSignatureValid cfg (FirstAttestation s)
                                 \<and> attSignatureValid cfg (SecondAttestation s)) sl
            in (Inr good, fold (\<lambda>(root, s). InsertAttesterSlashing cfg s) good pool))"

definition processProposerSlashings :: "('db, 'key, 'pool) ServiceConfig \<Rightarrow> ProposerSlashing list \<Rightarrow> 'pool
    \<Rightarrow> ('pool, unit) outcome" where
  "processProposerSlashings cfg sl pool =
     (if sl = [] then (Inr (), pool)
      else case headStateAvailable cfg of
          Inl e \<Rightarrow> (Inl e, pool)
        | Inr _ \<Rightarrow>
            (Inr (), fold (InsertProposerSlashing cfg)
               (filter (\<lambda>s. blockSignatureValid cfg (ps_Header_1 s) \<and> blockSignatureValid cfg (ps_Header_2 s)) sl) pool))"

text \<open>
  One message of the attestation feed and of the block feed. An error of the hash is logged and the
  message dropped.
\<close>

definition receiveAttestation :: "('db, 'key, 'pool) ServiceConfig \<Rightarrow> IndexedAtt option \<Rightarrow> 'db Service \<Rightarrow> 'db Service" where
  "receiveAttestation cfg att s =
     (if \<not> validateAttestationIntegrity att then s
      else case dataRoot cfg (Option.bind att (\<lambda>a. att_Data (attFields a))) of
          Inl e \<Rightarrow> s
        | Inr root \<Rightarrow> s\<lparr>sv_attsQueue := attestationsQueue_push
            (Some \<lparr>w_IndexedAttestation = att, w_DataRoot = root\<rparr>) (sv_attsQueue s)\<rparr>)"

definition receiveBlock :: "('db, 'key, 'pool) ServiceConfig \<Rightarrow> SignedBeaconBlockHeader option \<Rightarrow> 'db Service \<Rightarrow> 'db Service" where
  "receiveBlock cfg blockHeader s =
     (if \<not> validateBlockHeaderIntegrity blockHeader then s
      else case blockHeader of
          None \<Rightarrow> s
        | Some b \<Rightarrow> (case sh_Header b of
            None \<Rightarrow> s
          | Some h \<Rightarrow> (case headerRoot cfg h of
              Inl e \<Rightarrow> s
            | Inr root \<Rightarrow> s\<lparr>sv_blksQueue := blocksQueue_push
                \<lparr>hw_SignedBeaconBlockHeader = b, hw_HeaderRoot = root\<rparr> (sv_blksQueue s)\<rparr>)))"

text \<open>\<^verbatim>\<open>processAttestations\<close>; the result is the map of slashings that were processed, \<open>None\<close> after a logged error.\<close>

definition processAttestations :: "BeaconChainConfig \<Rightarrow> ('db, 'key, 'pool) ServiceConfig
    \<Rightarrow> IndexedAttestationWrapper option list \<Rightarrow> Slot \<Rightarrow> 'db Service \<times> 'pool
    \<Rightarrow> ('db Service \<times> 'pool, slashings option) outcome" where
  "processAttestations bcfg cfg attestations currentSlot = (\<lambda>(s, pool).
     let currentEpoch = ToEpoch bcfg currentSlot in
     case filterAttestations (sv_params s) attestations currentEpoch of
       Inl e \<Rightarrow> (Inl e, s, pool)
     | Inr (valid, validInFuture, numDropped) \<Rightarrow>
         let s1 = s\<lparr>sv_attsQueue := attestationsQueue_extend (map Some validInFuture) (sv_attsQueue s)\<rparr> in
         (case checkSlashableAttestations cfg currentEpoch valid s1 of
            (Inl e, s2) \<Rightarrow> (if goValue e then Inr None else Inl e, s2, pool)
          | (Inr sl, s2) \<Rightarrow>
              (case processAttesterSlashings cfg sl pool of
                 (Inl e, pool') \<Rightarrow> (if goValue e then Inr None else Inl e, s2, pool')
               | (Inr processed, pool') \<Rightarrow> (Inr (Some processed), s2, pool'))))"

text \<open>One slot tick of the three handlers.\<close>

definition processQueuedAttestations :: "BeaconChainConfig \<Rightarrow> ('db, 'key, 'pool) ServiceConfig \<Rightarrow> Slot
    \<Rightarrow> 'db Service \<times> 'pool \<Rightarrow> ('db Service \<times> 'pool, slashings option) outcome" where
  "processQueuedAttestations bcfg cfg currentSlot = (\<lambda>(s, pool).
     case attestationsQueue_dequeue (sv_attsQueue s) of
       (attestations, q) \<Rightarrow> processAttestations bcfg cfg attestations currentSlot (s\<lparr>sv_attsQueue := q\<rparr>, pool))"

definition processQueuedBlocks :: "('db, 'key, 'pool) ServiceConfig \<Rightarrow> 'db Service \<times> 'pool
    \<Rightarrow> ('db Service \<times> 'pool, unit) outcome" where
  "processQueuedBlocks cfg = (\<lambda>(s, pool).
     case blocksQueue_dequeue (sv_blksQueue s) of
       (blocks, q) \<Rightarrow>
         (case detectProposerSlashings cfg blocks (sv_db s) of
            (Inl e, db) \<Rightarrow> (if goValue e then Inr () else Inl e, s\<lparr>sv_blksQueue := q, sv_db := db\<rparr>, pool)
          | (Inr sl, db) \<Rightarrow>
              (case processProposerSlashings cfg sl pool of
                 (Inl e, pool') \<Rightarrow> (if goValue e then Inr () else Inl e, s\<lparr>sv_blksQueue := q, sv_db := db\<rparr>, pool')
               | (Inr _, pool') \<Rightarrow> (Inr (), s\<lparr>sv_blksQueue := q, sv_db := db\<rparr>, pool'))))"

definition pruneSlasherDataWithinSlidingWindow :: "('db, 'key, 'pool) ServiceConfig \<Rightarrow> Epoch \<Rightarrow> 'db Service
    \<Rightarrow> ('db Service, unit) outcome" where
  "pruneSlasherDataWithinSlidingWindow cfg currentEpoch s =
     (if currentEpoch \<ge> historyLength (sv_params s)
      then let maxPruningEpoch = currentEpoch - historyLength (sv_params s) in
        (case PruneAttestationsAtEpoch cfg maxPruningEpoch (sv_db s) of
           (Inl e, db) \<Rightarrow> (Inl e, s\<lparr>sv_db := db\<rparr>)
         | (Inr _, db) \<Rightarrow>
             (case PruneProposalsAtEpoch cfg maxPruningEpoch db of
                (Inl e, db') \<Rightarrow> (Inl e, s\<lparr>sv_db := db'\<rparr>)
              | (Inr _, db') \<Rightarrow> (Inr (), s\<lparr>sv_db := db'\<rparr>)))
      else (Inr (), s))"

end
