(* ===== verification/Slasher_Spans.thy ===== *)
theory Slasher_Spans
  imports Slasher_Service
begin

text \<open>
  What the span chunks store: for every validator and every epoch of the history the least target of
  the attestations with a later source (min spans) and the greatest target of those with an earlier
  source (max spans). While the current epoch is below the history length, every update keeps
  these values, and the check against a chunk finds exactly the surround votes.
\<close>

section \<open>Cells of a chunk as numbers\<close>

abbreviation chunkLen :: "Parameters \<Rightarrow> nat" where
  "chunkLen p \<equiv> unat (chunkSize p) * unat (validatorChunkSize p)"

definition cellSpan :: "Parameters \<Rightarrow> chunk \<Rightarrow> ValidatorIndex \<Rightarrow> Epoch \<Rightarrow> nat" where
  "cellSpan p d v e = unat e + unat (d ! unat (cellIndex p v e))"

lemma unat_u16: "unat (x :: u16) < 65536"
  using unsigned_less [of x] by simp

lemma unat_requiredLen: "params_ok p \<Longrightarrow> unat (requiredLen p) = chunkLen p"
  using params_okD(6) [of p] by (simp add: requiredLen_def unat_mult_exact)

lemma requiredLen_eq: "params_ok p \<Longrightarrow> length d = chunkLen p \<Longrightarrow> of_nat (length d) = requiredLen p"
  using params_okD(6) [of p] by (simp add: requiredLen_def)

lemma cell_in_chunk:
  assumes "params_ok p" and "length d = chunkLen p"
  shows "\<not> cellIndex p v e \<ge> of_nat (length d)"
  using unat_cellIndex(2) [OF assms(1)] unat_requiredLen [OF assms(1)] requiredLen_eq [OF assms]
  by (simp only: word_le_unat not_le)

lemma chunkDataAtEpoch_eq:
  assumes "params_ok p" and "length d = chunkLen p" and "unat e < 65536"
  shows "\<exists>x. chunkDataAtEpoch p d v e = Inr x \<and> unat x = cellSpan p d v e"
proof -
  let ?c = "d ! unat (cellIndex p v e)"
  have "unat (ucast ?c :: u64) = unat ?c" using unat_u16 [of ?c] by (simp add: unsigned_ucast_eq take_bit_nat_eq_self)
  then have "unat (e + ucast ?c) = cellSpan p d v e"
    using unat_u16 [of ?c] assms(3) by (simp add: cellSpan_def unat_add_exact)
  moreover have "chunkDataAtEpoch p d v e = Inr (e + ucast ?c)"
    using cell_in_chunk [OF assms(1,2)] requiredLen_eq [OF assms(1,2)] calculation
    by (simp add: chunkDataAtEpoch_def Let_def epoch.unsafe_exact cellSpan_def \<open>unat (ucast ?c :: u64) = unat ?c\<close>)
  ultimately show ?thesis by blast
qed

lemma setChunkDataAtEpoch_eq:
  assumes "params_ok p" and "length d = chunkLen p" and "unat e \<le> unat t" and "unat t < unat e + 65536"
  shows "\<exists>d'. setChunkDataAtEpoch p d v e t = Inr d' \<and> length d' = chunkLen p
    \<and> cellSpan p d' v e = unat t
    \<and> (\<forall>v' e'. cellIndex p v' e' \<noteq> cellIndex p v e \<longrightarrow> cellSpan p d' v' e' = cellSpan p d v' e')"
proof -
  let ?i = "unat (cellIndex p v e)"
  have le: "\<not> e > t" using assms(3) by (simp add: word_less_unat)
  have sub: "Epoch_Sub t e = Inr (t - e)" using assms(3) by (simp add: epoch.unsafe_exact unat_minus_u64 word_le_unat)
  have dist: "unat (ucast (t - e) :: u16) = unat t - unat e"
    using assms(3,4) by (simp add: unsigned_ucast_eq take_bit_nat_eq_self unat_minus_u64 word_le_unat)
  have i: "?i < length d" using unat_cellIndex(2) [OF assms(1)] assms(2) by simp
  have "setChunkDataAtEpoch p d v e t = Inr (d[?i := ucast (t - e)])"
    using le sub cell_in_chunk [OF assms(1,2)]
    by (simp add: setChunkDataAtEpoch_def epochDistance_def setChunkRawDistance_def Let_def)
  then show ?thesis
    using i dist assms(2,3) by (intro exI [of _ "d[?i := ucast (t - e)]"]) (auto simp: cellSpan_def u64_eq_iff)
qed

text \<open>
  \<open>painted p ci v E t d d'\<close>: the chunk \<open>d'\<close> with index \<open>ci\<close> differs from \<open>d\<close> in the epochs \<open>E\<close> of the
  validator \<open>v\<close> only, where it stores the target \<open>t\<close>.
\<close>

abbreviation inHistory :: "Parameters \<Rightarrow> Epoch \<Rightarrow> bool" where
  "inHistory p e \<equiv> unat e < unat (historyLength p)"

definition painted :: "Parameters \<Rightarrow> u64 \<Rightarrow> ValidatorIndex \<Rightarrow> Epoch set \<Rightarrow> nat \<Rightarrow> chunk \<Rightarrow> chunk \<Rightarrow> bool" where
  "painted p ci v E t d d' \<longleftrightarrow> length d' = chunkLen p
     \<and> (\<forall>v' e. validatorChunkIndex p v' = validatorChunkIndex p v \<longrightarrow> chunkIndex p e = ci \<longrightarrow> inHistory p e \<longrightarrow>
          cellSpan p d' v' e = (if v' = v \<and> e \<in> E then t else cellSpan p d v' e))"

lemma painted_refl: "length d = chunkLen p \<Longrightarrow> painted p ci v {} t d d"
  by (simp add: painted_def)

lemma no_epoch [simp]: "{x. (e :: Epoch) \<le> x \<and> x < e} = {}"
  by auto

lemma painted_trans:
  "painted p ci v E t d d1 \<Longrightarrow> painted p ci v E' t d1 d2 \<Longrightarrow> painted p ci v (E \<union> E') t d d2"
  by (auto simp: painted_def)

lemma painted_cell:
  "painted p ci v E t d d' \<Longrightarrow> chunkIndex p e = ci \<Longrightarrow> inHistory p e \<Longrightarrow>
    cellSpan p d' v e = (if e \<in> E then t else cellSpan p d v e)"
  by (simp add: painted_def)

lemma paint_one:
  assumes "params_ok p" and "length d = chunkLen p" and "unat e \<le> unat t" and "unat t < unat e + 65536"
    and "inHistory p e"
  shows "\<exists>d'. setChunkDataAtEpoch p d v e t = Inr d' \<and> painted p (chunkIndex p e) v {e} (unat t) d d'"
proof -
  obtain d' where d': "setChunkDataAtEpoch p d v e t = Inr d'" "length d' = chunkLen p" "cellSpan p d' v e = unat t"
    "\<And>v' e'. cellIndex p v' e' \<noteq> cellIndex p v e \<Longrightarrow> cellSpan p d' v' e' = cellSpan p d v' e'"
    using setChunkDataAtEpoch_eq [OF assms(1-4)] by blast
  have "cellSpan p d' v' e' = (if v' = v \<and> e' \<in> {e} then unat t else cellSpan p d v' e')"
    if *: "validatorChunkIndex p v' = validatorChunkIndex p v" "chunkIndex p e' = chunkIndex p e" "inHistory p e'" for v' e'
  proof (cases "cellIndex p v' e' = cellIndex p v e")
    case True
    with cells_inj [OF assms(1) * assms(5)] d'(3) show ?thesis by simp
  next
    case False
    then have "\<not> (v' = v \<and> e' \<in> {e})" by auto
    with d'(4) [OF False] show ?thesis by auto
  qed
  with d'(1,2) show ?thesis unfolding painted_def by blast
qed

section \<open>Updates of one chunk\<close>

text \<open>
  The update of a max span: it writes the target into the epochs from the start on whose value is
  smaller, and stops at the end of the chunk, after the current epoch, or at a value that is not smaller.
\<close>

lemma MaxSpan_updateLoop_spec:
  assumes ok: "params_ok p" and cur: "inHistory p cur" and t: "unat t \<le> unat cur"
  shows "length d = chunkLen p \<Longrightarrow> unat e \<le> Suc (unat cur) \<Longrightarrow> Suc (unat cur) - unat e < k \<Longrightarrow>
    \<exists>kg d' e1. MaxSpan_updateLoop k p ci cur v t e d = Inr (kg, d') \<and> e \<le> e1 \<and> unat e1 \<le> Suc (unat cur)
      \<and> painted p ci v {x. e \<le> x \<and> x < e1} (unat t) d d'
      \<and> (\<forall>x. e \<le> x \<and> x < e1 \<longrightarrow> chunkIndex p x = ci \<and> cellSpan p d v x < unat t)
      \<and> (if kg then chunkIndex p e1 \<noteq> ci \<and> e1 \<le> cur
         else e1 > cur \<or> e1 \<le> cur \<and> chunkIndex p e1 = ci \<and> unat t \<le> cellSpan p d v e1)"
proof (induction k arbitrary: e d)
  case (Suc k)
  show ?case
  proof (cases "chunkIndex p e = ci \<and> e \<le> cur")
    case False
    then show ?thesis
      using painted_refl [OF Suc.prems(1)] Suc.prems(2)
      by (intro exI [of _ "e \<le> cur"] exI [of _ d] exI [of _ e]) auto
  next
    case True
    have le: "unat e \<le> unat cur" using True by (simp add: word_le_unat)
    have e: "inHistory p e" "unat e < 65536" using le cur params_okD(5) [OF ok] by arith+
    obtain x where x: "chunkDataAtEpoch p d v e = Inr x" "unat x = cellSpan p d v e"
      using chunkDataAtEpoch_eq [OF ok Suc.prems(1) e(2)] by blast
    show ?thesis
    proof (cases "t > x")
      case False
      have "unat t \<le> cellSpan p d v e" using False x(2) by (simp add: word_less_unat)
      then show ?thesis
        using painted_refl [OF Suc.prems(1)] True x False Suc.prems(2)
        by (intro exI [of _ False] exI [of _ d] exI [of _ e]) auto
    next
      case small: True
      have lt: "cellSpan p d v e < unat t" using small x(2) by (simp add: word_less_unat)
      then have "unat e \<le> unat t" "unat t < unat e + 65536"
        using t cur params_okD(5) [OF ok] by (auto simp: cellSpan_def)
      from paint_one [OF ok Suc.prems(1) this e(1)] True
      obtain d1 where d1: "setChunkDataAtEpoch p d v e t = Inr d1" "painted p ci v {e} (unat t) d d1" by metis
      have e1: "unat (e + 1) = Suc (unat e)" using e(2) by (simp add: unat_add_exact)
      have "length d1 = chunkLen p" using d1(2) by (simp add: painted_def)
      moreover have "unat (e + 1) \<le> Suc (unat cur)" "Suc (unat cur) - unat (e + 1) < k"
        using le Suc.prems(3) unfolding e1 by arith+
      ultimately obtain kg d' e' where rec: "MaxSpan_updateLoop k p ci cur v t (e + 1) d1 = Inr (kg, d')"
        "e + 1 \<le> e'" "unat e' \<le> Suc (unat cur)" "painted p ci v {x. e + 1 \<le> x \<and> x < e'} (unat t) d1 d'"
        "\<forall>x. e + 1 \<le> x \<and> x < e' \<longrightarrow> chunkIndex p x = ci \<and> cellSpan p d1 v x < unat t"
        "if kg then chunkIndex p e' \<noteq> ci \<and> e' \<le> cur
         else e' > cur \<or> e' \<le> cur \<and> chunkIndex p e' = ci \<and> unat t \<le> cellSpan p d1 v e'"
        using Suc.IH by blast
      have after: "e + 1 \<le> y \<longleftrightarrow> e < y" for y by (auto simp: word_le_unat word_less_unat e1)
      have keep: "cellSpan p d1 v y = cellSpan p d v y" if "chunkIndex p y = ci" "y \<le> cur" "e < y" for y
        using painted_cell [OF d1(2) that(1)] that(2,3) cur by (auto simp: word_le_unat)
      have seg: "{e} \<union> {x. e + 1 \<le> x \<and> x < e'} = {x. e \<le> x \<and> x < e'}"
        using rec(2) by (auto simp: after)
      have "painted p ci v {x. e \<le> x \<and> x < e'} (unat t) d d'"
        using painted_trans [OF d1(2) rec(4)] unfolding seg .
      moreover have "chunkIndex p y = ci \<and> cellSpan p d v y < unat t" if y: "e \<le> y \<and> y < e'" for y
      proof (cases "y = e")
        case False
        then have "e < y" using y by auto
        moreover have "y \<le> cur" using y rec(3) by (simp add: word_le_unat word_less_unat)
        ultimately show ?thesis using rec(5) y keep [of y] by (auto simp: after)
      qed (use True lt in simp)
      moreover have "if kg then chunkIndex p e' \<noteq> ci \<and> e' \<le> cur
         else e' > cur \<or> e' \<le> cur \<and> chunkIndex p e' = ci \<and> unat t \<le> cellSpan p d v e'"
        using rec(2,6) keep [of e'] by (auto simp: after split: if_splits)
      ultimately show ?thesis
        using True small x d1(1) rec(1-3) by (intro exI [of _ kg] exI [of _ d'] exI [of _ e']) (simp add: after)
    qed
  qed
qed simp

text \<open>
  The update of a min span: it writes the target into the epochs from the start downwards whose value is
  greater, and stops below the chunk, at a value that is not greater, or after epoch 0.
\<close>

lemma no_epoch_below [simp]: "{x. Suc (unat (e :: Epoch)) \<le> unat x \<and> x \<le> e} = {}"
  by (auto simp: word_le_unat)

lemma below_iff: "Suc (unat (e :: Epoch)) \<le> unat x \<and> x \<le> e \<longleftrightarrow> False"
  by (auto simp: word_le_unat)

lemma MinSpan_updateLoop_spec:
  assumes ok: "params_ok p"
  shows "length d = chunkLen p \<Longrightarrow> inHistory p e \<Longrightarrow> unat e \<le> unat t \<Longrightarrow> Suc (unat e) < k \<Longrightarrow>
    \<exists>kg d' b. MinSpan_updateLoop k p ci 0 v t e d = Inr (kg, d') \<and> b \<le> Suc (unat e)
      \<and> painted p ci v {x. b \<le> unat x \<and> x \<le> e} (unat t) d d'
      \<and> (\<forall>x. b \<le> unat x \<and> x \<le> e \<longrightarrow> chunkIndex p x = ci \<and> unat t < cellSpan p d v x)
      \<and> (if kg then 0 < b \<and> (\<forall>x. Suc (unat x) = b \<longrightarrow> chunkIndex p x \<noteq> ci)
         else \<forall>x. Suc (unat x) = b \<longrightarrow> chunkIndex p x = ci \<and> cellSpan p d v x \<le> unat t)"
proof (induction k arbitrary: e d)
  case (Suc k)
  show ?case
  proof (cases "chunkIndex p e = ci")
    case False
    then show ?thesis
      using painted_refl [OF Suc.prems(1)]
      by (intro exI [of _ True] exI [of _ d] exI [of _ "Suc (unat e)"])
         (simp add: below_iff u64_eq_iff [symmetric])
  next
    case True
    have e: "unat e < 65536" using Suc.prems(2) params_okD(5) [OF ok] by arith
    obtain x where x: "chunkDataAtEpoch p d v e = Inr x" "unat x = cellSpan p d v e"
      using chunkDataAtEpoch_eq [OF ok Suc.prems(1) e] by blast
    show ?thesis
    proof (cases "t < x")
      case False
      have "cellSpan p d v e \<le> unat t" using False x(2) by (simp add: word_less_unat)
      then show ?thesis
        using painted_refl [OF Suc.prems(1)] True x False
        by (intro exI [of _ False] exI [of _ d] exI [of _ "Suc (unat e)"])
           (simp add: below_iff u64_eq_iff [symmetric])
    next
      case big: True
      have gt: "unat t < cellSpan p d v e" using big x(2) by (simp add: word_less_unat)
      then have "unat t < unat e + 65536" using unat_u16 [of "d ! unat (cellIndex p v e)"] unfolding cellSpan_def by arith
      from paint_one [OF ok Suc.prems(1,3) this Suc.prems(2)] True
      obtain d1 where d1: "setChunkDataAtEpoch p d v e t = Inr d1" "painted p ci v {e} (unat t) d d1" by metis
      have len: "length d1 = chunkLen p" using d1(2) by (simp add: painted_def)
      show ?thesis
      proof (cases "e > 0")
        case False
        then have e0: "e = 0" by (simp add: word_neq_0_conv [symmetric])
        obtain y where y: "chunkDataAtEpoch p d1 v 0 = Inr y" "unat y = cellSpan p d1 v 0"
          using chunkDataAtEpoch_eq [OF ok len, of 0] by auto
        have "unat y = unat t" using painted_cell [OF d1(2) True Suc.prems(2)] y(2) e0 by simp
        moreover obtain k' where "k = Suc k'" using Suc.prems(4) by (cases k) auto
        ultimately have "MinSpan_updateLoop k p ci 0 v t 0 d1 = Inr (False, d1)"
          using y(1) True e0 by (simp add: word_less_unat)
        then have "MinSpan_updateLoop (Suc k) p ci 0 v t e d = Inr (False, d1)"
          using True big x(1) d1(1) e0 by simp
        moreover have "{x. 0 \<le> unat x \<and> x \<le> e} = {e}" using e0 by auto
        ultimately show ?thesis
          using d1(2) gt True e0 by (intro exI [of _ False] exI [of _ d1] exI [of _ 0]) simp
      next
        case pos: True
        have e1: "Suc (unat (e - 1)) = unat e" using pos by (simp add: unat_pred_u64 u64_pos_iff)
        obtain kg d' b where rec: "MinSpan_updateLoop k p ci 0 v t (e - 1) d1 = Inr (kg, d')" "b \<le> Suc (unat (e - 1))"
          "painted p ci v {x. b \<le> unat x \<and> x \<le> e - 1} (unat t) d1 d'"
          "\<forall>x. b \<le> unat x \<and> x \<le> e - 1 \<longrightarrow> chunkIndex p x = ci \<and> unat t < cellSpan p d1 v x"
          "if kg then 0 < b \<and> (\<forall>x. Suc (unat x) = b \<longrightarrow> chunkIndex p x \<noteq> ci)
           else \<forall>x. Suc (unat x) = b \<longrightarrow> chunkIndex p x = ci \<and> cellSpan p d1 v x \<le> unat t"
          using Suc.IH [OF len, of "e - 1"] Suc.prems(2-4) e1 by auto
        have before: "y \<le> e - 1 \<longleftrightarrow> y < e" for y using e1 by (auto simp: word_le_unat word_less_unat)
        have keep: "cellSpan p d1 v y = cellSpan p d v y" if "chunkIndex p y = ci" "y < e" for y
          using painted_cell [OF d1(2) that(1)] that(2) Suc.prems(2) by (auto simp: word_less_unat)
        have seg: "{e} \<union> {x. b \<le> unat x \<and> x \<le> e - 1} = {x. b \<le> unat x \<and> x \<le> e}"
          using rec(2) e1 by (auto simp: before)
        have "painted p ci v {x. b \<le> unat x \<and> x \<le> e} (unat t) d d'"
          using painted_trans [OF d1(2) rec(3)] unfolding seg .
        moreover have "chunkIndex p y = ci \<and> unat t < cellSpan p d v y" if y: "b \<le> unat y \<and> y \<le> e" for y
        proof (cases "y = e")
          case False
          then have "y < e" using y by auto
          then show ?thesis using rec(4) y keep [of y] by (auto simp: before)
        qed (use True gt in simp)
        moreover have "y < e" if "Suc (unat y) = b" for y using that rec(2) e1 by (simp add: word_less_unat)
        then have "if kg then 0 < b \<and> (\<forall>x. Suc (unat x) = b \<longrightarrow> chunkIndex p x \<noteq> ci)
           else \<forall>x. Suc (unat x) = b \<longrightarrow> chunkIndex p x = ci \<and> cellSpan p d v x \<le> unat t"
          using rec(5) keep by (auto split: if_splits)
        moreover have "b \<le> Suc (unat e)" using rec(2) e1 by simp
        ultimately show ?thesis
          using True big x(1) d1(1) rec(1) pos by (intro exI [of _ kg] exI [of _ d'] exI [of _ b]) simp
      qed
    qed
  qed
qed simp

lemma MaxSpan_Update_spec:
  assumes "params_ok p" and "inHistory p cur" and "unat t \<le> unat cur" and "length d = chunkLen p" and "unat e \<le> unat cur"
  shows "\<exists>kg d' e1. MaxSpan_Update p ci cur v e t d = Inr (kg, d') \<and> e \<le> e1 \<and> unat e1 \<le> Suc (unat cur)
      \<and> painted p ci v {x. e \<le> x \<and> x < e1} (unat t) d d'
      \<and> (\<forall>x. e \<le> x \<and> x < e1 \<longrightarrow> chunkIndex p x = ci \<and> cellSpan p d v x < unat t)
      \<and> (if kg then chunkIndex p e1 \<noteq> ci \<and> e1 \<le> cur
         else e1 > cur \<or> e1 \<le> cur \<and> chunkIndex p e1 = ci \<and> unat t \<le> cellSpan p d v e1)"
  unfolding MaxSpan_Update_def using assms(5) by (intro MaxSpan_updateLoop_spec [OF assms(1-4)]) arith+

lemma minEpochOf_early: "inHistory p cur \<Longrightarrow> minEpochOf p cur = 0"
  by (auto simp: minEpochOf_def word_less_unat unat_pred_u64)

lemma MinSpan_Update_spec:
  assumes "params_ok p" and "inHistory p cur" and "length d = chunkLen p" and "inHistory p e" and "unat e \<le> unat t"
  shows "\<exists>kg d' b. MinSpan_Update p ci cur v e t d = Inr (kg, d') \<and> b \<le> Suc (unat e)
      \<and> painted p ci v {x. b \<le> unat x \<and> x \<le> e} (unat t) d d'
      \<and> (\<forall>x. b \<le> unat x \<and> x \<le> e \<longrightarrow> chunkIndex p x = ci \<and> unat t < cellSpan p d v x)
      \<and> (if kg then 0 < b \<and> (\<forall>x. Suc (unat x) = b \<longrightarrow> chunkIndex p x \<noteq> ci)
         else \<forall>x. Suc (unat x) = b \<longrightarrow> chunkIndex p x = ci \<and> cellSpan p d v x \<le> unat t)"
  unfolding MinSpan_Update_def minEpochOf_early [OF assms(2)]
  by (intro MinSpan_updateLoop_spec [OF assms(1,3-5)]) simp

section \<open>Updates over the chunks of a span\<close>

text \<open>
  \<open>views p kind load cs look\<close>: the chunk that the code finds under every chunk index, in its map or else in
  the database, is the well-formed chunk \<open>look\<close> gives for it. \<open>span p look v e\<close> is then the value stored
  for a validator and an epoch.
\<close>

fun mkChunk :: "ChunkKind \<Rightarrow> chunk \<Rightarrow> Chunker" where
  "mkChunk MinSpan d = MinSpanChunksSlice d"
| "mkChunk MaxSpan d = MaxSpanChunksSlice d"

definition views :: "Parameters \<Rightarrow> ChunkKind \<Rightarrow> (u64 \<Rightarrow> Chunker result) \<Rightarrow> chunks \<Rightarrow> (u64 \<Rightarrow> chunk) \<Rightarrow> bool" where
  "views p kind load cs look \<longleftrightarrow>
     (\<forall>e. chunkFor load cs (chunkIndex p e) = Inr (mkChunk kind (look (chunkIndex p e)))
        \<and> length (look (chunkIndex p e)) = chunkLen p)"

definition span :: "Parameters \<Rightarrow> (u64 \<Rightarrow> chunk) \<Rightarrow> ValidatorIndex \<Rightarrow> Epoch \<Rightarrow> nat" where
  "span p look v e = cellSpan p (look (chunkIndex p e)) v e"

definition repainted :: "Parameters \<Rightarrow> ValidatorIndex \<Rightarrow> Epoch set \<Rightarrow> nat \<Rightarrow> (u64 \<Rightarrow> chunk) \<Rightarrow> (u64 \<Rightarrow> chunk) \<Rightarrow> bool" where
  "repainted p v E t look look' \<longleftrightarrow>
     (\<forall>v' e. validatorChunkIndex p v' = validatorChunkIndex p v \<longrightarrow> inHistory p e \<longrightarrow>
        span p look' v' e = (if v' = v \<and> e \<in> E then t else span p look v' e))"

lemma viewsD:
  assumes "views p kind load cs look"
  shows "chunkFor load cs (chunkIndex p e) = Inr (mkChunk kind (look (chunkIndex p e)))"
    "length (look (chunkIndex p e)) = chunkLen p"
  using assms by (simp_all add: views_def)

lemma views_update:
  "views p kind load cs look \<Longrightarrow> length d = chunkLen p \<Longrightarrow>
    views p kind load (AList.update ci (mkChunk kind d) cs) (look(ci := d))"
  by (simp add: views_def chunkFor_def update_conv')

lemma painted_repainted:
  "painted p ci v E t (look ci) d \<Longrightarrow> \<forall>x \<in> E. chunkIndex p x = ci \<Longrightarrow> repainted p v E t look (look(ci := d))"
  by (auto simp: painted_def repainted_def span_def)

lemma repainted_trans:
  "repainted p v E t look1 look2 \<Longrightarrow> repainted p v E' t look2 look3 \<Longrightarrow> repainted p v (E \<union> E') t look1 look3"
  by (auto simp: repainted_def)

lemma repainted_span:
  "repainted p v E t look look' \<Longrightarrow> inHistory p e \<Longrightarrow> span p look' v e = (if e \<in> E then t else span p look v e)"
  by (simp add: repainted_def)

text \<open>The next chunk starts where the update of a chunk has ended.\<close>

lemma div_step:
  fixes n c :: nat
  assumes "0 < n" and "n div c \<noteq> (n - 1) div c"
  shows "n = ((n - 1) div c + 1) * c"
proof -
  obtain m where n: "n = Suc m" using assms(1) by (cases n) auto
  have "Suc m mod c = 0" using assms(2) by (simp add: n div_Suc split: if_splits)
  moreover from this have "Suc m div c = Suc (m div c)" by (simp add: div_Suc)
  ultimately show ?thesis using div_mult_mod_eq [of "Suc m" c] by (simp add: n)
qed

lemma MaxSpan_next:
  assumes ok: "params_ok p" and cur: "inHistory p cur" and "e < e1" and "e1 \<le> cur"
    and same: "\<And>x. e \<le> x \<Longrightarrow> x < e1 \<Longrightarrow> chunkIndex p x = chunkIndex p e" and other: "chunkIndex p e1 \<noteq> chunkIndex p e"
  shows "MaxSpan_NextChunkStartEpoch p e = e1"
proof -
  let ?C = "unat (chunkSize p)"
  have hist: "inHistory p e1" "inHistory p e" "0 < unat e1"
    using assms(2-4) by (auto simp: word_le_unat word_less_unat)
  have pred: "unat (e1 - 1) = unat e1 - 1" using hist(3) by (rule unat_pred_u64)
  have "e \<le> e1 - 1" "e1 - 1 < e1" using assms(3) hist(3) pred by (simp_all add: word_le_unat word_less_unat)
  from same [OF this] have q: "(unat e1 - 1) div ?C = unat e div ?C"
    using hist pred by (simp add: u64_eq_iff chunkIndex_small)
  have "unat e1 div ?C \<noteq> unat e div ?C" using other hist by (simp add: u64_eq_iff chunkIndex_small)
  with div_step [OF hist(3), of ?C] have n: "unat e1 = (unat e div ?C + 1) * ?C" unfolding q by simp
  have "unat (chunkIndex p e + 1) = unat e div ?C + 1"
    using hist(2) params_okD(5) [OF ok] le_less_trans [OF div_le_dividend [of "unat e" ?C], of 65536]
    by (subst unat_add_exact) (simp_all add: chunkIndex_small)
  then have "unat (firstEpoch p (chunkIndex p e + 1)) = unat e1"
    using n unat_u64_bound [of e1] unfolding firstEpoch_def by (subst unat_mult_exact) simp_all
  then show ?thesis by (simp add: MaxSpan_NextChunkStartEpoch_def u64_eq_iff)
qed

lemma MinSpan_next:
  assumes ok: "params_ok p" and hist: "inHistory p e" and b: "0 < b" "b \<le> unat e"
    and same: "\<And>x. b \<le> unat x \<Longrightarrow> x \<le> e \<Longrightarrow> chunkIndex p x = chunkIndex p e"
    and other: "\<And>x. Suc (unat x) = b \<Longrightarrow> chunkIndex p x \<noteq> chunkIndex p e"
  shows "\<exists>x. MinSpan_NextChunkStartEpoch p e = Inr x \<and> Suc (unat x) = b"
proof -
  let ?C = "unat (chunkSize p)" and ?q = "unat e div unat (chunkSize p)"
  define y z where "y = (of_nat b :: Epoch)" and "z = (of_nat (b - 1) :: Epoch)"
  have "b < 2 ^ 64" using b(2) unat_u64_bound [of e] by simp
  then have yz: "unat y = b" "Suc (unat z) = b" using b(1) by (simp_all add: y_def z_def unat_of_nat del: of_nat_diff)
  have "b div ?C = ?q"
    using same [of y] yz b(2) hist by (simp add: word_le_unat u64_eq_iff chunkIndex_small)
  moreover have "(b - 1) div ?C \<noteq> ?q"
    using other [OF yz(2)] yz(2) b(2) hist by (simp add: u64_eq_iff chunkIndex_small flip: yz(2))
  ultimately have n: "b = ((b - 1) div ?C + 1) * ?C" using div_step [OF b(1)] by metis
  then have "(b - 1) div ?C + 1 = ?q" using \<open>b div ?C = ?q\<close> params_okD(1) [OF ok] by (metis nonzero_mult_div_cancel_right not_less_zero)
  with n have q: "?q * ?C = b" "0 < ?q" by (metis, simp)
  have ci: "unat (chunkIndex p e) = ?q" using hist by (rule chunkIndex_small)
  then have prev: "unat (chunkIndex p e - 1) = ?q - 1" using q(2) by (simp add: unat_pred_u64)
  have "(?q - 1) * ?C + ?C = b" using q by (metis Suc_diff_1 add.commute mult_Suc)
  then have "unat (firstEpoch p (chunkIndex p e - 1)) = (?q - 1) * ?C"
    using \<open>b < 2 ^ 64\<close> unfolding firstEpoch_def by (subst unat_mult_exact) (simp_all add: prev)
  moreover have "unat (chunkSize p - 1) = ?C - 1" using params_okD(1) [OF ok] by (rule unat_pred_u64)
  ultimately have "unat (firstEpoch p (chunkIndex p e - 1)) + unat (chunkSize p - 1) = unat z"
    using \<open>(?q - 1) * ?C + ?C = b\<close> yz(2) params_okD(1) [OF ok] by simp
  then have "lastEpoch p (chunkIndex p e - 1) = Inr z" by (simp add: lastEpoch_def epoch.unsafe_exact)
  moreover have "chunkIndex p e > 0" using ci q(2) by (simp add: u64_pos_iff)
  ultimately show ?thesis using yz(2) by (simp add: MinSpan_NextChunkStartEpoch_def)
qed

text \<open>
  A whole update of a max span: it writes the target over the epochs from the start up to the first
  value that is not smaller, or up to the current epoch.
\<close>

lemma MaxSpan_updateChunks:
  assumes ok: "params_ok p" and cur: "inHistory p cur" and t: "unat t \<le> unat cur"
  shows "views p MaxSpan load cs look \<Longrightarrow> e \<le> cur \<Longrightarrow> unat cur - unat e < k \<Longrightarrow>
    \<exists>cs' look' e1. updateChunksLoop k p load cur v t e cs = Inr cs' \<and> views p MaxSpan load cs' look' \<and> e \<le> e1
      \<and> repainted p v {x. e \<le> x \<and> x < e1} (unat t) look look'
      \<and> (\<forall>x. e \<le> x \<and> x < e1 \<longrightarrow> x \<le> cur \<and> span p look v x < unat t)
      \<and> (e1 \<le> cur \<longrightarrow> unat t \<le> span p look v e1)"
proof (induction k arbitrary: e cs look)
  case (Suc k)
  let ?ci = "chunkIndex p e"
  note view = viewsD [OF Suc.prems(1)]
  have le: "unat e \<le> unat cur" using Suc.prems(2) by (simp add: word_le_unat)
  obtain kg d e1 where up: "MaxSpan_Update p ?ci cur v e t (look ?ci) = Inr (kg, d)" "e \<le> e1" "unat e1 \<le> Suc (unat cur)"
    "painted p ?ci v {x. e \<le> x \<and> x < e1} (unat t) (look ?ci) d"
    "\<forall>x. e \<le> x \<and> x < e1 \<longrightarrow> chunkIndex p x = ?ci \<and> cellSpan p (look ?ci) v x < unat t"
    "if kg then chunkIndex p e1 \<noteq> ?ci \<and> e1 \<le> cur
     else e1 > cur \<or> e1 \<le> cur \<and> chunkIndex p e1 = ?ci \<and> unat t \<le> cellSpan p (look ?ci) v e1"
    using MaxSpan_Update_spec [OF ok cur t view(2) le] by blast
  let ?cs = "AList.update ?ci (MaxSpanChunksSlice d) cs" and ?look = "look(?ci := d)"
  have step: "updateChunksLoop (Suc k) p load cur v t e cs =
      (if kg then updateChunksLoop k p load cur v t (MaxSpan_NextChunkStartEpoch p e) ?cs else Inr ?cs)"
    using up(1) view(1) by (simp add: Let_def)
  have view': "views p MaxSpan load ?cs ?look"
    using views_update [OF Suc.prems(1), of d ?ci] up(4) by (simp add: painted_def)
  have paint: "repainted p v {x. e \<le> x \<and> x < e1} (unat t) look ?look"
    using up(4,5) by (intro painted_repainted) auto
  have before: "x \<le> cur" if "x < e1" for x using up(3) that by (simp add: word_le_unat word_less_unat)
  have seen: "\<forall>x. e \<le> x \<and> x < e1 \<longrightarrow> x \<le> cur \<and> span p look v x < unat t"
    using up(5) before by (simp add: span_def)
  show ?case
  proof (cases kg)
    case False
    with up(6) have "e1 \<le> cur \<longrightarrow> unat t \<le> span p look v e1" by (auto simp: span_def)
    with False step view' up(2) paint seen show ?thesis by auto
  next
    case True
    with up(2,6) have e1: "e < e1" "e1 \<le> cur" "chunkIndex p e1 \<noteq> ?ci" by (auto simp: order.order_iff_strict)
    have nxt: "MaxSpan_NextChunkStartEpoch p e = e1" using MaxSpan_next [OF ok cur e1(1,2)] up(5) e1(3) by blast
    have "unat cur - unat e1 < k" using e1 Suc.prems(3) by (simp add: word_le_unat word_less_unat)
    from Suc.IH [OF view' e1(2) this] obtain cs' look' e2 where
      rec: "updateChunksLoop k p load cur v t e1 ?cs = Inr cs'" "views p MaxSpan load cs' look'" "e1 \<le> e2"
      "repainted p v {x. e1 \<le> x \<and> x < e2} (unat t) ?look look'"
      "\<forall>x. e1 \<le> x \<and> x < e2 \<longrightarrow> x \<le> cur \<and> span p ?look v x < unat t" "e2 \<le> cur \<longrightarrow> unat t \<le> span p ?look v e2"
      by blast
    have same: "span p ?look v x = span p look v x" if "e1 \<le> x" "x \<le> cur" for x
      using repainted_span [OF paint, of x] that cur by (auto simp: word_le_unat word_less_unat)
    have seg: "{x. e \<le> x \<and> x < e1} \<union> {x. e1 \<le> x \<and> x < e2} = {x. e \<le> x \<and> x < e2}"
      using e1(1) rec(3) by (auto simp: word_le_unat word_less_unat)
    have "repainted p v {x. e \<le> x \<and> x < e2} (unat t) look look'"
      using repainted_trans [OF paint rec(4)] unfolding seg .
    moreover have "\<forall>x. e \<le> x \<and> x < e2 \<longrightarrow> x \<le> cur \<and> span p look v x < unat t"
      using seen rec(5) same by (metis not_le_imp_less)
    moreover have "e2 \<le> cur \<longrightarrow> unat t \<le> span p look v e2" using rec(3,6) same by auto
    moreover have "e \<le> e2" using e1(1) rec(3) by auto
    ultimately show ?thesis using True step nxt rec(1,2) by auto
  qed
qed simp

text \<open>
  A whole update of a min span: it writes the target over the epochs from the start down to the first
  value that is not greater, or down to epoch 0.
\<close>

lemma MinSpan_updateChunks:
  assumes ok: "params_ok p" and cur: "inHistory p cur"
  shows "views p MinSpan load cs look \<Longrightarrow> inHistory p e \<Longrightarrow> unat e \<le> unat t \<Longrightarrow> unat e < k \<Longrightarrow>
    \<exists>cs' look' b. updateChunksLoop k p load cur v t e cs = Inr cs' \<and> views p MinSpan load cs' look' \<and> b \<le> Suc (unat e)
      \<and> repainted p v {x. b \<le> unat x \<and> x \<le> e} (unat t) look look'
      \<and> (\<forall>x. b \<le> unat x \<and> x \<le> e \<longrightarrow> unat t < span p look v x)
      \<and> (\<forall>x. Suc (unat x) = b \<longrightarrow> span p look v x \<le> unat t)"
proof (induction k arbitrary: e cs look)
  case (Suc k)
  let ?ci = "chunkIndex p e"
  note view = viewsD [OF Suc.prems(1)]
  obtain kg d b where up: "MinSpan_Update p ?ci cur v e t (look ?ci) = Inr (kg, d)" "b \<le> Suc (unat e)"
    "painted p ?ci v {x. b \<le> unat x \<and> x \<le> e} (unat t) (look ?ci) d"
    "\<forall>x. b \<le> unat x \<and> x \<le> e \<longrightarrow> chunkIndex p x = ?ci \<and> unat t < cellSpan p (look ?ci) v x"
    "if kg then 0 < b \<and> (\<forall>x. Suc (unat x) = b \<longrightarrow> chunkIndex p x \<noteq> ?ci)
     else \<forall>x. Suc (unat x) = b \<longrightarrow> chunkIndex p x = ?ci \<and> cellSpan p (look ?ci) v x \<le> unat t"
    using MinSpan_Update_spec [OF ok cur view(2) Suc.prems(2,3)] by blast
  let ?cs = "AList.update ?ci (MinSpanChunksSlice d) cs" and ?look = "look(?ci := d)"
  have step: "updateChunksLoop (Suc k) p load cur v t e cs =
      (if kg then rbind (MinSpan_NextChunkStartEpoch p e) (\<lambda>e'. updateChunksLoop k p load cur v t e' ?cs) else Inr ?cs)"
    using up(1) view(1) by (simp add: Let_def)
  have view': "views p MinSpan load ?cs ?look"
    using views_update [OF Suc.prems(1), of d ?ci] up(3) by (simp add: painted_def)
  have paint: "repainted p v {x. b \<le> unat x \<and> x \<le> e} (unat t) look ?look"
    using up(3,4) by (intro painted_repainted) auto
  have seen: "\<forall>x. b \<le> unat x \<and> x \<le> e \<longrightarrow> unat t < span p look v x" using up(4) by (auto simp: span_def)
  show ?case
  proof (cases kg)
    case False
    with up(5) have "\<forall>x. Suc (unat x) = b \<longrightarrow> span p look v x \<le> unat t" by (auto simp: span_def)
    with False step view' up(2) paint seen show ?thesis by auto
  next
    case True
    with up(2,5) have b: "0 < b" "b \<le> unat e" "\<forall>x. Suc (unat x) = b \<longrightarrow> chunkIndex p x \<noteq> ?ci"
      by (auto simp: le_Suc_eq)
    obtain x where x: "MinSpan_NextChunkStartEpoch p e = Inr x" "Suc (unat x) = b"
      using MinSpan_next [OF ok Suc.prems(2) b(1,2)] up(4) b(3) by blast
    have "inHistory p x" "unat x \<le> unat t" "unat x < k" using x(2) b(2) Suc.prems(2-4) by simp_all
    from Suc.IH [OF view' this] obtain cs' look' b' where
      rec: "updateChunksLoop k p load cur v t x ?cs = Inr cs'" "views p MinSpan load cs' look'" "b' \<le> Suc (unat x)"
      "repainted p v {y. b' \<le> unat y \<and> y \<le> x} (unat t) ?look look'"
      "\<forall>y. b' \<le> unat y \<and> y \<le> x \<longrightarrow> unat t < span p ?look v y" "\<forall>y. Suc (unat y) = b' \<longrightarrow> span p ?look v y \<le> unat t"
      by blast
    have same: "span p ?look v y = span p look v y" if "y \<le> x" for y
      using repainted_span [OF paint, of y] that x(2) b(2) Suc.prems(2) by (auto simp: word_le_unat)
    have seg: "{y. b \<le> unat y \<and> y \<le> e} \<union> {y. b' \<le> unat y \<and> y \<le> x} = {y. b' \<le> unat y \<and> y \<le> e}"
      using x(2) b(2) rec(3) by (auto simp: word_le_unat)
    have "repainted p v {y. b' \<le> unat y \<and> y \<le> e} (unat t) look look'"
      using repainted_trans [OF paint rec(4)] unfolding seg .
    moreover have "unat t < span p look v y" if "b' \<le> unat y" "y \<le> e" for y
      using seen rec(5) same [of y] that x(2) by (cases "y \<le> x") (auto simp: word_le_unat)
    moreover have "\<forall>y. Suc (unat y) = b' \<longrightarrow> span p look v y \<le> unat t"
      using rec(3,6) same by (simp add: word_le_unat)
    moreover have "b' \<le> Suc (unat e)" using rec(3) x(2) b(2) by simp
    ultimately show ?thesis using True step x(1) rec(1,2) by auto
  qed
qed simp

end
