(* ===== verification/Slasher_Detect.thy ===== *)
theory Slasher_Detect
  imports Slasher_Spans
begin

text \<open>
  What the span chunks are for: the value a chunk stores for a validator and an epoch is the extreme
  target of the validator's attestations on the other side of the epoch, and comparing it with an
  incoming attestation finds exactly the surround votes. The statements hold as long as the current epoch is
  inside the history window; the last section shows what the code does after it.
\<close>

section \<open>The specification of a span\<close>

type_synonym votes = "(Epoch \<times> Epoch) set"

definition spanTargets :: "(nat \<Rightarrow> nat \<Rightarrow> bool) \<Rightarrow> votes \<Rightarrow> nat \<Rightarrow> nat set" where
  "spanTargets side A e = {unat t |s t. (s, t) \<in> A \<and> side (unat s) e}"

fun spanOf :: "ChunkKind \<Rightarrow> votes \<Rightarrow> nat \<Rightarrow> nat" where
  "spanOf MinSpan A e = Min (insert (e + 65535) (spanTargets (>) A e))"
| "spanOf MaxSpan A e = Max (insert e (spanTargets (<) A e))"

text \<open>An incoming vote \<open>(s, t)\<close> surrounds an earlier one, or is surrounded by it.\<close>

fun conflicts :: "ChunkKind \<Rightarrow> Epoch \<times> Epoch \<Rightarrow> Epoch \<times> Epoch \<Rightarrow> bool" where
  "conflicts MinSpan (s', t') (s, t) = (s < s' \<and> t' < t)"
| "conflicts MaxSpan (s', t') (s, t) = (s' < s \<and> t < t')"

definition conflicted :: "ChunkKind \<Rightarrow> votes \<Rightarrow> Epoch \<times> Epoch \<Rightarrow> bool" where
  "conflicted kind A vote \<longleftrightarrow> (\<exists>a \<in> A. conflicts kind a vote)"

lemma finite_spanTargets [simp]: "finite (spanTargets side A e)"
proof (rule finite_subset)
  show "spanTargets side A e \<subseteq> unat ` (UNIV :: Epoch set)" by (auto simp: spanTargets_def)
qed simp

lemma spanTargets_insert:
  "spanTargets side (insert (s, t) A) e =
     (if side (unat s) e then insert (unat t) (spanTargets side A e) else spanTargets side A e)"
  by (auto simp: spanTargets_def)

text \<open>
  The two kinds of span follow one scheme: on one \<open>side\<close> of an epoch the \<open>pick\<close> of the targets, an
  attestation conflicting when the span value lies \<open>beyond\<close> its target.
\<close>

locale span_scheme =
  fixes val :: "votes \<Rightarrow> nat \<Rightarrow> nat" and side beyond :: "nat \<Rightarrow> nat \<Rightarrow> bool" and pick :: "nat \<Rightarrow> nat \<Rightarrow> nat"
    and clash :: "Epoch \<times> Epoch \<Rightarrow> Epoch \<times> Epoch \<Rightarrow> bool"
  assumes clash_iff: "clash (s', t') (s, t) \<longleftrightarrow> side (unat s') (unat s) \<and> beyond (unat t) (unat t')"
    and attained: "s < t \<Longrightarrow> unat t < 65536 \<Longrightarrow> beyond (unat t) (val A (unat s)) \<Longrightarrow>
      val A (unat s) \<in> spanTargets side A (unat s)"
    and extreme: "m \<in> spanTargets side A e \<Longrightarrow> beyond x m \<Longrightarrow> beyond x (val A e)"
    and val_insert: "val (insert (s, t) A) e = (if side (unat s) e then pick (unat t) (val A e) else val A e)"
begin

lemma found:
  fixes s t :: Epoch
  assumes "s < t" and "unat t < 65536" and "beyond (unat t) (val A (unat s))"
  shows "\<exists>s' t'. (s', t') \<in> A \<and> unat t' = val A (unat s) \<and> side (unat s') (unat s)"
  using attained [OF assms] unfolding spanTargets_def mem_Collect_eq by metis

lemma clash_found:
  fixes s t :: Epoch
  assumes "s < t" and "unat t < 65536"
  shows "(\<exists>a \<in> A. clash a (s, t)) \<longleftrightarrow> beyond (unat t) (val A (unat s))"
proof
  assume "\<exists>a \<in> A. clash a (s, t)"
  then obtain s' t' where "(s', t') \<in> A" "side (unat s') (unat s)" "beyond (unat t) (unat t')"
    by (auto simp: clash_iff)
  then show "beyond (unat t) (val A (unat s))" by (intro extreme) (auto simp: spanTargets_def)
next
  assume "beyond (unat t) (val A (unat s))"
  with found [OF assms this] show "\<exists>a \<in> A. clash a (s, t)" by (metis clash_iff)
qed

text \<open>A vote repaints exactly the epochs where its target is picked.\<close>

lemma repaint:
  assumes "x \<in> E \<Longrightarrow> side (unat s) x \<and> pick (unat t) (val A x) = unat t"
    and "x \<notin> E \<Longrightarrow> side (unat s) x \<Longrightarrow> pick (unat t) (val A x) = val A x"
  shows "(if x \<in> E then unat t else val A x) = val (insert (s, t) A) x"
  using assms by (simp add: val_insert)

end

lemma Min_insert_below:
  fixes d :: nat
  assumes "finite T" and "Min (insert d T) < d"
  shows "Min (insert d T) \<in> T"
  using Min_in [of "insert d T"] assms by auto

interpretation maxspan: span_scheme "spanOf MaxSpan" "(<)" "(<)" max "conflicts MaxSpan"
proof
  fix s t :: Epoch and A
  assume *: "s < t" "unat t < spanOf MaxSpan A (unat s)"
  let ?T = "insert (unat s) (spanTargets (<) A (unat s))"
  have "Max ?T \<in> ?T" by (rule Max_in) simp_all
  moreover have "Max ?T \<noteq> unat s" using * by (simp add: word_less_unat)
  ultimately show "spanOf MaxSpan A (unat s) \<in> spanTargets (<) A (unat s)" by simp
next
  fix m x e A
  assume "m \<in> spanTargets (<) A e" "x < m"
  then show "x < spanOf MaxSpan A e" using Max_ge [of "insert e (spanTargets (<) A e)" m] by (simp del: Max_ge)
next
  fix s t :: Epoch and A e
  have "Max (insert e (insert (unat t) (spanTargets (<) A e))) = max (unat t) (Max (insert e (spanTargets (<) A e)))"
    by (subst insert_commute) simp
  then show "spanOf MaxSpan (insert (s, t) A) e =
      (if unat s < e then max (unat t) (spanOf MaxSpan A e) else spanOf MaxSpan A e)"
    by (simp add: spanTargets_insert)
qed (simp add: word_less_unat)

interpretation minspan: span_scheme "spanOf MinSpan" "(>)" "(>)" min "conflicts MinSpan"
proof
  fix s t :: Epoch and A
  assume *: "s < t" "unat t < 65536" "spanOf MinSpan A (unat s) < unat t"
  then show "spanOf MinSpan A (unat s) \<in> spanTargets (>) A (unat s)"
    using Min_insert_below [of "spanTargets (>) A (unat s)" "unat s + 65535"] by (simp del: Min_insert)
next
  fix m x e A
  assume "m \<in> spanTargets (>) A e" "m < x"
  then show "spanOf MinSpan A e < x" using Min_le [of "insert (e + 65535) (spanTargets (>) A e)" m] by (simp del: Min_le)
next
  fix s t :: Epoch and A e
  have "Min (insert (e + 65535) (insert (unat t) (spanTargets (>) A e)))
      = min (unat t) (Min (insert (e + 65535) (spanTargets (>) A e)))"
    by (subst insert_commute) simp
  then show "spanOf MinSpan (insert (s, t) A) e =
      (if e < unat s then min (unat t) (spanOf MinSpan A e) else spanOf MinSpan A e)"
    by (simp add: spanTargets_insert)
qed (auto simp: word_less_unat)

lemma spanOf_mono:
  assumes "e \<le> e'"
  shows "spanOf MaxSpan A e \<le> spanOf MaxSpan A e'" "spanOf MinSpan A e \<le> spanOf MinSpan A e'"
    "e \<le> spanOf MaxSpan A e"
proof -
  have sub: "spanTargets (<) A e \<subseteq> spanTargets (<) A e'" "spanTargets (>) A e' \<subseteq> spanTargets (>) A e"
    using assms by (fastforce simp: spanTargets_def)+
  have up: "x \<le> spanOf MaxSpan A e'" if "x \<in> insert e (spanTargets (<) A e)" for x
  proof -
    have "y \<le> spanOf MaxSpan A e'" if "y \<in> insert e' (spanTargets (<) A e')" for y
      unfolding spanOf.simps by (rule Max_ge) (use that in simp_all)
    from this [of x] this [of e'] show ?thesis using that sub(1) assms by (auto simp del: spanOf.simps)
  qed
  then show "spanOf MaxSpan A e \<le> spanOf MaxSpan A e'" by (simp del: Max_insert)
  show "e \<le> spanOf MaxSpan A e" by simp
  have down: "spanOf MinSpan A e \<le> x" if "x \<in> insert (e' + 65535) (spanTargets (>) A e')" for x
  proof -
    have "spanOf MinSpan A e \<le> y" if "y \<in> insert (e + 65535) (spanTargets (>) A e)" for y
      unfolding spanOf.simps by (rule Min_le) (use that in simp_all)
    from this [of x] this [of "e + 65535"] show ?thesis using that sub(2) assms by (auto simp del: spanOf.simps)
  qed
  then show "spanOf MinSpan A e \<le> spanOf MinSpan A e'" by (simp del: Min_insert)
qed

declare spanOf.simps [simp del]

section \<open>The check of an attestation\<close>

text \<open>The two attestations of a slashing, and the wrappers that hold the same attestation up to its version.\<close>

definition evidence :: "AttSlashing \<Rightarrow> AttFields set" where
  "evidence sl = {attFields (FirstAttestation sl), attFields (SecondAttestation sl)}"

definition voteOf :: "IndexedAttestationWrapper \<Rightarrow> AttFields option" where
  "voteOf w = map_option attFields (w_IndexedAttestation w)"

lemma voteOf_same:
  assumes "voteOf w' = voteOf w"
  shows "sourceEpoch w' = sourceEpoch w" "targetEpoch w' = targetEpoch w" "attestingIndices w' = attestingIndices w"
  using assms by (cases "w_IndexedAttestation w"; cases "w_IndexedAttestation w'";
    simp add: voteOf_def sourceEpoch_def targetEpoch_def attestingIndices_def)+

lemma sourceEpoch_voteOf: "sourceEpoch w = Inr s \<Longrightarrow> \<exists>a. voteOf w = Some a"
  by (auto simp: sourceEpoch_def voteOf_def split: option.splits)

lemma unifiedSlashing_ok:
  assumes "voteOf e = Some a" and "voteOf i = Some b"
  shows "\<exists>sl e' i'. unifiedSlashing e i = Inr (sl, e', i') \<and> evidence sl = {a, b} \<and> voteOf e' = Some a \<and> voteOf i' = Some b"
proof -
  obtain x y where xy: "w_IndexedAttestation e = Some x" "attFields x = a" "w_IndexedAttestation i = Some y" "attFields y = b"
    using assms by (auto simp: voteOf_def)
  show ?thesis
    by (cases x; cases y)
       (use xy in \<open>auto simp: unifiedSlashing_def unifyAttWrapperVersion_def attesterSlashing_def toElectra_def evidence_def
          voteOf_def Let_def\<close>)
qed

fun aside :: "ChunkKind \<Rightarrow> nat \<Rightarrow> nat \<Rightarrow> bool" where
  "aside MinSpan a b = (a > b)"
| "aside MaxSpan a b = (a < b)"

lemma CheckSlashable_eq:
  assumes "sourceEpoch w = Inr s" and "targetEpoch w = Inr t" and "chunkDataAtEpoch p d v s = Inr x"
  shows "CheckSlashable p (mkChunk kind d) records v w =
    (if \<not> aside kind (unat t) (unat x) then Inr (None, w)
     else rbind (records v x) (\<lambda>existing.
       case existing of
         None \<Rightarrow> Inr (None, w)
       | Some r \<Rightarrow> rbind (sourceEpoch r) (\<lambda>s'.
           if \<not> aside kind (unat s') (unat s) then Inr (None, w)
           else rbind (unifiedSlashing r w) (\<lambda>(sl, _, w'). Inr (Some sl, w')))))"
  by (induct kind)
     (simp_all add: assms MinSpan_CheckSlashable_def MaxSpan_CheckSlashable_def word_le_unat not_less cong: option.case_cong)

text \<open>The database returns the recorded attestation of a validator for each target it has voted for.\<close>

definition recorded :: "record_lookup \<Rightarrow> ValidatorIndex \<Rightarrow> votes \<Rightarrow> bool" where
  "recorded records v A \<longleftrightarrow>
     (\<forall>(s, t) \<in> A. \<exists>r. records v t = Inr (Some r) \<and> sourceEpoch r = Inr s \<and> targetEpoch r = Inr t)"

text \<open>The outcome the check should have: a slashing of a conflicting recorded vote and the incoming one, or none.\<close>

definition reports :: "ChunkKind \<Rightarrow> record_lookup \<Rightarrow> ValidatorIndex \<Rightarrow> votes \<Rightarrow> IndexedAttestationWrapper
    \<Rightarrow> AttSlashing \<Rightarrow> bool" where
  "reports kind records v A w sl \<longleftrightarrow>
     (\<exists>s' t' r a b s t. (s', t') \<in> A \<and> sourceEpoch w = Inr s \<and> targetEpoch w = Inr t \<and> conflicts kind (s', t') (s, t)
        \<and> records v t' = Inr (Some r) \<and> sourceEpoch r = Inr s' \<and> targetEpoch r = Inr t'
        \<and> voteOf r = Some a \<and> voteOf w = Some b \<and> evidence sl = {a, b})"

lemma conflicted_iff:
  assumes "s < t" and "unat t < 65536"
  shows "conflicted kind A (s, t) \<longleftrightarrow> aside kind (unat t) (spanOf kind A (unat s))"
  unfolding conflicted_def
  using maxspan.clash_found [OF assms] minspan.clash_found [OF assms] by (cases kind) simp_all

lemma conflict_found:
  assumes "s < t" and "unat t < 65536" and "conflicted kind A (s, t)"
  shows "\<exists>s' t'. (s', t') \<in> A \<and> unat t' = spanOf kind A (unat s) \<and> aside kind (unat s') (unat s)"
proof -
  have "aside kind (unat t) (spanOf kind A (unat s))" using conflicted_iff assms by blast
  then show ?thesis
    using maxspan.found [OF assms(1,2)] minspan.found [OF assms(1,2)] by (cases kind) simp_all
qed

lemma conflicts_iff: "conflicts kind (s', t') (s, t) \<longleftrightarrow> aside kind (unat s') (unat s) \<and> aside kind (unat t) (unat t')"
  by (cases kind) (auto simp: word_less_unat)

lemma CheckSlashable_spec:
  assumes ok: "params_ok p" and len: "length d = chunkLen p" and st: "sourceEpoch w = Inr s" "targetEpoch w = Inr t"
    and lt: "s < t" "unat t < 65536" and cell: "cellSpan p d v s = spanOf kind A (unat s)" and rec: "recorded records v A"
  shows "if conflicted kind A (s, t)
    then \<exists>sl w'. CheckSlashable p (mkChunk kind d) records v w = Inr (Some sl, w') \<and> voteOf w' = voteOf w
        \<and> reports kind records v A w sl
    else CheckSlashable p (mkChunk kind d) records v w = Inr (None, w)"
proof -
  have "unat s < 65536" using lt by (simp add: word_less_unat)
  then obtain x where x: "chunkDataAtEpoch p d v s = Inr x" "unat x = spanOf kind A (unat s)"
    using chunkDataAtEpoch_eq [OF ok len] cell by metis
  show ?thesis
  proof (cases "conflicted kind A (s, t)")
    case False
    then show ?thesis using CheckSlashable_eq [OF st x(1)] conflicted_iff [OF lt] x(2) by simp
  next
    case True
    then have beyond: "aside kind (unat t) (unat x)" using conflicted_iff [OF lt] x(2) by simp
    obtain s' t' where vote: "(s', t') \<in> A" "unat t' = unat x" "aside kind (unat s') (unat s)"
      using conflict_found [OF lt True] x(2) by metis
    then have t': "t' = x" by (simp add: u64_eq_iff)
    obtain r where r: "records v x = Inr (Some r)" "sourceEpoch r = Inr s'" "targetEpoch r = Inr x"
      using rec vote(1) unfolding recorded_def t' by blast
    obtain a b where ab: "voteOf r = Some a" "voteOf w = Some b" using sourceEpoch_voteOf r(2) st(1) by metis
    obtain sl r' w' where sl: "unifiedSlashing r w = Inr (sl, r', w')" "evidence sl = {a, b}" "voteOf w' = voteOf w"
      using unifiedSlashing_ok [OF ab] ab(2) by metis
    have "CheckSlashable p (mkChunk kind d) records v w = Inr (Some sl, w')"
      using CheckSlashable_eq [OF st x(1)] beyond vote(3) r sl(1) by simp
    moreover have "reports kind records v A w sl"
      unfolding reports_def using vote beyond r ab sl(2) st t' by (metis conflicts_iff)
    ultimately show ?thesis using True sl(3) by auto
  qed
qed

section \<open>The update by an attestation\<close>

text \<open>The chunks hold the spans of the votes \<open>A\<close> of every validator of one validator chunk.\<close>

definition tracks :: "Parameters \<Rightarrow> ChunkKind \<Rightarrow> (u64 \<Rightarrow> chunk) \<Rightarrow> (ValidatorIndex \<Rightarrow> votes) \<Rightarrow> u64 \<Rightarrow> bool" where
  "tracks p kind look A vci \<longleftrightarrow>
     (\<forall>v e. validatorChunkIndex p v = vci \<longrightarrow> inHistory p e \<longrightarrow> span p look v e = spanOf kind (A v) (unat e))"

lemma tracks_repainted:
  assumes "repainted p v E (unat t) look look'" and "tracks p kind look A (validatorChunkIndex p v)"
    and "\<And>e. inHistory p e \<Longrightarrow> (if e \<in> E then unat t else spanOf kind (A v) (unat e)) = spanOf kind (insert (s, t) (A v)) (unat e)"
  shows "tracks p kind look' (A(v := insert (s, t) (A v))) (validatorChunkIndex p v)"
  unfolding tracks_def
proof (intro allI impI)
  fix v' e
  assume *: "validatorChunkIndex p v' = validatorChunkIndex p v" "inHistory p e"
  then have "span p look' v' e = (if v' = v \<and> e \<in> E then unat t else spanOf kind (A v') (unat e))"
    using assms(1,2) by (simp add: repainted_def tracks_def)
  with assms(3) [OF *(2)] show "span p look' v' e = spanOf kind ((A(v := insert (s, t) (A v))) v') (unat e)"
    by auto
qed

lemma MaxSpan_apply:
  assumes ok: "params_ok p" and cur: "inHistory p cur" and view: "views p MaxSpan load cs look"
    and tr: "tracks p MaxSpan look A (validatorChunkIndex p v)" and "s < t" "t \<le> cur"
  shows "\<exists>start cs' look'. MaxSpan_StartEpoch s cur = Inr (Some start)
    \<and> updateChunksLoop (2 * unat (historyLength p) + 4) p load cur v t start cs = Inr cs' \<and> views p MaxSpan load cs' look'
    \<and> tracks p MaxSpan look' (A(v := insert (s, t) (A v))) (validatorChunkIndex p v)"
proof -
  have n: "unat s < unat t" "unat t \<le> unat cur" using assms(5,6) by (simp_all add: word_le_unat word_less_unat)
  have s1: "unat (s + 1) = Suc (unat s)" using n unat_u64_bound [of cur] by (simp add: unat_add_exact)
  then have start: "MaxSpan_StartEpoch s cur = Inr (Some (s + 1))" "s + 1 \<le> cur"
    using n by (simp_all add: MaxSpan_StartEpoch_def word_le_unat epoch.unsafe_exact rbind_eq_Inr)
  have val: "span p look v e = spanOf MaxSpan (A v) (unat e)" if "inHistory p e" for e
    using tr that by (simp add: tracks_def)
  have fuel: "unat cur - unat (s + 1) < 2 * unat (historyLength p) + 4" using cur by arith
  obtain cs' look' e1 where up: "updateChunksLoop (2 * unat (historyLength p) + 4) p load cur v t (s + 1) cs = Inr cs'"
    "views p MaxSpan load cs' look'" "s + 1 \<le> e1" "repainted p v {x. s + 1 \<le> x \<and> x < e1} (unat t) look look'"
    "\<forall>x. s + 1 \<le> x \<and> x < e1 \<longrightarrow> x \<le> cur \<and> span p look v x < unat t" "e1 \<le> cur \<longrightarrow> unat t \<le> span p look v e1"
    using MaxSpan_updateChunks [OF ok cur n(2) view start(2) fuel, of v] by blast
  have "tracks p MaxSpan look' (A(v := insert (s, t) (A v))) (validatorChunkIndex p v)"
  proof (rule tracks_repainted [OF up(4) tr])
    fix e assume e: "inHistory p e"
    have after: "s + 1 \<le> e \<longleftrightarrow> unat s < unat e" by (simp add: word_le_unat s1 Suc_le_eq)
    have "unat t \<le> spanOf MaxSpan (A v) (unat e)" if late: "e1 \<le> e"
    proof (cases "e1 \<le> cur")
      case True
      then have "inHistory p e1" using cur by (simp add: word_le_unat)
      then show ?thesis using up(6) True val [of e1] spanOf_mono(1) [of "unat e1" "unat e" "A v"] late by (simp add: word_le_unat)
    next
      case False
      then show ?thesis using n(2) late spanOf_mono(3) [of "unat e" "unat e" "A v"]
        by (simp add: word_le_unat)
    qed
    then show "(if e \<in> {x. s + 1 \<le> x \<and> x < e1} then unat t else spanOf MaxSpan (A v) (unat e))
        = spanOf MaxSpan (insert (s, t) (A v)) (unat e)"
      unfolding maxspan.val_insert using up(5) val [OF e] after by auto
  qed
  with start(1) up(1,2) show ?thesis by blast
qed

lemma MinSpan_start:
  assumes "inHistory p cur"
  shows "MinSpan_StartEpoch p s cur = Inr (if s = 0 then None else Some (s - 1))"
proof -
  have early: "\<not> historyLength p < cur" using assms by (simp add: word_less_unat)
  show ?thesis
  proof (cases "s = 0")
    case False
    then have "0 < unat s" by (simp add: u64_eq_iff)
    then have "Epoch_Sub s 1 = Inr (s - 1)" by (simp add: epoch.unsafe_exact unat_pred_u64)
    with False early show ?thesis by (simp add: MinSpan_StartEpoch_def)
  qed (simp add: MinSpan_StartEpoch_def)
qed

lemma MinSpan_apply:
  assumes ok: "params_ok p" and cur: "inHistory p cur" and view: "views p MinSpan load cs look"
    and tr: "tracks p MinSpan look A (validatorChunkIndex p v)" and "s < t" "t \<le> cur" "s \<noteq> 0"
  shows "\<exists>cs' look'. updateChunksLoop (2 * unat (historyLength p) + 4) p load cur v t (s - 1) cs = Inr cs'
    \<and> views p MinSpan load cs' look' \<and> tracks p MinSpan look' (A(v := insert (s, t) (A v))) (validatorChunkIndex p v)"
proof -
  have n: "unat s < unat t" "unat t \<le> unat cur" "0 < unat s"
    using assms(5-7) by (simp_all add: word_le_unat word_less_unat u64_eq_iff)
  have s1: "Suc (unat (s - 1)) = unat s" using n(3) by (simp add: unat_pred_u64)
  have bounds: "inHistory p (s - 1)" "unat (s - 1) \<le> unat t" "unat (s - 1) < 2 * unat (historyLength p) + 4"
    using n s1 cur by arith+
  have val: "span p look v e = spanOf MinSpan (A v) (unat e)" if "inHistory p e" for e
    using tr that by (simp add: tracks_def)
  obtain cs' look' b where up: "updateChunksLoop (2 * unat (historyLength p) + 4) p load cur v t (s - 1) cs = Inr cs'"
    "views p MinSpan load cs' look'" "b \<le> Suc (unat (s - 1))" "repainted p v {x. b \<le> unat x \<and> x \<le> s - 1} (unat t) look look'"
    "\<forall>x. b \<le> unat x \<and> x \<le> s - 1 \<longrightarrow> unat t < span p look v x" "\<forall>x. Suc (unat x) = b \<longrightarrow> span p look v x \<le> unat t"
    using MinSpan_updateChunks [OF ok cur view bounds, of v] by blast
  have "tracks p MinSpan look' (A(v := insert (s, t) (A v))) (validatorChunkIndex p v)"
  proof (rule tracks_repainted [OF up(4) tr])
    fix e assume e: "inHistory p e"
    have before: "e \<le> s - 1 \<longleftrightarrow> unat e < unat s" using s1 by (simp add: word_le_unat less_eq_Suc_le flip: s1)
    have "spanOf MinSpan (A v) (unat e) \<le> unat t" if early: "unat e < b"
    proof -
      define y where "y = (of_nat (b - 1) :: Epoch)"
      have "b - 1 < 2 ^ 64" using up(3) s1 unat_u64_bound [of s] by simp
      then have y: "Suc (unat y) = b" "unat e \<le> unat y" using early by (simp_all add: y_def unat_of_nat del: of_nat_diff)
      moreover have "inHistory p y" using y(1) up(3) bounds(1) by simp
      ultimately show ?thesis using up(6) val [of y] spanOf_mono(2) [of "unat e" "unat y" "A v"] by (metis order_trans)
    qed
    then show "(if e \<in> {x. b \<le> unat x \<and> x \<le> s - 1} then unat t else spanOf MinSpan (A v) (unat e))
        = spanOf MinSpan (insert (s, t) (A v)) (unat e)"
      unfolding minspan.val_insert using up(5) val [OF e] before by (auto simp: not_le)
  qed
  with up(1,2) show ?thesis by blast
qed

text \<open>
  The whole handler of an attestation and a validator: it reports a conflict, or records the vote.
\<close>

lemma apply_spec:
  assumes ok: "params_ok p" and cur: "inHistory p cur" and view: "views p kind load cs look"
    and tr: "tracks p kind look A (validatorChunkIndex p v)" and st: "sourceEpoch w = Inr s" "targetEpoch w = Inr t"
    and lt: "s < t" "t \<le> cur" and rec: "recorded records v (A v)"
  shows "if conflicted kind (A v) (s, t)
    then \<exists>sl w'. applyAttestationForValidator p records load cs w v cur = Inr (Some sl, w', cs) \<and> voteOf w' = voteOf w
        \<and> reports kind records v (A v) w sl
    else \<exists>cs' look'. applyAttestationForValidator p records load cs w v cur = Inr (None, w, cs')
        \<and> views p kind load cs' look' \<and> tracks p kind look' (A(v := insert (s, t) (A v))) (validatorChunkIndex p v)"
proof -
  have s: "inHistory p s" "unat t < 65536"
    using lt cur params_okD(5) [OF ok] by (simp_all add: word_le_unat word_less_unat)
  let ?d = "look (chunkIndex p s)"
  note view' = viewsD [OF view, of s]
  have "cellSpan p ?d v s = spanOf kind (A v) (unat s)" using tr s(1) by (simp add: tracks_def span_def)
  note check = CheckSlashable_spec [OF ok view'(2) st lt(1) s(2) this rec]
  show ?thesis
  proof (cases "conflicted kind (A v) (s, t)")
    case True
    with check obtain sl w' where "CheckSlashable p (mkChunk kind ?d) records v w = Inr (Some sl, w')"
      "voteOf w' = voteOf w" "reports kind records v (A v) w sl" by auto
    with True view'(1) st show ?thesis by (simp add: applyAttestationForValidator_def)
  next
    case False
    with check have chk: "CheckSlashable p (mkChunk kind ?d) records v w = Inr (None, w)" by simp
    show ?thesis
    proof (cases kind)
      case MaxSpan
      from MaxSpan_apply [OF ok cur] view tr lt show ?thesis
        unfolding MaxSpan using False chk view'(1) st by (fastforce simp: applyAttestationForValidator_def MaxSpan)
    next
      case MinSpan
      show ?thesis
      proof (cases "s = 0")
        case True
        then have "spanOf MinSpan (insert (s, t) (A v)) e = spanOf MinSpan (A v) e" for e by (simp add: minspan.val_insert)
        then have "tracks p MinSpan look (A(v := insert (s, t) (A v))) (validatorChunkIndex p v)"
          using tr by (simp add: tracks_def MinSpan)
        with False chk view view'(1) st True show ?thesis
          by (auto simp: applyAttestationForValidator_def MinSpan MinSpan_start [OF cur])
      next
        case pos: False
        from MinSpan_apply [OF ok cur] view tr lt pos show ?thesis
          unfolding MinSpan using False chk view'(1) st
          by (fastforce simp: applyAttestationForValidator_def MinSpan MinSpan_start [OF cur])
      qed
    qed
  qed
qed

section \<open>A batch of attestations\<close>

text \<open>
  The specification of a batch: the votes so far of every validator, and whether a conflict was
  found. A vote that conflicts is reported and not recorded.
\<close>

type_synonym specState = "bool \<times> (ValidatorIndex \<Rightarrow> votes)"

definition specVote :: "Parameters \<Rightarrow> ChunkKind \<Rightarrow> u64 \<Rightarrow> Epoch \<times> Epoch \<Rightarrow> ValidatorIndex \<Rightarrow> specState \<Rightarrow> specState" where
  "specVote p kind vci vote v = (\<lambda>(found, A).
     if vci \<noteq> validatorChunkIndex p v then (found, A)
     else if conflicted kind (A v) vote then (True, A)
     else (found, A(v := insert vote (A v))))"

definition voteEpochs :: "IndexedAttestationWrapper \<Rightarrow> Epoch \<times> Epoch" where
  "voteEpochs w = (projr (sourceEpoch w), projr (targetEpoch w))"

definition specAttestation :: "Parameters \<Rightarrow> ChunkKind \<Rightarrow> u64 \<Rightarrow> batch \<Rightarrow> nat \<Rightarrow> specState \<Rightarrow> specState" where
  "specAttestation p kind vci ws i = fold (specVote p kind vci (voteEpochs (ws ! i))) (projr (attestingIndices (ws ! i)))"

definition specSpans :: "Parameters \<Rightarrow> ChunkKind \<Rightarrow> u64 \<Rightarrow> batch \<Rightarrow> (u64 \<times> nat list) list \<Rightarrow> specState \<Rightarrow> specState" where
  "specSpans p kind vci ws groups = fold (\<lambda>(_, is). fold (specAttestation p kind vci ws) is) groups"

text \<open>An attestation the service processes: its epochs are in order and not after the current one.\<close>

definition validVote :: "Epoch \<Rightarrow> IndexedAttestationWrapper \<Rightarrow> bool" where
  "validVote cur w \<longleftrightarrow> (case (sourceEpoch w, targetEpoch w) of (Inr s, Inr t) \<Rightarrow> s < t \<and> t \<le> cur | _ \<Rightarrow> False)"

lemma validVoteD:
  assumes "validVote cur w"
  shows "\<exists>s t vs. sourceEpoch w = Inr s \<and> targetEpoch w = Inr t \<and> attestingIndices w = Inr vs \<and> voteEpochs w = (s, t)
    \<and> s < t \<and> t \<le> cur"
proof -
  obtain s t where st: "sourceEpoch w = Inr s" "targetEpoch w = Inr t" "s < t" "t \<le> cur"
    using assms by (auto simp: validVote_def split: sum.splits)
  moreover have "\<exists>vs. attestingIndices w = Inr vs"
    using st(1) by (auto simp: sourceEpoch_def attestingIndices_def split: option.splits)
  ultimately show ?thesis by (auto simp: voteEpochs_def)
qed

lemma recorded_insert: "recorded records v (insert x A) \<longleftrightarrow> recorded records v {x} \<and> recorded records v A"
  by (auto simp: recorded_def)

lemma reports_mono: "reports kind records v A w sl \<Longrightarrow> A \<subseteq> B \<Longrightarrow> reports kind records v B w sl"
  unfolding reports_def by blast

text \<open>The simulation relation between the specification and the variables of \<^verbatim>\<open>updateSpans\<close>.\<close>

definition spansSim :: "('db, 'key, 'pool) ServiceConfig \<Rightarrow> Parameters \<Rightarrow> 'db \<Rightarrow> ChunkKind \<Rightarrow> u64 \<Rightarrow> batch
    \<Rightarrow> specState \<Rightarrow> spansState \<Rightarrow> bool" where
  "spansSim cfg p db kind vci ws0 = (\<lambda>(found, A) (ws, cs, sl).
     map voteOf ws = map voteOf ws0
     \<and> (\<exists>look. views p kind (getChunkFromDatabase cfg p db kind vci) cs look \<and> tracks p kind look A vci)
     \<and> (\<forall>v. recorded (AttestationRecordForValidator cfg db) v (A v))
     \<and> (found \<longleftrightarrow> sl \<noteq> [])
     \<and> (\<forall>s \<in> snd ` set sl. \<exists>v. \<exists>w \<in> set ws0. reports kind (AttestationRecordForValidator cfg db) v (A v) w s))"

text \<open>The database has recorded every vote of the batch, and a slashing has a root.\<close>

definition batchRecorded :: "('db, 'key, 'pool) ServiceConfig \<Rightarrow> 'db \<Rightarrow> batch \<Rightarrow> bool" where
  "batchRecorded cfg db ws \<longleftrightarrow>
     (\<forall>w \<in> set ws. \<forall>v \<in> set (projr (attestingIndices w)). recorded (AttestationRecordForValidator cfg db) v {voteEpochs w})
     \<and> (\<forall>sl. \<exists>root. slashingRoot cfg sl = Inr root)"

lemma AList_update_ne [simp]: "AList.update k v al \<noteq> []"
  by (cases al) auto

lemma set_AList_update: "snd ` set (AList.update k v al) \<subseteq> insert v (snd ` set al)"
  by (induction al) auto

lemma voteOf_update:
  assumes "map voteOf ws = map voteOf ws0" and "voteOf w' = voteOf (ws ! i)" and "i < length ws"
  shows "map voteOf (ws[i := w']) = map voteOf ws0"
  using assms by (metis list_update_id map_update nth_map)

lemma spanValidator_sim:
  assumes ok: "params_ok p" and cur: "inHistory p cur" and valid: "\<forall>w \<in> set ws0. validVote cur w"
    and rec: "batchRecorded cfg db ws0" and i: "i < length ws0" and v: "v \<in> set (projr (attestingIndices (ws0 ! i)))"
    and sim: "spansSim cfg p db kind vci ws0 a st"
  shows "\<exists>st'. spanValidator cfg p db kind vci cur i v st = Inr st'
    \<and> spansSim cfg p db kind vci ws0 (specVote p kind vci (voteEpochs (ws0 ! i)) v a) st'"
proof -
  obtain found A where a: "a = (found, A)" by (cases a)
  obtain ws cs sl where st: "st = (ws, cs, sl)" by (cases st)
  let ?records = "AttestationRecordForValidator cfg db" and ?load = "getChunkFromDatabase cfg p db kind vci"
  from sim obtain look where I: "map voteOf ws = map voteOf ws0" "views p kind ?load cs look" "tracks p kind look A vci"
    "\<And>v. recorded ?records v (A v)" "found \<longleftrightarrow> sl \<noteq> []"
    "\<And>s. s \<in> snd ` set sl \<Longrightarrow> \<exists>v. \<exists>w \<in> set ws0. reports kind ?records v (A v) w s"
    unfolding spansSim_def a st prod.case by blast
  have len: "i < length ws" using I(1) i by (metis length_map)
  have same: "voteOf (ws0 ! i) = voteOf (ws ! i)" using I(1) i len by (metis nth_map)
  obtain s t where vote: "sourceEpoch (ws ! i) = Inr s" "targetEpoch (ws ! i) = Inr t" "voteEpochs (ws0 ! i) = (s, t)" "s < t" "t \<le> cur"
    using validVoteD valid i voteOf_same [OF same] by (metis nth_mem)
  show ?thesis
  proof (cases "vci = validatorChunkIndex p v")
    case False
    then show ?thesis using sim by (simp add: a st spanValidator_def specVote_def)
  next
    case True
    note spec = apply_spec [OF ok cur I(2) I(3) [unfolded True] vote(1,2,4,5) I(4), folded True]
    show ?thesis
    proof (cases "conflicted kind (A v) (s, t)")
      case c: True
      with spec obtain e w' where e: "applyAttestationForValidator p ?records ?load cs (ws ! i) v cur = Inr (Some e, w', cs)"
        "voteOf w' = voteOf (ws ! i)" "reports kind ?records v (A v) (ws ! i) e" by auto
      obtain root where root: "slashingRoot cfg e = Inr root" using rec unfolding batchRecorded_def by blast
      have "reports kind ?records v (A v) (ws0 ! i) e" using e(3) same voteOf_same [OF same] by (simp add: reports_def)
      then have new: "\<exists>v. \<exists>w \<in> set ws0. reports kind ?records v (A v) w e" using nth_mem [OF i] by blast
      have "\<exists>v. \<exists>w \<in> set ws0. reports kind ?records v (A v) w x" if "x \<in> snd ` set (AList.update root e sl)" for x
      proof -
        have "x = e \<or> x \<in> snd ` set sl" using subsetD [OF set_AList_update that] by blast
        then show ?thesis by (elim disjE) (use new in blast, rule I(6))
      qed
      then have "spansSim cfg p db kind vci ws0 (True, A) (ws[i := w'], cs, AList.update root e sl)"
        unfolding spansSim_def using I(2-4) voteOf_update [OF I(1) e(2) len] by auto
      then show ?thesis using c True e(1) root vote(3) by (simp add: a st spanValidator_def specVote_def)
    next
      case nc: False
      with spec obtain cs' look' where e: "applyAttestationForValidator p ?records ?load cs (ws ! i) v cur = Inr (None, ws ! i, cs')"
        "views p kind ?load cs' look'" "tracks p kind look' (A(v := insert (s, t) (A v))) vci" by auto
      have "recorded ?records v {(s, t)}" using rec v nth_mem [OF i] unfolding batchRecorded_def vote(3) [symmetric] by blast
      then have "recorded ?records v' ((A(v := insert (s, t) (A v))) v')" for v'
        using I(4) by (simp add: recorded_insert [of _ _ _ "A v"])
      moreover have "\<exists>v'. \<exists>w \<in> set ws0. reports kind ?records v' ((A(v := insert (s, t) (A v))) v') w x" if "x \<in> snd ` set sl" for x
      proof -
        from I(6) [OF that] obtain v' w where "w \<in> set ws0" "reports kind ?records v' (A v') w x" by blast
        moreover have "A v' \<subseteq> (A(v := insert (s, t) (A v))) v'" by auto
        ultimately show ?thesis using reports_mono by blast
      qed
      ultimately have "spansSim cfg p db kind vci ws0 (found, A(v := insert (s, t) (A v))) (ws, cs', sl)"
        unfolding spansSim_def using I(1,5) e(2,3) by auto
      then show ?thesis using nc True e(1) vote(3) by (simp add: a st spanValidator_def specVote_def)
    qed
  qed
qed

lemma spanAttestation_sim:
  assumes "params_ok p" and "inHistory p cur" and "\<forall>w \<in> set ws0. validVote cur w"
    and "batchRecorded cfg db ws0" and i: "i < length ws0" and sim: "spansSim cfg p db kind vci ws0 a st"
  shows "\<exists>st'. spanAttestation cfg p db kind vci cur i st = Inr st' \<and> spansSim cfg p db kind vci ws0 (specAttestation p kind vci ws0 i a) st'"
proof -
  obtain ws cs sl where st: "st = (ws, cs, sl)" by (cases st)
  obtain vs where vs: "attestingIndices (ws0 ! i) = Inr vs" using validVoteD assms(3) i by (metis nth_mem)
  have "map voteOf ws = map voteOf ws0" using sim by (cases a) (simp add: spansSim_def st)
  then have "voteOf (ws ! i) = voteOf (ws0 ! i)" using i by (metis length_map nth_map)
  then have "attestingIndices (ws ! i) = Inr vs" using vs voteOf_same(3) by metis
  then have "spanAttestation cfg p db kind vci cur i st = rfold (spanValidator cfg p db kind vci cur i) vs st"
    by (simp add: spanAttestation_def st)
  moreover have "\<exists>st'. rfold (spanValidator cfg p db kind vci cur i) vs st = Inr st'
      \<and> spansSim cfg p db kind vci ws0 (fold (specVote p kind vci (voteEpochs (ws0 ! i))) vs a) st'"
    using spanValidator_sim [OF assms(1-5)] vs sim by (intro rfold_sim) auto
  ultimately show ?thesis using vs by (simp add: specAttestation_def)
qed

text \<open>C9. Processing the attestations of a validator chunk against its min or max spans finds exactly the
  surround votes, within the first history window and for recorded votes. It is assumed that the current epoch is below the history
  length; that the chunks, in memory or from the database, stand for the spans of the votes \<open>A\<close> processed before; that the database
  has these votes and those of the batch on record, which allows one per validator and target; and that every attestation of
  the batch has its indices and data, a source before its target, and a target not after the current epoch, and the root of a slashing can be computed. Then \<^verbatim>\<open>updateSpans\<close> succeeds and
  leaves chunks that stand for the spans of the votes after the batch. It reports a slashing if and only if some vote of the batch
  conflicts with a vote processed before it, every slashing it reports is made of two recorded votes of one validator one of which
  surrounds the other, and the batch keeps its votes.
\<close>

theorem updateSpans_exact:
  assumes "params_ok p" and "inHistory p cur" and "views p kind (getChunkFromDatabase cfg p db kind vci) cs look"
    and "tracks p kind look A vci" and "\<forall>v. recorded (AttestationRecordForValidator cfg db) v (A v)"
    and "\<forall>w \<in> set ws. validVote cur w" and "batchRecorded cfg db ws" and "\<forall>(c, is) \<in> set groups. \<forall>i \<in> set is. i < length ws"
  shows "\<exists>ws' cs' sl look' found A'. updateSpans cfg p db cs groups kind vci cur ws = Inr (ws', cs', sl)
    \<and> specSpans p kind vci ws groups (False, A) = (found, A')
    \<and> views p kind (getChunkFromDatabase cfg p db kind vci) cs' look' \<and> tracks p kind look' A' vci
    \<and> (sl \<noteq> [] \<longleftrightarrow> found)
    \<and> (\<forall>s \<in> snd ` set sl. \<exists>v. \<exists>w \<in> set ws. reports kind (AttestationRecordForValidator cfg db) v (A' v) w s)
    \<and> map voteOf ws' = map voteOf ws"
proof -
  have "spansSim cfg p db kind vci ws (False, A) (ws, cs, [])"
    unfolding spansSim_def using assms(3-5) by auto
  then have "\<exists>st'. updateSpans cfg p db cs groups kind vci cur ws = Inr st'
      \<and> spansSim cfg p db kind vci ws (specSpans p kind vci ws groups (False, A)) st'"
    unfolding updateSpans_def specSpans_def
  proof (intro rfold_sim)
    fix g a st
    assume g: "g \<in> set groups" and sim: "spansSim cfg p db kind vci ws a st"
    have "\<forall>i \<in> set (snd g). i < length ws" using assms(8) g by (cases g) auto
    then have "\<exists>st'. rfold (spanAttestation cfg p db kind vci cur) (snd g) st = Inr st'
        \<and> spansSim cfg p db kind vci ws (fold (specAttestation p kind vci ws) (snd g) a) st'"
      by (intro rfold_sim spanAttestation_sim [OF assms(1,2,6,7)] sim) auto
    then show "\<exists>st'. (\<lambda>(_, is) st. rfold (spanAttestation cfg p db kind vci cur) is st) g st = Inr st'
        \<and> spansSim cfg p db kind vci ws ((\<lambda>(_, is). fold (specAttestation p kind vci ws) is) g a) st'"
      by (cases g) simp
  qed
  then obtain ws' cs' sl where "updateSpans cfg p db cs groups kind vci cur ws = Inr (ws', cs', sl)"
    "spansSim cfg p db kind vci ws (specSpans p kind vci ws groups (False, A)) (ws', cs', sl)" by auto
  then show ?thesis
    by (cases "specSpans p kind vci ws groups (False, A)") (simp add: spansSim_def)
qed

text \<open>A database without chunks stands for no votes at all.\<close>

lemma empty_spans:
  assumes ok: "params_ok p" and load: "\<And>e. load (chunkIndex p e) = initChunk p kind False raw"
  shows "\<exists>look. views p kind load [] look \<and> tracks p kind look (\<lambda>_. {}) vci"
proof -
  define d where "d = replicate (chunkLen p) (case kind of MinSpan \<Rightarrow> (65535 :: u16) | MaxSpan \<Rightarrow> 0)"
  have "load (chunkIndex p e) = Inr (mkChunk kind d)" for e
    using load [of e] unat_requiredLen [OF ok]
    by (cases kind) (simp_all add: initChunk_def d_def EmptyMinSpanChunksSlice_def EmptyMaxSpanChunksSlice_def)
  then have "views p kind load [] (\<lambda>_. d)" by (simp add: views_def chunkFor_def d_def)
  moreover have "cellSpan p d v e = spanOf kind {} (unat e)" for v e
    using unat_cellIndex(2) [OF ok, of v e]
    by (cases kind) (simp_all add: cellSpan_def d_def spanOf.simps spanTargets_def)
  then have "tracks p kind (\<lambda>_. d) (\<lambda>_. {}) vci" by (simp add: tracks_def span_def)
  ultimately show ?thesis by blast
qed

lemma getChunkFromDatabase_missing:
  assumes "flatSliceID (marshalUint64 cfg) p vci ci = Inr key"
    and "LoadSlasherChunks cfg db kind [key] = Inr ([[]], [False])"
  shows "getChunkFromDatabase cfg p db kind vci ci = initChunk p kind False []"
proof -
  have "\<exists>c. initChunk p kind False [] = Inr c" by (cases kind) (simp_all add: initChunk_def)
  then show ?thesis
    using assms by (auto simp: getChunkFromDatabase_def loadChunksFromDisk_def chunkKeys_def)
qed

section \<open>An example\<close>

text \<open>
  Two attestations of validator 1, the second surrounded by the first, a database that has both on
  record and no chunks, and small parameters.
\<close>

definition ex_vote :: "Epoch \<Rightarrow> Epoch \<Rightarrow> IndexedAttestationWrapper" where
  "ex_vote s t = \<lparr>w_IndexedAttestation = Some (IndexedAttestation \<lparr>att_AttestingIndices = [1],
       att_Data = Some \<lparr>ad_Slot = 0, ad_CommitteeIndex = 0, ad_BeaconBlockRoot = 0,
          ad_Source = Some \<lparr>ac_Epoch = s, ac_Root = 0\<rparr>, ad_Target = Some \<lparr>ac_Epoch = t, ac_Root = 0\<rparr>\<rparr>,
       att_Signature = []\<rparr>), w_DataRoot = ucast t\<rparr>"

definition ex_params :: Parameters where
  "ex_params = NewParams 2 2 4"

definition ex_config :: "(Epoch \<times> Epoch) list \<Rightarrow> (unit, u64, unit) ServiceConfig" where
  "ex_config votes =
     \<lparr>AttestationRecordForValidator = (\<lambda>_ v t. Inr (if v = 1 then map_option (\<lambda>s. ex_vote s t) (map_of votes t) else None)),
      SaveAttestationRecordsForValidators = (\<lambda>_ db. (Inr (), db)),
      CheckAttesterDoubleVotes = (\<lambda>_ _. Inr []),
      LoadSlasherChunks = (\<lambda>_ _ keys. Inr (map (\<lambda>_. []) keys, map (\<lambda>_. False) keys)),
      SaveSlasherChunks = (\<lambda>_ _ _ db. (Inr (), db)),
      CheckDoubleBlockProposals = (\<lambda>_ _. Inr []),
      SaveBlockProposals = (\<lambda>_ db. (Inr (), db)),
      LastEpochWrittenForValidators = (\<lambda>_ _. Inr []),
      PruneAttestationsAtEpoch = (\<lambda>_ db. (Inr 0, db)),
      PruneProposalsAtEpoch = (\<lambda>_ db. (Inr 0, db)),
      marshalUint64 = id,
      slashingRoot = (\<lambda>_. Inr 7),
      dataRoot = (\<lambda>_. Inr 0),
      headerRoot = (\<lambda>_. Inr 0),
      headStateAvailable = Inr (),
      attSignatureValid = (\<lambda>_. True),
      blockSignatureValid = (\<lambda>_. True),
      InsertAttesterSlashing = (\<lambda>_ pool. pool),
      InsertProposerSlashing = (\<lambda>_ pool. pool)\<rparr>"

lemma ex_vote_simps [simp]:
  "sourceEpoch (ex_vote s t) = Inr s" "targetEpoch (ex_vote s t) = Inr t" "attestingIndices (ex_vote s t) = Inr [1]"
  "voteEpochs (ex_vote s t) = (s, t)"
  by (simp_all add: ex_vote_def sourceEpoch_def targetEpoch_def attestingIndices_def voteEpochs_def)

lemma ex_params_ok: "params_ok ex_params"
  by (simp add: params_ok_def ex_params_def NewParams_def)

lemma ex_empty:
  "\<exists>look. views ex_params kind (getChunkFromDatabase (ex_config votes) ex_params () kind 0) [] look
     \<and> tracks ex_params kind look (\<lambda>_. {}) 0"
proof (rule empty_spans [OF ex_params_ok])
  fix e
  have zero: "Epoch_Mul x 0 = Inr 0" "Epoch_Add 0 x = Inr x" for x by (simp_all add: epoch.unsafe_exact)
  show "getChunkFromDatabase (ex_config votes) ex_params () kind 0 (chunkIndex ex_params e) = initChunk ex_params kind False []"
    by (rule getChunkFromDatabase_missing [where key = "chunkIndex ex_params e"])
       (simp_all add: flatSliceID_def ex_config_def zero)
qed

lemma ex_recorded:
  "map_of votes t = Some s \<Longrightarrow> recorded (AttestationRecordForValidator (ex_config votes) ()) 1 {(s, t)}"
  by (simp add: recorded_def ex_config_def)

theorem updateSpans_exact_witness:
  "\<exists>ws' cs' sl. updateSpans (ex_config [(3, 0), (2, 1)]) ex_params () [] [(0, [0, 1])] MaxSpan 0 3 [ex_vote 0 3, ex_vote 1 2]
      = Inr (ws', cs', sl) \<and> sl \<noteq> []"
proof -
  let ?cfg = "ex_config [(3, 0), (2, 1)]" and ?ws = "[ex_vote 0 3, ex_vote 1 2]"
  obtain look where look: "views ex_params MaxSpan (getChunkFromDatabase ?cfg ex_params () MaxSpan 0) [] look"
    "tracks ex_params MaxSpan look (\<lambda>_. {}) 0" using ex_empty by blast
  have "batchRecorded ?cfg () ?ws"
    by (simp add: batchRecorded_def ex_recorded) (simp add: ex_config_def)
  moreover have "fst (specSpans ex_params MaxSpan 0 ?ws [(0, [0, 1])] (False, \<lambda>_. {}))"
    by (simp add: specSpans_def specAttestation_def specVote_def conflicted_def validatorChunkIndex_def ex_params_def
        NewParams_def)
  ultimately show ?thesis
    using updateSpans_exact [OF ex_params_ok _ look, of 3 ?ws "[(0, [0, 1])]"]
    by (auto simp: validVote_def recorded_def ex_params_def NewParams_def)
qed

section \<open>After the history window\<close>

lemma unat_of_nat_u64: "n < 2 ^ 64 \<Longrightarrow> unat (of_nat n :: u64) = n"
  by (simp add: unat_of_nat)

text \<open>C31. The walk over the chunks of a span only knows the first history window: the next chunk of a max span starts at the
  end of the chunk of the epoch taken modulo the history length, so at most at the history length, and the previous chunk of a min span
  ends below the history length, at the end of the chunk before, or of the first chunk itself. Once the epoch has reached the history
  length the walk of a max span does not move forward any more, and that of a min span leaves the window of the attestation.
\<close>

theorem NextChunkStartEpoch_wraps:
  assumes "params_ok p"
  shows "let C = unat (chunkSize p); H = unat (historyLength p); q = unat e mod H div C in
    unat (MaxSpan_NextChunkStartEpoch p e) = (q + 1) * C \<and> (q + 1) * C \<le> H
    \<and> (\<exists>x. MinSpan_NextChunkStartEpoch p e = Inr x \<and> unat x = (q - 1) * C + (C - 1) \<and> unat x < H)
    \<and> (H \<le> unat e \<longrightarrow> MaxSpan_NextChunkStartEpoch p e \<le> e)"
proof -
  let ?C = "unat (chunkSize p)" and ?H = "unat (historyLength p)" and ?q = "unat (chunkIndex p e)"
  have qe: "?q = unat e mod ?H div ?C" by (rule unat_chunkIndex)
  have q: "(?q + 1) * ?C \<le> ?H"
  proof -
    obtain n where n: "?H = n * ?C" using params_okD(4) [OF assms(1)] by (auto simp: dvd_def mult.commute)
    then have "?q < n" using params_okD(1,3) [OF assms(1)] by (simp add: unat_chunkIndex div_less_iff_less_mult)
    then have "(?q + 1) * ?C \<le> n * ?C" by (intro mult_le_mono1) simp
    then show ?thesis by (simp only: n)
  qed
  have H: "?H < 65536" by (rule params_okD(5) [OF assms(1)])
  have small: "?q < 65536" "?C < 65536"
    using q H params_okD(1,7) [OF assms(1)] mult_le_mono2 [of 1 ?C "?q + 1"] by simp_all
  have "unat (chunkIndex p e + 1) = ?q + 1" using small by (simp add: unat_add_exact)
  then have "unat (firstEpoch p (chunkIndex p e + 1)) = (?q + 1) * ?C"
    unfolding firstEpoch_def using q H by (subst unat_mult_exact) simp_all
  then have up: "unat (MaxSpan_NextChunkStartEpoch p e) = (?q + 1) * ?C" by (simp add: MaxSpan_NextChunkStartEpoch_def)
  define j where "j = (if chunkIndex p e > 0 then chunkIndex p e - 1 else chunkIndex p e)"
  have j: "unat j = ?q - 1" by (auto simp: j_def unat_pred_u64 u64_pos_iff)
  have "(unat j + 1) * ?C \<le> (?q + 1) * ?C" by (rule mult_le_mono1) (use j in simp)
  then have jH: "unat j * ?C + ?C \<le> ?H" using q by (simp only: add_mult_distrib mult_1 order.trans)
  have "unat (firstEpoch p j) = unat j * ?C" unfolding firstEpoch_def using jH H by (subst unat_mult_exact) simp_all
  moreover have "unat (chunkSize p - 1) = ?C - 1" using params_okD(1) [OF assms(1)] by (rule unat_pred_u64)
  moreover have "unat j * ?C + (?C - 1) < 2 ^ 64" using jH H by simp
  then obtain x :: Epoch where x: "unat x = unat j * ?C + (?C - 1)" using unat_of_nat_u64 by blast
  ultimately have "lastEpoch p j = Inr x" by (simp add: lastEpoch_def epoch.unsafe_exact)
  then have "MinSpan_NextChunkStartEpoch p e = Inr x" by (simp add: MinSpan_NextChunkStartEpoch_def Let_def j_def)
  moreover have "unat x < ?H" using x jH params_okD(1) [OF assms(1)] by simp
  moreover have "MaxSpan_NextChunkStartEpoch p e \<le> e" if "?H \<le> unat e"
    unfolding word_le_unat up by (rule order.trans [OF q that])
  ultimately show ?thesis unfolding Let_def qe [symmetric] using up q x j by auto
qed

definition ex_window :: Parameters where
  "ex_window = NewParams 2 2 8"

definition ex_found :: "ChunkKind \<Rightarrow> Epoch \<Rightarrow> Epoch \<times> Epoch \<Rightarrow> Epoch \<times> Epoch \<Rightarrow> bool option" where
  "ex_found kind cur = (\<lambda>(s, t) (s', t').
     case updateSpans (ex_config [(t, s), (t', s')]) ex_window () [] [(0, [0, 1])] kind 0 cur [ex_vote s t, ex_vote s' t'] of
       Inl e \<Rightarrow> None
     | Inr (ws, cs, sl) \<Rightarrow> Some (sl \<noteq> []))"

text \<open>
  A history window of eight epochs, in chunks of two: of two attestations of one validator that
  surround each other inside the first window the slashing is found, by the max spans and by the min spans. The same
  two attestations eight epochs later are as slashable and lie as much inside the window of the last eight epochs, but
  neither kind of span finds the slashing.
\<close>

lemma ex_window_found:
  "ex_found MaxSpan 4 (0, 4) (2, 3) = Some True" "ex_found MaxSpan 12 (8, 12) (10, 11) = Some False"
  "ex_found MinSpan 7 (5, 6) (3, 7) = Some True" "ex_found MinSpan 15 (13, 14) (11, 15) = Some False"
  by code_simp+

theorem NextChunkStartEpoch_wraps_witness:
  "params_ok ex_window \<and> MaxSpan_NextChunkStartEpoch ex_window 9 \<le> 9
   \<and> (\<exists>x. MinSpan_NextChunkStartEpoch ex_window 13 = Inr x \<and> unat x = 3)
   \<and> conflicts MaxSpan (0, 4) (2, 3) \<and> ex_found MaxSpan 4 (0, 4) (2, 3) = Some True
   \<and> conflicts MaxSpan (8, 12) (10, 11) \<and> ex_found MaxSpan 12 (8, 12) (10, 11) = Some False
   \<and> conflicts MinSpan (5, 6) (3, 7) \<and> ex_found MinSpan 7 (5, 6) (3, 7) = Some True
   \<and> conflicts MinSpan (13, 14) (11, 15) \<and> ex_found MinSpan 15 (13, 14) (11, 15) = Some False"
proof -
  have ok: "params_ok ex_window" by (simp add: params_ok_def ex_window_def NewParams_def)
  have size: "unat (chunkSize ex_window) = 2" "unat (historyLength ex_window) = 8" by (simp_all add: ex_window_def NewParams_def)
  show ?thesis using NextChunkStartEpoch_wraps [OF ok, of 9] NextChunkStartEpoch_wraps [OF ok, of 13] ok ex_window_found
    by (auto simp: size Let_def)
qed

end
