(* ===== verification/Slasher_Batches.thy ===== *)
theory Slasher_Batches
  imports Slasher_Detect
begin

text \<open>
  The batches of the slasher: its queues lose and repeat nothing, the filter splits what they deliver,
  deferred attestations go back into the queue on every outcome of a tick, and within a batch double proposals
  and double votes are found exactly.
\<close>

section \<open>Queues\<close>

text \<open>The interface of a queue that is emptied as a whole, and a sequence of operations on it.\<close>

datatype 'a queueOp = Push 'a | Extend "'a list" | Dequeue

fun queueRun :: "('a \<Rightarrow> 'q \<Rightarrow> 'q) \<Rightarrow> ('a list \<Rightarrow> 'q \<Rightarrow> 'q) \<Rightarrow> ('q \<Rightarrow> 'a list \<times> 'q) \<Rightarrow> 'a queueOp list \<Rightarrow> 'q
    \<Rightarrow> 'a list list \<times> 'q" where
  "queueRun push append_all dequeue [] q = ([], q)"
| "queueRun push append_all dequeue (Push x # ops) q = queueRun push append_all dequeue ops (push x q)"
| "queueRun push append_all dequeue (Extend xs # ops) q = queueRun push append_all dequeue ops (append_all xs q)"
| "queueRun push append_all dequeue (Dequeue # ops) q =
     (case dequeue q of (xs, q') \<Rightarrow> case queueRun push append_all dequeue ops q' of (out, q'') \<Rightarrow> (xs # out, q''))"

fun added :: "'a queueOp \<Rightarrow> 'a list" where
  "added (Push x) = [x]"
| "added (Extend xs) = xs"
| "added Dequeue = []"

locale batch_queue =
  fixes items :: "'q \<Rightarrow> 'a list" and push :: "'a \<Rightarrow> 'q \<Rightarrow> 'q" and append_all :: "'a list \<Rightarrow> 'q \<Rightarrow> 'q"
    and dequeue :: "'q \<Rightarrow> 'a list \<times> 'q" and count_items :: "'q \<Rightarrow> nat"
  assumes items_push: "items (push x q) = items q @ [x]"
    and items_extend: "items (append_all xs q) = items q @ xs"
    and dequeue_items: "fst (dequeue q) = items q" "items (snd (dequeue q)) = []"
    and count_eq: "count_items q = length (items q)"
begin

lemma fifo:
  "queueRun push append_all dequeue ops q = (out, q') \<Longrightarrow> concat out @ items q' = items q @ concat (map added ops)"
proof (induction ops arbitrary: q out)
  case (Cons op ops)
  show ?case
  proof (cases op)
    case Dequeue
    obtain out1 where "queueRun push append_all dequeue ops (snd (dequeue q)) = (out1, q')" "out = fst (dequeue q) # out1"
      using Cons.prems by (auto simp: Dequeue split: prod.splits)
    with Cons.IH [OF this(1)] show ?thesis by (simp add: Dequeue dequeue_items)
  next
    case (Push x)
    then have "queueRun push append_all dequeue ops (push x q) = (out, q')" using Cons.prems by simp
    from Cons.IH [OF this] show ?thesis by (simp add: Push items_push)
  next
    case (Extend xs)
    then have "queueRun push append_all dequeue ops (append_all xs q) = (out, q')" using Cons.prems by simp
    from Cons.IH [OF this] show ?thesis by (simp add: Extend items_extend)
  qed
qed simp

end

interpretation attq: batch_queue aq_items attestationsQueue_push attestationsQueue_extend attestationsQueue_dequeue
  attestationsQueue_size
  by unfold_locales
     (simp_all add: attestationsQueue_push_def attestationsQueue_extend_def attestationsQueue_dequeue_def attestationsQueue_size_def)

interpretation blkq: batch_queue bq_items blocksQueue_push blocksQueue_extend blocksQueue_dequeue blocksQueue_size
  by unfold_locales
     (simp_all add: blocksQueue_push_def blocksQueue_extend_def blocksQueue_dequeue_def blocksQueue_size_def)

text \<open>C33. The queues of the slasher deliver first in, first out and as a whole: over any sequence of operations, what
  the dequeued batches hold, one after the other, followed by what is left in the queue is what was put in, in its order.\<close>

theorem queues_fifo:
  assumes "queueRun attestationsQueue_push attestationsQueue_extend attestationsQueue_dequeue ops newAttestationsQueue = (out, q)"
    and "queueRun blocksQueue_push blocksQueue_extend blocksQueue_dequeue ops' newBlocksQueue = (out', q')"
  shows "concat out @ aq_items q = concat (map added ops) \<and> concat out' @ bq_items q' = concat (map added ops')"
  using attq.fifo [OF assms(1)] blkq.fifo [OF assms(2)] by (simp add: newAttestationsQueue_def newBlocksQueue_def)

theorem queues_fifo_witness:
  "concat [[Some (ex_vote 0 1)], [None]] @ aq_items \<lparr>aq_items = [None]\<rparr>
     = concat (map added [Push (Some (ex_vote 0 1)), Dequeue, Push None, Dequeue, Extend [None]])
   \<and> concat [] @ bq_items newBlocksQueue = concat (map added [])"
  by (rule queues_fifo)
     (simp_all add: attestationsQueue_push_def attestationsQueue_extend_def attestationsQueue_dequeue_def newAttestationsQueue_def)

section \<open>The filter\<close>

text \<open>The attestations the slasher takes, now or later.\<close>

definition acceptable :: "Parameters \<Rightarrow> Epoch \<Rightarrow> IndexedAttestationWrapper \<Rightarrow> bool" where
  "acceptable p cur w \<longleftrightarrow>
     validateAttestationIntegrity (w_IndexedAttestation w) \<and> cur < fst (voteEpochs w) + historyLength p"

definition present :: "'a option list \<Rightarrow> 'a list" where
  "present xs = concat (map (case_option [] (\<lambda>x. [x])) xs)"

lemma present_simps [simp]:
  "present [] = []" "present (None # xs) = present xs" "present (Some x # xs) = x # present xs"
  by (simp_all add: present_def)

lemma integrity_epochs:
  assumes "validateAttestationIntegrity (w_IndexedAttestation w)"
  shows "sourceEpoch w = Inr (fst (voteEpochs w))" "targetEpoch w = Inr (snd (voteEpochs w))"
    "fst (voteEpochs w) < snd (voteEpochs w) \<or> voteEpochs w = (0, 0)"
  using assms by (auto simp: validateAttestationIntegrity_def sourceEpoch_def targetEpoch_def voteEpochs_def
      split: option.splits if_splits)

lemma filterStep_eq:
  "filterStep p cur att (valid, future, dropped) = Inr
    (valid @ filter (\<lambda>w. acceptable p cur w \<and> snd (voteEpochs w) \<le> cur) (present [att]),
     future @ filter (\<lambda>w. acceptable p cur w \<and> cur < snd (voteEpochs w)) (present [att]),
     dropped + (1 - length (filter (acceptable p cur) (present [att]))))"
proof (cases att)
  case (Some w)
  show ?thesis
  proof (cases "validateAttestationIntegrity (w_IndexedAttestation w)")
    case True
    note e = integrity_epochs [OF True]
    show ?thesis using Some True by (auto simp: filterStep_def e(1,2) acceptable_def)
  qed (simp add: Some filterStep_def acceptable_def)
qed (simp add: filterStep_def)

lemma filter_loop:
  "rfold (filterStep p cur) atts (valid, future, dropped) = Inr
    (valid @ filter (\<lambda>w. acceptable p cur w \<and> snd (voteEpochs w) \<le> cur) (present atts),
     future @ filter (\<lambda>w. acceptable p cur w \<and> cur < snd (voteEpochs w)) (present atts),
     dropped + (length atts - length (filter (acceptable p cur) (present atts))))"
proof (induction atts arbitrary: valid future dropped)
  case (Cons att atts)
  have "length (filter (acceptable p cur) (present xs)) \<le> length xs" for xs
    by (induction xs) (auto simp: present_def split: option.splits)
  from this [of atts] show ?case
    by (cases att) (simp_all add: filterStep_eq Cons.IH Suc_diff_le)
qed simp

text \<open>C36. The filter never fails: it splits the attestations it is given, in their order, into those to check now and
  those whose target lies in the future, and counts the rest as dropped, which are missing, malformed or too old.\<close>

theorem filterAttestations_splits:
  "filterAttestations p atts cur = Inr
    (filter (\<lambda>w. acceptable p cur w \<and> snd (voteEpochs w) \<le> cur) (present atts),
     filter (\<lambda>w. acceptable p cur w \<and> cur < snd (voteEpochs w)) (present atts),
     length atts - length (filter (acceptable p cur) (present atts)))"
  by (simp add: filterAttestations_def filter_loop)

text \<open>What passes the filter now meets the requirement of the surround detection, attestations of the genesis epoch apart.\<close>

lemma filtered_valid:
  assumes "filterAttestations p atts cur = Inr (valid, future, dropped)" and "w \<in> set valid" and "voteEpochs w \<noteq> (0, 0)"
  shows "validVote cur w"
proof -
  have w: "acceptable p cur w" "snd (voteEpochs w) \<le> cur"
    using assms(1,2) by (auto simp: filterAttestations_def filter_loop)
  then have "validateAttestationIntegrity (w_IndexedAttestation w)" by (simp add: acceptable_def)
  from integrity_epochs [OF this] w(2) assms(3) show ?thesis by (auto simp: validVote_def)
qed

section \<open>Ticks\<close>

lemma checkSlashable_queue:
  "sv_attsQueue (snd (checkSlashableAttestations cfg cur atts s)) = sv_attsQueue s"
  by (auto simp: checkSlashableAttestations_def Let_def split: sum.splits prod.splits)

lemma processAttestations_queue:
  "aq_items (sv_attsQueue (fst (snd (processAttestations bcfg cfg atts slot (s, pool))))) = aq_items (sv_attsQueue s) @
     map Some (filter (\<lambda>w. acceptable (sv_params s) (ToEpoch bcfg slot) w \<and> ToEpoch bcfg slot < snd (voteEpochs w)) (present atts))"
proof -
  let ?e = "ToEpoch bcfg slot" and ?p = "sv_params s"
  let ?now = "filter (\<lambda>w. acceptable ?p ?e w \<and> snd (voteEpochs w) \<le> ?e) (present atts)"
    and ?later = "filter (\<lambda>w. acceptable ?p ?e w \<and> ?e < snd (voteEpochs w)) (present atts)"
  let ?s1 = "s\<lparr>sv_attsQueue := attestationsQueue_extend (map Some ?later) (sv_attsQueue s)\<rparr>"
  obtain r s2 where chk: "checkSlashableAttestations cfg ?e ?now ?s1 = (r, s2)" by fastforce
  then have q: "sv_attsQueue s2 = sv_attsQueue ?s1" using checkSlashable_queue [of cfg ?e ?now ?s1] by simp
  have "fst (snd (processAttestations bcfg cfg atts slot (s, pool))) = s2"
    using chk by (simp add: processAttestations_def filterAttestations_def filter_loop Let_def split: sum.splits prod.splits)
  then show ?thesis by (simp add: q attq.items_extend)
qed

text \<open>C37. Whatever a tick of the attestation handler returns, errors and panics of the detection included, the queue holds
  exactly the attestations whose target lies in the future, in their order.\<close>

theorem tick_keeps_future:
  "aq_items (sv_attsQueue (fst (snd (processQueuedAttestations bcfg cfg slot (s, pool))))) =
     map Some (filter (\<lambda>w. acceptable (sv_params s) (ToEpoch bcfg slot) w \<and> ToEpoch bcfg slot < snd (voteEpochs w))
       (present (aq_items (sv_attsQueue s))))"
proof -
  let ?q = "sv_attsQueue s" and ?s = "s\<lparr>sv_attsQueue := snd (attestationsQueue_dequeue (sv_attsQueue s))\<rparr>"
  have "processQueuedAttestations bcfg cfg slot (s, pool) = processAttestations bcfg cfg (aq_items ?q) slot (?s, pool)"
    by (simp add: processQueuedAttestations_def attestationsQueue_dequeue_def)
  then show ?thesis by (simp add: processAttestations_queue attq.dequeue_items(2))
qed

section \<open>Double proposals\<close>

declare decimal.simps [simp del]

definition undecimal :: "string \<Rightarrow> nat" where
  "undecimal cs = foldl (\<lambda>n c. 10 * n + (of_char c - 48)) 0 cs"

lemma digit: "d < 10 \<Longrightarrow> of_char (char_of (48 + d :: nat)) = (48 + d :: nat)"
  by simp

lemma undecimal_decimal: "undecimal (decimal n) = n"
proof (induction n rule: decimal.induct)
  case (1 n)
  then show ?case
    by (subst decimal.simps) (auto simp: undecimal_def digit)
qed

lemma digit_ne: "d < 10 \<Longrightarrow> char_of (48 + d :: nat) \<noteq> CHR '':''"
proof
  assume "d < 10" "char_of (48 + d :: nat) = CHR '':''"
  then have "(48 + d :: nat) = of_char (CHR '':'')" using digit [of d] by simp
  then show False using \<open>d < 10\<close> by simp
qed

lemma decimal_digits: "CHR '':'' \<notin> set (decimal n)"
proof (induction n rule: decimal.induct)
  case (1 n)
  then show ?case using digit_ne [of n] digit_ne [of "n mod 10"] by (subst decimal.simps) auto
qed

lemma split_unique:
  "xs @ c # ys = xs' @ c # ys' \<Longrightarrow> c \<notin> set xs \<Longrightarrow> c \<notin> set xs' \<Longrightarrow> xs = xs' \<and> ys = ys'"
proof (induction xs arbitrary: xs')
  case Nil
  then show ?case by (cases xs') auto
next
  case (Cons x xs)
  then show ?case by (cases xs') auto
qed

definition slotProposer :: "SignedBlockHeaderWrapper \<Rightarrow> (Slot \<times> ValidatorIndex) option" where
  "slotProposer w = map_option (\<lambda>h. (bh_Slot h, bh_ProposerIndex h)) (sh_Header (hw_SignedBeaconBlockHeader w))"

definition encodeKey :: "Slot \<times> ValidatorIndex \<Rightarrow> string" where
  "encodeKey = (\<lambda>(slot, proposer). uintToString slot @ '':'' @ uintToString proposer)"

lemma proposalKey_eq: "slotProposer w = Some k \<Longrightarrow> proposalKey w = Inr (encodeKey k)"
  by (auto simp: slotProposer_def proposalKey_def encodeKey_def)

lemma uintToString_inj: "uintToString a = uintToString b \<longleftrightarrow> a = b"
  unfolding uintToString_def u64_eq_iff [of a] by (metis undecimal_decimal)

lemma encodeKey_inj: "encodeKey k = encodeKey k' \<longleftrightarrow> k = k'"
proof
  assume *: "encodeKey k = encodeKey k'"
  obtain a b a' b' where k: "k = (a, b)" "k' = (a', b')" by (cases k; cases k')
  from split_unique [of "uintToString a" "CHR '':''" "uintToString b" "uintToString a'" "uintToString b'"] *
  show "k = k'" by (simp add: k encodeKey_def uintToString_inj) (simp add: uintToString_def decimal_digits)
qed simp

definition slashingOf :: "SignedBlockHeaderWrapper \<Rightarrow> SignedBlockHeaderWrapper \<Rightarrow> ProposerSlashing" where
  "slashingOf a b = \<lparr>ps_Header_1 = hw_SignedBeaconBlockHeader a, ps_Header_2 = hw_SignedBeaconBlockHeader b\<rparr>"

text \<open>Two proposals of one proposer for one slot with different header roots.\<close>

definition doubleProposal :: "SignedBlockHeaderWrapper \<Rightarrow> SignedBlockHeaderWrapper \<Rightarrow> bool" where
  "doubleProposal a b \<longleftrightarrow> slotProposer a = slotProposer b \<and> hw_HeaderRoot a \<noteq> hw_HeaderRoot b"

fun firstOf :: "SignedBlockHeaderWrapper list \<Rightarrow> Slot \<times> ValidatorIndex \<Rightarrow> SignedBlockHeaderWrapper option" where
  "firstOf [] k = None"
| "firstOf (w # ws) k = (if slotProposer w = Some k then Some w else firstOf ws k)"

lemma firstOf_snoc:
  "firstOf (ps @ [w]) k = (case firstOf ps k of Some a \<Rightarrow> Some a | None \<Rightarrow> if slotProposer w = Some k then Some w else None)"
  by (induction ps) auto

lemma firstOf_SomeD: "firstOf ps k = Some a \<Longrightarrow> a \<in> set ps \<and> slotProposer a = Some k"
  by (induction ps) (auto split: if_splits)

text \<open>The map holds the first proposal of every key, and the slashings pair it with the later ones.\<close>

definition proposalsSeen :: "SignedBlockHeaderWrapper list
    \<Rightarrow> (string \<times> SignedBlockHeaderWrapper) list \<times> ProposerSlashing list \<Rightarrow> bool" where
  "proposalsSeen ps = (\<lambda>(m, sl).
     (\<forall>k. map_of m (encodeKey k) = firstOf ps k)
     \<and> (\<forall>w \<in> set ps. hw_HeaderRoot w \<noteq> ZeroHash)
     \<and> (\<forall>s \<in> set sl. \<exists>a \<in> set ps. \<exists>b \<in> set ps. doubleProposal a b \<and> s = slashingOf a b)
     \<and> (sl = [] \<longrightarrow> (\<forall>b \<in> set ps. \<forall>k. slotProposer b = Some k \<longrightarrow>
          (\<exists>a. firstOf ps k = Some a \<and> hw_HeaderRoot a = hw_HeaderRoot b))))"

lemma proposalStep_seen:
  assumes seen: "proposalsSeen ps (m, sl)" and k: "slotProposer w = Some k" and nz: "hw_HeaderRoot w \<noteq> ZeroHash"
  shows "\<exists>st'. proposalStep w (m, sl) = Inr st' \<and> proposalsSeen (ps @ [w]) st'"
proof -
  have I: "\<forall>k. map_of m (encodeKey k) = firstOf ps k" "\<forall>w \<in> set ps. hw_HeaderRoot w \<noteq> ZeroHash"
    "\<forall>s \<in> set sl. \<exists>a \<in> set ps. \<exists>b \<in> set ps. doubleProposal a b \<and> s = slashingOf a b"
    "sl = [] \<longrightarrow> (\<forall>b \<in> set ps. \<forall>k. slotProposer b = Some k \<longrightarrow>
          (\<exists>a. firstOf ps k = Some a \<and> hw_HeaderRoot a = hw_HeaderRoot b))"
    using seen unfolding proposalsSeen_def by auto
  have key: "map_of m (encodeKey k) = firstOf ps k" for k using I(1) by blast
  have roots: "\<forall>w' \<in> set (ps @ [w]). hw_HeaderRoot w' \<noteq> ZeroHash" using I(2) nz by auto
  have old: "\<forall>s \<in> set sl. \<exists>a \<in> set (ps @ [w]). \<exists>b \<in> set (ps @ [w]). doubleProposal a b \<and> s = slashingOf a b"
    using I(3) by fastforce
  show ?thesis
  proof (cases "firstOf ps k")
    case None
    have step: "proposalStep w (m, sl) = Inr (AList.update (encodeKey k) w m, sl)"
      using None by (simp add: key proposalStep_def proposalKey_eq [OF k])
    have "map_of (AList.update (encodeKey k) w m) (encodeKey k') = firstOf (ps @ [w]) k'" for k'
      using None k by (auto simp: key update_conv' encodeKey_inj firstOf_snoc split: option.splits)
    moreover have "\<exists>a. firstOf (ps @ [w]) k' = Some a \<and> hw_HeaderRoot a = hw_HeaderRoot b"
      if "sl = []" "b \<in> set (ps @ [w])" "slotProposer b = Some k'" for b k'
    proof (cases "b \<in> set ps")
      case True
      then show ?thesis using I(4) that(1,3) by (fastforce simp: firstOf_snoc)
    next
      case False
      then show ?thesis using that None k by (auto simp: firstOf_snoc)
    qed
    ultimately show ?thesis using step roots old unfolding proposalsSeen_def by blast
  next
    case (Some a)
    from firstOf_SomeD [OF this] have a: "a \<in> set ps" "slotProposer a = Some k" by auto
    have first: "firstOf (ps @ [w]) k' = firstOf ps k'" for k' using Some k by (auto simp: firstOf_snoc split: option.splits)
    show ?thesis
    proof (cases "hw_HeaderRoot w = hw_HeaderRoot a")
      case True
      have step: "proposalStep w (m, sl) = Inr (m, sl)"
        using Some True by (simp add: key proposalStep_def proposalKey_eq [OF k] isDoubleProposal_def)
      have "sl = [] \<longrightarrow> (\<forall>b \<in> set (ps @ [w]). \<forall>k. slotProposer b = Some k \<longrightarrow>
          (\<exists>a. firstOf ps k = Some a \<and> hw_HeaderRoot a = hw_HeaderRoot b))"
        using I(4) Some k True by auto
      then show ?thesis using step roots old I(1) unfolding proposalsSeen_def first by blast
    next
      case False
      have "hw_HeaderRoot a \<noteq> ZeroHash" using I(2) a(1) by blast
      then have step: "proposalStep w (m, sl) = Inr (m, sl @ [slashingOf a w])"
        using Some False by (simp add: key proposalStep_def proposalKey_eq [OF k] isDoubleProposal_def slashingOf_def)
      have "doubleProposal a w" using a(2) k False by (simp add: doubleProposal_def)
      then have "\<forall>s \<in> set (sl @ [slashingOf a w]). \<exists>a \<in> set (ps @ [w]). \<exists>b \<in> set (ps @ [w]). doubleProposal a b \<and> s = slashingOf a b"
        using old a(1) by auto
      then show ?thesis using step roots I(1) unfolding proposalsSeen_def first by blast
    qed
  qed
qed

lemma fold_snoc: "fold (\<lambda>x acc. acc @ [x]) xs acc = acc @ xs"
  by (induction xs arbitrary: acc) auto

text \<open>C35. Among the proposals of a batch, which have headers and header roots, the detection reports a slashing exactly if two of
  them are different proposals of one proposer for one slot, and every slashing it reports is such a pair.\<close>

theorem internalSlashings_exact:
  assumes "\<forall>w \<in> set ps. slotProposer w \<noteq> None \<and> hw_HeaderRoot w \<noteq> ZeroHash"
  shows "\<exists>sl. internalSlashings ps = Inr sl
    \<and> (sl \<noteq> [] \<longleftrightarrow> (\<exists>a \<in> set ps. \<exists>b \<in> set ps. doubleProposal a b))
    \<and> (\<forall>s \<in> set sl. \<exists>a \<in> set ps. \<exists>b \<in> set ps. doubleProposal a b \<and> s = slashingOf a b)"
proof -
  have "proposalsSeen [] ([], [])" by (simp add: proposalsSeen_def)
  then have "\<exists>st'. rfold proposalStep ps ([], []) = Inr st' \<and> proposalsSeen (fold (\<lambda>w acc. acc @ [w]) ps []) st'"
  proof (intro rfold_sim)
    fix w acc st
    assume "w \<in> set ps" "proposalsSeen acc st"
    with assms show "\<exists>st'. proposalStep w st = Inr st' \<and> proposalsSeen (acc @ [w]) st'"
      using proposalStep_seen by (cases st) fast
  qed
  then obtain m sl where run: "rfold proposalStep ps ([], []) = Inr (m, sl)" and seen: "proposalsSeen ps (m, sl)"
    by (auto simp: fold_snoc)
  have none: "\<not> doubleProposal a b" if "sl = []" "a \<in> set ps" "b \<in> set ps" for a b
  proof
    assume d: "doubleProposal a b"
    obtain k where k: "slotProposer a = Some k" using assms \<open>a \<in> set ps\<close> by fast
    then have "slotProposer b = Some k" using d by (simp add: doubleProposal_def)
    have "\<exists>x. firstOf ps k = Some x \<and> hw_HeaderRoot x = hw_HeaderRoot c" if "c \<in> set ps" "slotProposer c = Some k" for c
      using seen \<open>sl = []\<close> that unfolding proposalsSeen_def by blast
    from this [OF \<open>a \<in> set ps\<close> k] this [OF \<open>b \<in> set ps\<close> \<open>slotProposer b = Some k\<close>]
    show False using d by (auto simp: doubleProposal_def)
  qed
  have sound: "\<forall>s \<in> set sl. \<exists>a \<in> set ps. \<exists>b \<in> set ps. doubleProposal a b \<and> s = slashingOf a b"
    using seen by (simp add: proposalsSeen_def)
  have "sl \<noteq> [] \<longleftrightarrow> (\<exists>a \<in> set ps. \<exists>b \<in> set ps. doubleProposal a b)"
  proof
    assume "sl \<noteq> []"
    then have "hd sl \<in> set sl" by simp
    with sound show "\<exists>a \<in> set ps. \<exists>b \<in> set ps. doubleProposal a b" by blast
  qed (use none in blast)
  moreover have "internalSlashings ps = Inr sl" by (simp add: internalSlashings_def run)
  ultimately show ?thesis using sound by blast
qed

definition ex_proposal :: "Slot \<Rightarrow> bytes32 \<Rightarrow> SignedBlockHeaderWrapper" where
  "ex_proposal slot root = \<lparr>hw_SignedBeaconBlockHeader = \<lparr>sh_Header = Some \<lparr>bh_Slot = slot, bh_ProposerIndex = 3,
     bh_ParentRoot = 0, bh_StateRoot = root, bh_BodyRoot = 0\<rparr>, sh_Signature = [1]\<rparr>, hw_HeaderRoot = root\<rparr>"

theorem internalSlashings_exact_witness:
  "\<exists>sl. internalSlashings [ex_proposal 11 5, ex_proposal 1 6, ex_proposal 11 7] = Inr sl \<and> sl \<noteq> []"
  using internalSlashings_exact [of "[ex_proposal 11 5, ex_proposal 1 6, ex_proposal 11 7]"]
  by (auto simp: ex_proposal_def slotProposer_def doubleProposal_def)

section \<open>Double votes\<close>

text \<open>
  The votes of the batch that the loops have processed are pairs of the position of an attestation and a
  validator. Two of them are a double vote if they are of one validator, for one target, and the roots of their data differ.
\<close>

definition doubleVote :: "batch \<Rightarrow> nat \<times> ValidatorIndex \<Rightarrow> nat \<times> ValidatorIndex \<Rightarrow> bool" where
  "doubleVote ws = (\<lambda>(i, v) (j, v'). v = v' \<and> targetEpoch (ws ! i) = targetEpoch (ws ! j)
     \<and> w_DataRoot (ws ! i) \<noteq> w_DataRoot (ws ! j))"

text \<open>The map points to processed votes, has an entry for each of them, and the slashings are double votes.\<close>

definition seenSound :: "batch \<Rightarrow> (nat \<times> ValidatorIndex) set \<Rightarrow> ((u64 \<times> Epoch) \<times> nat) list \<Rightarrow> bool" where
  "seenSound ws a ex \<longleftrightarrow>
     (\<forall>v t j. map_of ex (v, t) = Some j \<longrightarrow> (j, v) \<in> a \<and> j < length ws \<and> targetEpoch (ws ! j) = Inr t)"

definition seenAll :: "batch \<Rightarrow> (nat \<times> ValidatorIndex) set \<Rightarrow> ((u64 \<times> Epoch) \<times> nat) list \<Rightarrow> slashings \<Rightarrow> bool" where
  "seenAll ws a ex sl \<longleftrightarrow>
     (\<forall>i v. (i, v) \<in> a \<longrightarrow> (\<exists>j t. targetEpoch (ws ! i) = Inr t \<and> map_of ex (v, t) = Some j
        \<and> (sl = [] \<longrightarrow> w_DataRoot (ws ! j) = w_DataRoot (ws ! i))))"

definition isEvidence :: "batch \<Rightarrow> (nat \<times> ValidatorIndex) set \<Rightarrow> AttSlashing \<Rightarrow> bool" where
  "isEvidence ws a s \<longleftrightarrow>
     (\<exists>x \<in> a. \<exists>y \<in> a. doubleVote ws x y \<and> evidence s = {the (voteOf (ws ! fst x)), the (voteOf (ws ! fst y))})"

definition votesSeen :: "batch \<Rightarrow> (nat \<times> ValidatorIndex) set \<Rightarrow> doubleState \<Rightarrow> bool" where
  "votesSeen ws0 a = (\<lambda>(ws, ex, sl).
     map voteOf ws = map voteOf ws0 \<and> map w_DataRoot ws = map w_DataRoot ws0
     \<and> seenSound ws0 a ex \<and> seenAll ws0 a ex sl \<and> (\<forall>s \<in> snd ` set sl. isEvidence ws0 a s))"

lemma seenSound_insert: "seenSound ws a ex \<Longrightarrow> seenSound ws (insert x a) ex"
  by (auto simp: seenSound_def)

lemma seenSound_update:
  "seenSound ws a ex \<Longrightarrow> i < length ws \<Longrightarrow> targetEpoch (ws ! i) = Inr t \<Longrightarrow>
     seenSound ws (insert (i, v) a) (AList.update (v, t) i ex)"
  by (auto simp: seenSound_def update_conv' split: if_splits)

lemma seenAll_update:
  assumes "seenAll ws a ex sl" and "map_of ex (v, t) = None" and "targetEpoch (ws ! i) = Inr t"
  shows "seenAll ws (insert (i, v) a) (AList.update (v, t) i ex) sl"
  unfolding seenAll_def
proof (intro allI impI)
  fix i' v'
  assume "(i', v') \<in> insert (i, v) a"
  then consider "i' = i" "v' = v" | "(i', v') \<in> a" by auto
  then show "\<exists>j t'. targetEpoch (ws ! i') = Inr t' \<and> map_of (AList.update (v, t) i ex) (v', t') = Some j
      \<and> (sl = [] \<longrightarrow> w_DataRoot (ws ! j) = w_DataRoot (ws ! i'))"
  proof cases
    case 1
    then show ?thesis using assms(3) by (simp add: update_conv')
  next
    case 2
    then obtain j t' where jt: "targetEpoch (ws ! i') = Inr t'" "map_of ex (v', t') = Some j"
      "sl = [] \<longrightarrow> w_DataRoot (ws ! j) = w_DataRoot (ws ! i')" using assms(1) unfolding seenAll_def by blast
    moreover have "(v', t') \<noteq> (v, t)" using jt(2) assms(2) by auto
    ultimately show ?thesis by (auto simp: update_conv')
  qed
qed

lemma seenAll_insert:
  assumes "seenAll ws a ex sl" and "map_of ex (v, t) = Some j" and "targetEpoch (ws ! i) = Inr t"
    and "sl = [] \<Longrightarrow> w_DataRoot (ws ! j) = w_DataRoot (ws ! i)"
  shows "seenAll ws (insert (i, v) a) ex sl"
  using assms unfolding seenAll_def by auto

lemma seenAll_found: "seenAll ws a ex sl \<Longrightarrow> sl' \<noteq> [] \<Longrightarrow> seenAll ws a ex sl'"
  unfolding seenAll_def by blast

lemma isEvidence_insert: "isEvidence ws a s \<Longrightarrow> isEvidence ws (insert x a) s"
  unfolding isEvidence_def by blast

lemma evidence_update:
  "\<forall>s \<in> snd ` set sl. isEvidence ws a s \<Longrightarrow> isEvidence ws a e \<Longrightarrow> \<forall>s \<in> snd ` set (AList.update root e sl). isEvidence ws a s"
  using set_AList_update [of root e sl] by blast

lemma unifiedSlashing_roots:
  assumes "unifiedSlashing e i = Inr (sl, e', i')"
  shows "w_DataRoot e' = w_DataRoot e \<and> w_DataRoot i' = w_DataRoot i"
  using assms by (auto simp: unifiedSlashing_def unifyAttWrapperVersion_def toElectra_def rbind_eq_Inr split: option.splits if_splits)

lemma map_update_same:
  assumes "map f ws = map f ws0" and "f w = f (ws0 ! i)" and "i < length ws0"
  shows "map f (ws[i := w]) = map f ws0"
  using assms by (metis list_update_id map_update nth_map)

lemma doubleVote_found:
  assumes same: "map voteOf ws = map voteOf ws0" "map w_DataRoot ws = map w_DataRoot ws0"
    and ij: "i < length ws0" "j < length ws0" and xy: "voteOf (ws0 ! j) = Some x" "voteOf (ws0 ! i) = Some y"
  shows "\<exists>e w1 w2. unifiedSlashing (ws ! j) (ws ! i) = Inr (e, w1, w2) \<and> evidence e = {x, y}
    \<and> map voteOf (ws[j := w1, i := w2]) = map voteOf ws0 \<and> map w_DataRoot (ws[j := w1, i := w2]) = map w_DataRoot ws0"
proof -
  have len: "length ws = length ws0" using same(1) by (rule map_eq_imp_length_eq)
  have nth: "voteOf (ws ! k) = voteOf (ws0 ! k)" "w_DataRoot (ws ! k) = w_DataRoot (ws0 ! k)" if "k < length ws0" for k
    using same that len by (metis nth_map)+
  obtain e w1 w2 where e: "unifiedSlashing (ws ! j) (ws ! i) = Inr (e, w1, w2)" "evidence e = {x, y}"
    "voteOf w1 = Some x" "voteOf w2 = Some y"
    using unifiedSlashing_ok [of "ws ! j" x "ws ! i" y] nth(1) [OF ij(1)] nth(1) [OF ij(2)] xy by auto
  note r = unifiedSlashing_roots [OF e(1)]
  have "map voteOf (ws[j := w1, i := w2]) = map voteOf ws0"
    using map_update_same [of voteOf "ws[j := w1]" ws0 w2 i] map_update_same [of voteOf ws ws0 w1 j] same(1) e(3,4) xy ij by simp
  moreover have "map w_DataRoot (ws[j := w1, i := w2]) = map w_DataRoot ws0"
    using map_update_same [of w_DataRoot "ws[j := w1]" ws0 w2 i] map_update_same [of w_DataRoot ws ws0 w1 j] same(2) r nth(2) ij by simp
  ultimately show ?thesis using e(1,2) by blast
qed

lemma doubleVoteStep_seen:
  assumes seen: "votesSeen ws0 a st" and i: "i < length ws0" and t: "targetEpoch (ws0 ! i) = Inr t"
    and roots: "\<And>sl. \<exists>root. slashingRoot cfg sl = Inr root" and votes: "\<And>w. w \<in> set ws0 \<Longrightarrow> voteOf w \<noteq> None"
  shows "\<exists>st'. doubleVoteStep cfg i t v st = Inr st' \<and> votesSeen ws0 (insert (i, v) a) st'"
proof -
  obtain ws ex sl where st: "st = (ws, ex, sl)" by (cases st)
  have I: "map voteOf ws = map voteOf ws0" "map w_DataRoot ws = map w_DataRoot ws0"
    "seenSound ws0 a ex" "seenAll ws0 a ex sl" "\<forall>s \<in> snd ` set sl. isEvidence ws0 a s"
    using seen by (simp_all add: votesSeen_def st)
  have ev: "\<forall>s \<in> snd ` set sl. isEvidence ws0 (insert (i, v) a) s" using I(5) isEvidence_insert by blast
  show ?thesis
  proof (cases "map_of ex (v, t)")
    case None
    then have "doubleVoteStep cfg i t v st = Inr (ws, AList.update (v, t) i ex, sl)" by (simp add: doubleVoteStep_def st)
    moreover have "votesSeen ws0 (insert (i, v) a) (ws, AList.update (v, t) i ex, sl)"
      using I(1,2) ev seenSound_update [OF I(3) i t] seenAll_update [OF I(4) None t] by (simp add: votesSeen_def)
    ultimately show ?thesis by blast
  next
    case (Some j)
    then have j: "(j, v) \<in> a" "j < length ws0" "targetEpoch (ws0 ! j) = Inr t" using I(3) unfolding seenSound_def by blast+
    have len: "length ws = length ws0" using I(1) by (rule map_eq_imp_length_eq)
    have nth: "w_DataRoot (ws ! k) = w_DataRoot (ws0 ! k)" if "k < length ws0" for k using I(2) that len by (metis nth_map)
    show ?thesis
    proof (cases "w_DataRoot (ws0 ! j) = w_DataRoot (ws0 ! i)")
      case True
      then have "doubleVoteStep cfg i t v st = Inr (ws, ex, sl)"
        using Some nth i j(2) by (simp add: doubleVoteStep_def st)
      moreover have "votesSeen ws0 (insert (i, v) a) (ws, ex, sl)"
        using I(1,2) ev seenSound_insert [OF I(3)] seenAll_insert [OF I(4) Some t True] by (simp add: votesSeen_def)
      ultimately show ?thesis by blast
    next
      case False
      obtain x y where xy: "voteOf (ws0 ! j) = Some x" "voteOf (ws0 ! i) = Some y"
        using votes [OF nth_mem [OF i]] votes [OF nth_mem [OF j(2)]] by blast
      from doubleVote_found [OF I(1,2) i j(2) xy] obtain e w1 w2 where
        e: "unifiedSlashing (ws ! j) (ws ! i) = Inr (e, w1, w2)" "evidence e = {x, y}"
        "map voteOf (ws[j := w1, i := w2]) = map voteOf ws0" "map w_DataRoot (ws[j := w1, i := w2]) = map w_DataRoot ws0" by blast
      obtain root where root: "slashingRoot cfg e = Inr root" using roots by blast
      have "doubleVoteStep cfg i t v st = Inr (ws[j := w1, i := w2], ex, AList.update root e sl)"
        using Some False nth [OF i] nth [OF j(2)] e(1) root by (simp add: doubleVoteStep_def st)
      moreover have "doubleVote ws0 (j, v) (i, v)" using False t j(3) by (simp add: doubleVote_def)
      then have isE: "isEvidence ws0 (insert (i, v) a) e"
        unfolding isEvidence_def using j(1) xy e(2) by (intro bexI [of _ "(j, v)"] bexI [of _ "(i, v)"]) auto
      have "seenAll ws0 (insert (i, v) a) ex (AList.update root e sl)"
        by (rule seenAll_insert [OF seenAll_found [OF I(4) AList_update_ne] Some t]) simp
      then have "votesSeen ws0 (insert (i, v) a) (ws[j := w1, i := w2], ex, AList.update root e sl)"
        using e(3,4) evidence_update [OF ev isE, of root] seenSound_insert [OF I(3), of "(i, v)"]
        unfolding votesSeen_def prod.case by blast
      ultimately show ?thesis by blast
    qed
  qed
qed

definition batchVotes :: "batch \<Rightarrow> (nat \<times> ValidatorIndex) set" where
  "batchVotes ws = {(i, v). i < length ws \<and> v \<in> set (projr (attestingIndices (ws ! i)))}"

lemma fold_insert_pairs: "fold (\<lambda>v. insert (i, v)) vs a = a \<union> Pair i ` set vs"
  by (induction vs arbitrary: a) auto

lemma fold_batchVotes:
  "n \<le> length ws \<Longrightarrow> fold (\<lambda>i. fold (\<lambda>v. insert (i, v)) (projr (attestingIndices (ws ! i)))) [0..<n] {}
     = {(i, v). i < n \<and> v \<in> set (projr (attestingIndices (ws ! i)))}"
  by (induction n) (auto simp: fold_insert_pairs less_Suc_eq)

lemma targetEpoch_ok:
  assumes "targetEpoch w = Inr t"
  shows "attestingIndices w = Inr (projr (attestingIndices w))" "voteOf w \<noteq> None"
  using assms by (auto simp: targetEpoch_def attestingIndices_def voteOf_def split: option.splits)

lemma doubleVoteAtt_seen:
  assumes targets: "\<forall>w \<in> set ws0. \<exists>t. targetEpoch w = Inr t" and roots: "\<And>sl. \<exists>root. slashingRoot cfg sl = Inr root"
    and i: "i < length ws0" and seen: "votesSeen ws0 a st"
  shows "\<exists>st'. doubleVoteAtt cfg i st = Inr st'
    \<and> votesSeen ws0 (fold (\<lambda>v. insert (i, v)) (projr (attestingIndices (ws0 ! i))) a) st'"
proof -
  obtain ws ex sl where st: "st = (ws, ex, sl)" by (cases st)
  obtain t where t: "targetEpoch (ws0 ! i) = Inr t" using targets nth_mem [OF i] by blast
  have "map voteOf ws = map voteOf ws0" using seen by (simp add: votesSeen_def st)
  then have "voteOf (ws ! i) = voteOf (ws0 ! i)" using i by (metis length_map nth_map)
  note same = voteOf_same [OF this]
  have "doubleVoteAtt cfg i st = rfold (doubleVoteStep cfg i t) (projr (attestingIndices (ws0 ! i))) st"
    by (simp add: doubleVoteAtt_def st same t) (subst targetEpoch_ok(1) [OF t], simp)
  moreover have "voteOf w \<noteq> None" if "w \<in> set ws0" for w using targets that targetEpoch_ok(2) by blast
  then have "\<exists>st'. rfold (doubleVoteStep cfg i t) (projr (attestingIndices (ws0 ! i))) st = Inr st'
      \<and> votesSeen ws0 (fold (\<lambda>v. insert (i, v)) (projr (attestingIndices (ws0 ! i))) a) st'"
    by (intro rfold_sim doubleVoteStep_seen [OF _ i t roots] seen)
  ultimately show ?thesis by simp
qed

text \<open>C34. Against a database without double votes of its own, the check of a batch reports a slashing exactly if two attestations
  of the batch are of one validator, for one target, and have different data; every slashing it reports is made of such a pair.\<close>

theorem checkDoubleVotes_exact:
  assumes "\<forall>w \<in> set ws. \<exists>t. targetEpoch w = Inr t" and "\<forall>sl. \<exists>root. slashingRoot cfg sl = Inr root"
    and "\<forall>ws. CheckAttesterDoubleVotes cfg db ws = Inr []"
  shows "\<exists>ws' sl. checkDoubleVotes cfg db ws = Inr (ws', sl)
    \<and> (sl \<noteq> [] \<longleftrightarrow> (\<exists>x \<in> batchVotes ws. \<exists>y \<in> batchVotes ws. doubleVote ws x y))
    \<and> (\<forall>s \<in> snd ` set sl. isEvidence ws (batchVotes ws) s) \<and> map voteOf ws' = map voteOf ws"
proof -
  have "votesSeen ws {} (ws, [], [])" by (simp add: votesSeen_def seenSound_def seenAll_def)
  then have "\<exists>st'. rfold (doubleVoteAtt cfg) [0..<length ws] (ws, [], []) = Inr st' \<and> votesSeen ws
      (fold (\<lambda>i. fold (\<lambda>v. insert (i, v)) (projr (attestingIndices (ws ! i)))) [0..<length ws] {}) st'"
    using assms(1,2) by (intro rfold_sim doubleVoteAtt_seen) auto
  then obtain ws' ex sl where run: "rfold (doubleVoteAtt cfg) [0..<length ws] (ws, [], []) = Inr (ws', ex, sl)"
    and seen: "votesSeen ws (batchVotes ws) (ws', ex, sl)"
    by (auto simp: fold_batchVotes batchVotes_def)
  have ev: "\<forall>s \<in> snd ` set sl. isEvidence ws (batchVotes ws) s" using seen by (simp add: votesSeen_def)
  have "sl \<noteq> [] \<longleftrightarrow> (\<exists>x \<in> batchVotes ws. \<exists>y \<in> batchVotes ws. doubleVote ws x y)"
  proof
    assume "sl \<noteq> []"
    then have "snd (hd sl) \<in> snd ` set sl" by simp
    with ev show "\<exists>x \<in> batchVotes ws. \<exists>y \<in> batchVotes ws. doubleVote ws x y" unfolding isEvidence_def by blast
  next
    assume "\<exists>x \<in> batchVotes ws. \<exists>y \<in> batchVotes ws. doubleVote ws x y"
    then obtain i v j where ij: "(i, v) \<in> batchVotes ws" "(j, v) \<in> batchVotes ws"
      "targetEpoch (ws ! i) = targetEpoch (ws ! j)" "w_DataRoot (ws ! i) \<noteq> w_DataRoot (ws ! j)"
      by (auto simp: doubleVote_def)
    have all: "seenAll ws (batchVotes ws) ex sl" using seen by (simp add: votesSeen_def)
    show "sl \<noteq> []"
      using ij all [unfolded seenAll_def, rule_format, OF ij(1)] all [unfolded seenAll_def, rule_format, OF ij(2)] by auto
  qed
  moreover have "checkDoubleVotes cfg db ws = Inr (ws', sl)" using run assms(3) by (simp add: checkDoubleVotes_def)
  moreover have "map voteOf ws' = map voteOf ws" using seen by (simp add: votesSeen_def)
  ultimately show ?thesis using ev by blast
qed

theorem checkDoubleVotes_exact_witness:
  "\<exists>ws' sl. checkDoubleVotes (ex_config []) () [ex_vote 0 3, (ex_vote 1 3)\<lparr>w_DataRoot := 9\<rparr>] = Inr (ws', sl) \<and> sl \<noteq> []"
proof -
  let ?w = "(ex_vote 1 3)\<lparr>w_DataRoot := 9\<rparr>"
  have "voteOf ?w = voteOf (ex_vote 1 3)" by (simp add: voteOf_def)
  note same = voteOf_same [OF this]
  have "(0, 1) \<in> batchVotes [ex_vote 0 3, ?w]" "(1, 1) \<in> batchVotes [ex_vote 0 3, ?w]"
    by (simp_all add: batchVotes_def same)
  moreover have "doubleVote [ex_vote 0 3, ?w] (0, 1) (1, 1)"
    by (simp add: doubleVote_def same) (simp add: ex_vote_def)
  moreover have "\<forall>w \<in> set [ex_vote 0 3, ?w]. \<exists>t. targetEpoch w = Inr t" by (simp add: same)
  moreover have "\<forall>sl. \<exists>root. slashingRoot (ex_config []) sl = Inr root"
    "\<forall>ws. CheckAttesterDoubleVotes (ex_config []) () ws = Inr []" by (simp_all add: ex_config_def)
  ultimately show ?thesis using checkDoubleVotes_exact [of "[ex_vote 0 3, ?w]" "ex_config []" "()"] by blast
qed

section \<open>The inspection tool\<close>

text \<open>C38. \<^verbatim>\<open>GetChunkFromDatabase\<close> panics for every validator whose last written epoch is below the history length: it subtracts
  the one from the other without a check.\<close>

theorem GetChunkFromDatabase_panics:
  assumes "LastEpochWrittenForValidators cfg db [v] = Inr ((v, e) # rest)" and "e < historyLength p"
  shows "GetChunkFromDatabase cfg p db kind v source = Inl Panic"
proof -
  have "Epoch_Sub e (historyLength p) \<noteq> Inr y" for y
    using assms(2) by (simp add: epoch.unsafe_exact word_less_unat)
  then have "Epoch_Sub e (historyLength p) = Inl Panic"
    by (cases "Epoch_Sub e (historyLength p)") (auto simp: Epoch_Sub_def must_def split: sum.splits prod.splits)
  then show ?thesis using assms(1) by (simp add: GetChunkFromDatabase_def Let_def)
qed

theorem GetChunkFromDatabase_panics_witness:
  "GetChunkFromDatabase ((ex_config [])\<lparr>LastEpochWrittenForValidators := \<lambda>_ vs. Inr (map (\<lambda>v. (v, 100)) vs)\<rparr>)
     DefaultParams () MinSpan 1 99 = Inl Panic"
  by (rule GetChunkFromDatabase_panics [of _ _ _ 100 "[]"]) (simp_all add: DefaultParams_def)

end
