(* ===== verification/MV_Slice.thy ===== *)
theory MV_Slice
  imports Prelude "HOL-Library.Multiset"
begin

text \<open>
  The multi-value slice of \<^verbatim>\<open>container/multi-value-slice\<close>, which beacon states use to share the values of their long
  lists: every object (a state, by its identifier) sees a list of its own, stored as differences from the items all of them share.

  The model keeps the representation of the code. The theorems give the list each object sees and show that every operation on one
  object changes this list as it would change a plain slice and leaves the lists of all other objects alone.
\<close>

section \<open>Plain slices\<close>

text \<open>
  Reading and writing an element of a plain slice with the bounds check of the container. \<^verbatim>\<open>EmptyMVSlice\<close> reads its slice
  this way, and the operations on a beacon state are written with them.
\<close>

definition sliceAt :: "'a list \<Rightarrow> u64 \<Rightarrow> 'a result" where
  "sliceAt xs i = (if i \<ge> of_nat (length xs) then Inl ErrOutOfBounds else Inr (xs ! unat i))"

definition sliceUpdateAt :: "'a list \<Rightarrow> u64 \<Rightarrow> 'a \<Rightarrow> 'a list result" where
  "sliceUpdateAt xs i x = (if i \<ge> of_nat (length xs) then Inl ErrOutOfBounds else Inr (xs[unat i := x]))"

lemma sliceAt_eq: "length xs < 2 ^ 64 \<Longrightarrow> sliceAt xs i = (if unat i < length xs then Inr (xs ! unat i) else Inl ErrOutOfBounds)"
  by (auto simp: sliceAt_def word_le_unat unat_of_nat)

lemma sliceUpdateAt_eq:
  "length xs < 2 ^ 64 \<Longrightarrow> sliceUpdateAt xs i x = (if unat i < length xs then Inr (xs[unat i := x]) else Inl ErrOutOfBounds)"
  by (auto simp: sliceUpdateAt_def word_le_unat unat_of_nat)

section \<open>Representation\<close>

text \<open>A value with the identifiers of the objects that have it; an item is the list of the values of one index.\<close>

record 'v Value =
  mv_val :: 'v
  mv_ids :: "u64 list"

type_synonym 'v MultiValueItem = "'v Value list"

record 'v Slice =
  sharedItems :: "'v list"
  individualItems :: "(u64 \<times> 'v MultiValueItem) list"
  appendedItems :: "'v MultiValueItem list"
  cachedLengths :: "(u64 \<times> nat) list"

definition Init :: "'v list \<Rightarrow> 'v Slice" where
  "Init items = \<lparr>sharedItems = items, individualItems = [], appendedItems = [], cachedLengths = []\<rparr>"

definition Len :: "'v Slice \<Rightarrow> u64 \<Rightarrow> nat" where
  "Len s obj = (case map_of (cachedLengths s) obj of None \<Rightarrow> length (sharedItems s) | Some l \<Rightarrow> l)"

section \<open>Items\<close>

text \<open>\<^verbatim>\<open>containsId\<close>: the first index of the identifier, if it is there.\<close>

fun containsId :: "u64 list \<Rightarrow> u64 \<Rightarrow> nat option" where
  "containsId [] wanted = None"
| "containsId (i # is) wanted = (if i = wanted then Some 0 else map_option Suc (containsId is wanted))"

definition deleteElemFromSlice :: "'a list \<Rightarrow> nat \<Rightarrow> 'a list" where
  "deleteElemFromSlice s i = butlast (s[i := last s])"

text \<open>The first value of an item that the object has: its index and the index of the identifier in it.\<close>

fun findValue :: "u64 \<Rightarrow> 'v MultiValueItem \<Rightarrow> (nat \<times> nat) option" where
  "findValue obj [] = None"
| "findValue obj (v # vs) = (case containsId (mv_ids v) obj of
     Some k \<Rightarrow> Some (0, k)
   | None \<Rightarrow> map_option (\<lambda>(vi, k). (Suc vi, k)) (findValue obj vs))"

definition valueOf :: "u64 \<Rightarrow> 'v MultiValueItem \<Rightarrow> 'v option" where
  "valueOf obj item = map_option (\<lambda>(vi, k). mv_val (item ! vi)) (findValue obj item)"

text \<open>The object no longer has a value of the item.\<close>

definition removeId :: "u64 \<Rightarrow> 'v MultiValueItem \<Rightarrow> 'v MultiValueItem" where
  "removeId obj item = (case findValue obj item of
     None \<Rightarrow> item
   | Some (vi, k) \<Rightarrow>
       let v = item ! vi in
       if length (mv_ids v) = 1 then deleteElemFromSlice item vi
       else item[vi := v\<lparr>mv_ids := deleteElemFromSlice (mv_ids v) k\<rparr>])"

text \<open>The object gets the value: it joins the objects that have it, or the value is new.\<close>

fun addId :: "u64 \<Rightarrow> 'v \<Rightarrow> 'v MultiValueItem \<Rightarrow> 'v MultiValueItem" where
  "addId obj val [] = [\<lparr>mv_val = val, mv_ids = [obj]\<rparr>]"
| "addId obj val (v # vs) = (if mv_val v = val then v\<lparr>mv_ids := mv_ids v @ [obj]\<rparr> # vs else v # addId obj val vs)"

text \<open>\<open>dst\<close> joins \<open>src\<close> in the item, if \<open>src\<close> has a value of it.\<close>

definition copyId :: "u64 \<Rightarrow> u64 \<Rightarrow> 'v MultiValueItem \<Rightarrow> 'v MultiValueItem" where
  "copyId src dst item = (case findValue src item of
     None \<Rightarrow> item
   | Some (vi, k) \<Rightarrow> item[vi := (item ! vi)\<lparr>mv_ids := mv_ids (item ! vi) @ [dst]\<rparr>])"

section \<open>Operations\<close>

text \<open>The loops over the appended items stop at the first item in which the object has no value.\<close>

fun copyAppended :: "u64 \<Rightarrow> u64 \<Rightarrow> 'v MultiValueItem list \<Rightarrow> 'v MultiValueItem list" where
  "copyAppended src dst [] = []"
| "copyAppended src dst (item # items) =
     (if findValue src item = None then item # items else copyId src dst item # copyAppended src dst items)"

definition Copy :: "u64 \<Rightarrow> u64 \<Rightarrow> 'v Slice \<Rightarrow> 'v Slice" where
  "Copy src dst s =
     (let s = s\<lparr>individualItems := map (\<lambda>(i, item). (i, copyId src dst item)) (individualItems s),
               appendedItems := copyAppended src dst (appendedItems s)\<rparr> in
      case map_of (cachedLengths s) src of
        None \<Rightarrow> s
      | Some srcLen \<Rightarrow> s\<lparr>cachedLengths := AList.update dst srcLen (cachedLengths s)\<rparr>)"

text \<open>Writing an element of the result slice panics out of range. \<open>make\<close> fills a slice with the zero value of its type.\<close>

definition setItem :: "nat \<Rightarrow> 'v \<Rightarrow> 'v list \<Rightarrow> 'v list result" where
  "setItem i v items = (if i < length items then Inr (items[i := v]) else Inl Panic)"

definition originalItem :: "'v Slice \<Rightarrow> u64 \<Rightarrow> nat \<Rightarrow> 'v \<Rightarrow> 'v" where
  "originalItem s obj i item = (case map_of (individualItems s) (of_nat i) of
     None \<Rightarrow> item
   | Some ind \<Rightarrow> (case valueOf obj ind of None \<Rightarrow> item | Some v \<Rightarrow> v))"

definition fillOriginalItems :: "'v Slice \<Rightarrow> u64 \<Rightarrow> 'v list \<Rightarrow> 'v list result" where
  "fillOriginalItems s obj items =
     rfold (\<lambda>(i, item). setItem i (originalItem s obj i item)) (enumerate 0 (sharedItems s)) items"

fun fillAppended :: "u64 \<Rightarrow> nat \<Rightarrow> 'v MultiValueItem list \<Rightarrow> 'v list \<Rightarrow> 'v list result" where
  "fillAppended obj i [] result = Inr result"
| "fillAppended obj i (item # items) result = (case valueOf obj item of
     None \<Rightarrow> Inr result
   | Some v \<Rightarrow> rbind (setItem i v result) (fillAppended obj (Suc i) items))"

definition Slice_Value :: "'v \<Rightarrow> 'v Slice \<Rightarrow> u64 \<Rightarrow> 'v list result" where
  "Slice_Value zero s obj = (case map_of (cachedLengths s) obj of
     Some l \<Rightarrow> rbind (fillOriginalItems s obj (replicate l zero)) (fillAppended obj (length (sharedItems s)) (appendedItems s))
   | None \<Rightarrow> fillOriginalItems s obj (replicate (length (sharedItems s)) zero))"

definition Slice_At :: "'v Slice \<Rightarrow> u64 \<Rightarrow> u64 \<Rightarrow> 'v result" where
  "Slice_At s obj index =
     (if index \<ge> of_nat (length (sharedItems s) + length (appendedItems s)) then Inl ErrOutOfBounds
      else if index < of_nat (length (sharedItems s)) then
        (case map_of (individualItems s) index of
           None \<Rightarrow> Inr (sharedItems s ! unat index)
         | Some ind \<Rightarrow> (case valueOf obj ind of Some v \<Rightarrow> Inr v | None \<Rightarrow> Inr (sharedItems s ! unat index)))
      else case valueOf obj (appendedItems s ! unat (index - of_nat (length (sharedItems s)))) of
          Some v \<Rightarrow> Inr v
        | None \<Rightarrow> Inl ErrOutOfBounds)"

definition updateOriginalItem :: "u64 \<Rightarrow> u64 \<Rightarrow> 'v \<Rightarrow> 'v Slice \<Rightarrow> 'v Slice" where
  "updateOriginalItem obj index val s = (case map_of (individualItems s) index of
     None \<Rightarrow>
       if val = sharedItems s ! unat index then s
       else s\<lparr>individualItems := AList.update index [\<lparr>mv_val = val, mv_ids = [obj]\<rparr>] (individualItems s)\<rparr>
   | Some ind \<Rightarrow>
       let ind = removeId obj ind in
       if val = sharedItems s ! unat index then s\<lparr>individualItems := AList.update index ind (individualItems s)\<rparr>
       else s\<lparr>individualItems := AList.update index (addId obj val ind) (individualItems s)\<rparr>)"

definition updateAppendedItem :: "u64 \<Rightarrow> u64 \<Rightarrow> 'v \<Rightarrow> 'v Slice \<Rightarrow> 'v Slice result" where
  "updateAppendedItem obj index val s =
     (let k = unat (index - of_nat (length (sharedItems s))); item = appendedItems s ! k in
      if findValue obj item = None then Inl ErrOutOfBounds
      else Inr (s\<lparr>appendedItems := (appendedItems s)[k := addId obj val (removeId obj item)]\<rparr>))"

definition UpdateAt :: "u64 \<Rightarrow> u64 \<Rightarrow> 'v \<Rightarrow> 'v Slice \<Rightarrow> 'v Slice result" where
  "UpdateAt obj index val s =
     (if index \<ge> of_nat (length (sharedItems s) + length (appendedItems s)) then Inl ErrOutOfBounds
      else if index < of_nat (length (sharedItems s)) then Inr (updateOriginalItem obj index val s)
      else updateAppendedItem obj index val s)"

text \<open>The value goes into the first appended item in which the object has none; if there is no such item it is a new one.\<close>

fun appendLoop :: "u64 \<Rightarrow> 'v \<Rightarrow> 'v MultiValueItem list \<Rightarrow> 'v MultiValueItem list option" where
  "appendLoop obj val [] = None"
| "appendLoop obj val (item # items) =
     (if findValue obj item = None then Some (addId obj val item # items)
      else map_option (\<lambda>items'. item # items') (appendLoop obj val items))"

definition Slice_Append :: "u64 \<Rightarrow> 'v \<Rightarrow> 'v Slice \<Rightarrow> 'v Slice" where
  "Slice_Append obj val s =
     (let new = [\<lparr>mv_val = val, mv_ids = [obj]\<rparr>]; sharedLen = length (sharedItems s) in
      if appendedItems s = [] then
        s\<lparr>appendedItems := [new], cachedLengths := AList.update obj (sharedLen + 1) (cachedLengths s)\<rparr>
      else case appendLoop obj val (appendedItems s) of
          Some items \<Rightarrow> s\<lparr>appendedItems := items,
            cachedLengths := AList.update obj (case map_of (cachedLengths s) obj of Some l \<Rightarrow> l + 1 | None \<Rightarrow> sharedLen + 1) (cachedLengths s)\<rparr>
        | None \<Rightarrow> s\<lparr>appendedItems := appendedItems s @ [new],
            cachedLengths := AList.update obj ((case map_of (cachedLengths s) obj of Some l \<Rightarrow> l | None \<Rightarrow> 0) + 1) (cachedLengths s)\<rparr>)"

definition detachItem :: "u64 \<Rightarrow> u64 \<times> 'v MultiValueItem \<Rightarrow> (u64 \<times> 'v MultiValueItem) option" where
  "detachItem obj = (\<lambda>(i, ind). case findValue obj ind of
     None \<Rightarrow> Some (i, ind)
   | Some (vi, k) \<Rightarrow> if length (mv_ids (ind ! vi)) = 1 \<and> length ind = 1 then None else Some (i, removeId obj ind))"

fun detachAppended :: "u64 \<Rightarrow> 'v MultiValueItem list \<Rightarrow> 'v MultiValueItem list" where
  "detachAppended obj [] = []"
| "detachAppended obj (item # items) =
     (if findValue obj item = None then item # items else removeId obj item # detachAppended obj items)"

definition Detach :: "u64 \<Rightarrow> 'v Slice \<Rightarrow> 'v Slice" where
  "Detach obj s = s\<lparr>individualItems := List.map_filter (detachItem obj) (individualItems s),
     appendedItems := detachAppended obj (appendedItems s), cachedLengths := AList.delete obj (cachedLengths s)\<rparr>"

section \<open>Statistics and reset\<close>

record MultiValueStatistics =
  TotalIndividualElements :: nat
  TotalAppendedElements :: nat
  TotalIndividualElemReferences :: nat
  TotalAppendedElemReferences :: nat

definition itemReferences :: "'v MultiValueItem \<Rightarrow> nat" where
  "itemReferences item = sum_list (map (\<lambda>v. length (mv_ids v)) item)"

definition Slice_MultiValueStatistics :: "'v Slice \<Rightarrow> MultiValueStatistics" where
  "Slice_MultiValueStatistics s =
     \<lparr>TotalIndividualElements = length (individualItems s), TotalAppendedElements = length (appendedItems s),
      TotalIndividualElemReferences = sum_list (map (itemReferences \<circ> snd) (individualItems s)),
      TotalAppendedElemReferences = sum_list (map itemReferences (appendedItems s))\<rparr>"

definition fragmentationLimit :: nat where "fragmentationLimit = 50000"

definition IsFragmented :: "'v Slice \<Rightarrow> bool" where
  "IsFragmented s = (let stats = Slice_MultiValueStatistics s in
     TotalIndividualElemReferences stats + TotalAppendedElemReferences stats \<ge> fragmentationLimit)"

text \<open>The loop over the appended items; an item without values leaves the flag \<^verbatim>\<open>found\<close> set.\<close>

fun resetAppended :: "u64 \<Rightarrow> nat \<Rightarrow> 'v MultiValueItem list \<Rightarrow> 'v list \<Rightarrow> 'v list result" where
  "resetAppended obj index [] items = Inr items"
| "resetAppended obj index (app # apps) items = (case valueOf obj app of
     Some v \<Rightarrow> rbind (setItem index v items) (resetAppended obj (index + 1) apps)
   | None \<Rightarrow> if app = [] then resetAppended obj index apps items else Inr items)"

definition resetIndividual :: "u64 \<Rightarrow> u64 \<times> 'v MultiValueItem \<Rightarrow> 'v list \<Rightarrow> 'v list result" where
  "resetIndividual obj = (\<lambda>(i, ind) items. case valueOf obj ind of
     Some v \<Rightarrow> setItem (unat i) v items
   | None \<Rightarrow> Inr items)"

definition Reset :: "'v \<Rightarrow> 'v Slice \<Rightarrow> u64 \<Rightarrow> 'v Slice result" where
  "Reset zero s obj =
     (let l = Len s obj;
          items = take l (sharedItems s) @ replicate (l - length (sharedItems s)) zero in
      rbind (rfold (resetIndividual obj) (individualItems s) items) (\<lambda>items.
      rbind (resetAppended obj (length (sharedItems s)) (appendedItems s) items) (\<lambda>items.
        Inr (Init items))))"

section \<open>The entries of an item\<close>

definition entries :: "'v MultiValueItem \<Rightarrow> (u64 \<times> 'v) list" where
  "entries item = concat (map (\<lambda>v. map (\<lambda>i. (i, mv_val v)) (mv_ids v)) item)"

definition item_ok :: "'v MultiValueItem \<Rightarrow> bool" where
  "item_ok item \<longleftrightarrow> distinct (map fst (entries item))"

lemma entries_simps [simp]:
  "entries [] = []" "entries (v # vs) = map (\<lambda>i. (i, mv_val v)) (mv_ids v) @ entries vs" "entries (xs @ ys) = entries xs @ entries ys"
  by (simp_all add: entries_def)

lemma mset_deleteElem: "i < length xs \<Longrightarrow> mset (deleteElemFromSlice xs i) = mset xs - {#xs ! i#}"
proof -
  assume i: "i < length xs"
  then have "xs \<noteq> []" by auto
  then have "last (xs[i := last xs]) = last xs" using i by (simp add: last_conv_nth nth_list_update)
  moreover have "mset (butlast ys) = mset ys - {#last ys#}" if "ys \<noteq> []" for ys :: "'a list"
    using that by (metis add_mset_remove_trivial append_butlast_last_id mset.simps(2) mset_append union_mset_add_mset_right add.right_neutral mset.simps(1))
  ultimately show ?thesis using i \<open>xs \<noteq> []\<close> by (simp add: deleteElemFromSlice_def mset_update)
qed

lemma containsId_Some: "containsId is w = Some k \<Longrightarrow> k < length is \<and> is ! k = w"
  by (induction "is" arbitrary: k) (auto split: if_splits)

lemma containsId_None: "containsId is w = None \<longleftrightarrow> w \<notin> set is"
  by (induction "is") auto

lemma findValue_Some:
  "findValue obj item = Some (vi, k) \<Longrightarrow>
     \<exists>as v bs. item = as @ v # bs \<and> length as = vi \<and> k < length (mv_ids v) \<and> mv_ids v ! k = obj \<and> obj \<notin> fst ` set (entries as)"
proof (induction item arbitrary: vi)
  case (Cons v vs)
  show ?case
  proof (cases "containsId (mv_ids v) obj")
    case None
    then obtain vj where "findValue obj vs = Some (vj, k)" and vi: "vi = Suc vj" using Cons.prems by auto
    from Cons.IH [OF this(1)] obtain as w bs where "vs = as @ w # bs" "length as = vj" "k < length (mv_ids w)" "mv_ids w ! k = obj"
      "obj \<notin> fst ` set (entries as)" by blast
    then show ?thesis using None vi by (intro exI [of _ "v # as"] exI [of _ w] exI [of _ bs]) (auto simp: containsId_None)
  next
    case (Some j)
    then show ?thesis using Cons.prems containsId_Some [OF Some] by (intro exI [of _ "[]"] exI [of _ v] exI [of _ vs]) auto
  qed
qed simp

lemma findValue_None: "findValue obj item = None \<longleftrightarrow> obj \<notin> fst ` set (entries item)"
proof (induction item)
  case (Cons v vs)
  have "containsId (mv_ids v) obj = None \<longleftrightarrow> obj \<notin> set (mv_ids v)" by (rule containsId_None)
  then show ?case using Cons by (cases "containsId (mv_ids v) obj") (auto simp: image_Un image_image)
qed simp

text \<open>What an object has in an item is what the list of entries maps it to.\<close>

lemma valueOf_entries: "valueOf obj item = map_of (entries item) obj"
proof (cases "findValue obj item")
  case None
  then show ?thesis using findValue_None [of obj item] map_of_eq_None_iff [of "entries item" obj] by (simp add: valueOf_def)
next
  case (Some p)
  then obtain vi k where p: "findValue obj item = Some (vi, k)" by (cases p) auto
  from findValue_Some [OF p] obtain as v bs where s: "item = as @ v # bs" "length as = vi" "k < length (mv_ids v)" "mv_ids v ! k = obj"
    "obj \<notin> fst ` set (entries as)" by blast
  have "map_of (map (\<lambda>i. (i, mv_val v)) (mv_ids v)) obj = Some (mv_val v)"
    using nth_mem [OF s(3)] s(4) by (auto simp: map_of_map_restrict)
  moreover have "map_of (entries as) obj = None" using s(5) by (simp add: map_of_eq_None_iff)
  ultimately show ?thesis using s(1,2) p by (auto simp: valueOf_def map_add_def)
qed

lemma valueOf_None: "valueOf obj item = None \<longleftrightarrow> findValue obj item = None"
  by (simp add: valueOf_def)

lemma valueOf_Some: "item_ok item \<Longrightarrow> valueOf obj item = Some x \<longleftrightarrow> (obj, x) \<in> set (entries item)"
  by (simp add: item_ok_def valueOf_entries)

lemma item_okI:
  assumes "item_ok item" "mset (entries item') \<subseteq># mset (entries item)"
  shows "item_ok item'"
proof -
  obtain zs where "mset (entries item) = mset (entries item' @ zs)"
    using assms(2) by (metis ex_mset mset_append subset_mset.le_iff_add)
  then have "mset (map fst (entries item)) = mset (map fst (entries item') @ map fst zs)" by simp
  then show ?thesis using assms(1) by (metis item_ok_def distinct_append mset_eq_imp_distinct_iff)
qed

lemma item_ok_add:
  assumes "item_ok item" "mset (entries item') = add_mset (obj, x) (mset (entries item))" "valueOf obj item = None"
  shows "item_ok item'" "valueOf o' item' = (if o' = obj then Some x else valueOf o' item)"
proof -
  have "mset (map fst (entries item')) = mset (obj # map fst (entries item))" by (simp add: assms(2))
  moreover have "obj \<notin> set (map fst (entries item))" using assms(3) by (simp add: valueOf_None findValue_None)
  ultimately show ok: "item_ok item'" using assms(1) by (metis item_ok_def distinct.simps(2) mset_eq_imp_distinct_iff)
  have "set (entries item') = insert (obj, x) (set (entries item))" using assms(2) by (metis set_mset_add_mset_insert set_mset_mset)
  then have "valueOf o' item' = Some y \<longleftrightarrow> (if o' = obj then Some x else valueOf o' item) = Some y" for y
    using valueOf_Some [OF ok] valueOf_Some [OF assms(1)] assms(3) by (auto simp: valueOf_None findValue_None image_iff)
  then show "valueOf o' item' = (if o' = obj then Some x else valueOf o' item)" by (metis option.exhaust)
qed

lemma mset_entries_addId: "mset (entries (addId obj x item)) = add_mset (obj, x) (mset (entries item))"
  by (induction item) auto

lemma addId_ok:
  assumes "item_ok item" "valueOf obj item = None"
  shows "item_ok (addId obj x item)" "valueOf o' (addId obj x item) = (if o' = obj then Some x else valueOf o' item)"
  using item_ok_add [OF assms(1) mset_entries_addId assms(2)] by blast+

lemma new_item_ok: "item_ok [\<lparr>mv_val = x, mv_ids = [obj]\<rparr>]" "valueOf o' [\<lparr>mv_val = x, mv_ids = [obj]\<rparr>] = (if o' = obj then Some x else None)"
  by (simp_all add: item_ok_def valueOf_entries)

lemma copyId_ok:
  assumes "item_ok item" "valueOf dst item = None"
  shows "item_ok (copyId src dst item)" "valueOf o' (copyId src dst item) = (if o' = dst then valueOf src item else valueOf o' item)"
proof -
  have "item_ok (copyId src dst item) \<and> valueOf o' (copyId src dst item) = (if o' = dst then valueOf src item else valueOf o' item)"
  proof (cases "findValue src item")
    case None
    then have "valueOf src item = None" by (simp add: valueOf_None)
    then show ?thesis using None assms by (simp add: copyId_def)
  next
    case (Some p)
    then obtain vi k where p: "findValue src item = Some (vi, k)" by (cases p) auto
    from findValue_Some [OF p] obtain as v bs where s: "item = as @ v # bs" "length as = vi" by blast
    then have "valueOf src item = Some (mv_val v)" using p by (auto simp: valueOf_def)
    moreover have "mset (entries (copyId src dst item)) = add_mset (dst, mv_val v) (mset (entries item))" using p s by (auto simp: copyId_def)
    ultimately show ?thesis using item_ok_add [OF assms(1) _ assms(2)] by (metis (full_types))
  qed
  then show "item_ok (copyId src dst item)" "valueOf o' (copyId src dst item) = (if o' = dst then valueOf src item else valueOf o' item)" by auto
qed

lemma mset_entries: "mset (entries item) = (\<Sum>v \<in># mset item. image_mset (\<lambda>i. (i, mv_val v)) (mset (mv_ids v)))"
  by (induction item) simp_all

lemma mset_entries_removeId:
  assumes "valueOf obj item = Some x"
  shows "mset (entries (removeId obj item)) = mset (entries item) - {#(obj, x)#}" "(obj, x) \<in> set (entries item)"
proof -
  obtain vi k where p: "findValue obj item = Some (vi, k)" using assms by (auto simp: valueOf_def)
  from findValue_Some [OF p] obtain as v bs where s: "item = as @ v # bs" "length as = vi" and k: "k < length (mv_ids v)" "mv_ids v ! k = obj" by blast
  have x: "mv_val v = x" using assms p s by (auto simp: valueOf_def)
  have mem: "obj \<in> set (mv_ids v)" using k nth_mem by blast
  show "(obj, x) \<in> set (entries item)" using mem s x by simp
  show "mset (entries (removeId obj item)) = mset (entries item) - {#(obj, x)#}"
  proof (cases "length (mv_ids v) = 1")
    case True
    then have ids: "mv_ids v = [obj]" using k by (cases "mv_ids v") auto
    have "mset (deleteElemFromSlice item vi) = mset (as @ bs)" using mset_deleteElem [of vi item] s by auto
    then have "mset (entries (deleteElemFromSlice item vi)) = mset (entries (as @ bs))" by (simp only: mset_entries)
    then show ?thesis using p s ids x True by (auto simp: removeId_def)
  next
    case False
    then have "removeId obj item = as @ v\<lparr>mv_ids := deleteElemFromSlice (mv_ids v) k\<rparr> # bs" using p s by (auto simp: removeId_def)
    moreover obtain J where J: "mset (mv_ids v) = add_mset obj J" using mem by (metis multi_member_split set_mset_mset)
    then have "mset (deleteElemFromSlice (mv_ids v) k) = J" using mset_deleteElem [OF k(1)] k(2) by simp
    ultimately show ?thesis using J s(1) x by simp
  qed
qed

lemma removeId_ok:
  assumes "item_ok item"
  shows "item_ok (removeId obj item)" "valueOf o' (removeId obj item) = (if o' = obj then None else valueOf o' item)"
proof -
  have "item_ok (removeId obj item) \<and> valueOf o' (removeId obj item) = (if o' = obj then None else valueOf o' item)"
  proof (cases "valueOf obj item")
    case None
    then show ?thesis using assms by (auto simp: removeId_def valueOf_None)
  next
    case (Some x)
    note m = mset_entries_removeId [OF Some]
    have ok: "item_ok (removeId obj item)" using m(1) by (intro item_okI [OF assms]) simp
    have "distinct (entries item)" using assms by (simp add: item_ok_def distinct_map)
    moreover have "mset (entries (removeId obj item)) = mset (remove1 (obj, x) (entries item))" using m(1) by simp
    ultimately have "set (entries (removeId obj item)) = set (entries item) - {(obj, x)}"
      by (metis mset_eq_setD set_remove1_eq)
    moreover have "y = x" if "(obj, y) \<in> set (entries item)" for y using that valueOf_Some [OF assms, of obj y] Some by simp
    ultimately have "valueOf o' (removeId obj item) = Some y \<longleftrightarrow> (if o' = obj then None else valueOf o' item) = Some y" for y
      using valueOf_Some [OF ok] valueOf_Some [OF assms] by auto
    then show ?thesis using ok by (metis option.exhaust)
  qed
  then show "item_ok (removeId obj item)" "valueOf o' (removeId obj item) = (if o' = obj then None else valueOf o' item)" by auto
qed

section \<open>The list an object sees\<close>

text \<open>
  The values of an object in the appended items form a column: values from the first item on and then none. The object sees the
  shared items with its own values in their places, and then the values of its column.
\<close>

fun solid :: "'a option list \<Rightarrow> bool" where
  "solid [] \<longleftrightarrow> True"
| "solid (None # xs) \<longleftrightarrow> list_all (\<lambda>x. x = None) xs"
| "solid (Some x # xs) \<longleftrightarrow> solid xs"

definition somes :: "'a option list \<Rightarrow> 'a list" where
  "somes xs = List.map_filter id xs"

lemma somes_simps [simp]:
  "somes [] = []" "somes (None # xs) = somes xs" "somes (Some x # xs) = x # somes xs" "somes (xs @ ys) = somes xs @ somes ys"
  by (simp_all add: somes_def map_filter_def)

lemma somes_none: "list_all (\<lambda>x. x = None) xs \<Longrightarrow> somes xs = []"
  by (induction xs) auto

lemma solid_none: "list_all (\<lambda>x. x = None) xs \<Longrightarrow> solid xs"
  by (cases xs) auto

lemma solid_append_none: "solid xs \<Longrightarrow> solid (xs @ replicate m None)" "somes (xs @ replicate m None) = somes xs"
proof -
  have none: "list_all (\<lambda>x. x = None) (replicate m None)" by (simp add: list_all_length)
  show "solid xs \<Longrightarrow> solid (xs @ replicate m None)" using none by (induction xs rule: solid.induct) (auto intro: solid_none)
  show "somes (xs @ replicate m None) = somes xs" using somes_none [OF none] by simp
qed

lemma solid_nth: "solid xs \<Longrightarrow> k < length xs \<Longrightarrow> xs ! k = (if k < length (somes xs) then Some (somes xs ! k) else None)"
proof (induction xs arbitrary: k rule: solid.induct)
  case (2 xs)
  then show ?case by (cases k) (auto simp: somes_none list_all_length)
next
  case (3 x xs)
  then show ?case by (cases k) auto
qed simp

lemma solid_split: "solid xs \<Longrightarrow> xs = map Some (somes xs) @ replicate (length xs - length (somes xs)) None \<and> length (somes xs) \<le> length xs"
proof (induction xs rule: solid.induct)
  case (2 xs)
  then have "xs = replicate (length xs) None" by (intro replicate_eqI) (auto simp: list_all_iff)
  then show ?case using 2 by (simp add: somes_none)
qed auto

lemma solid_replicate: "solid (map Some xs @ replicate n None)" "somes (map Some xs @ replicate n None) = xs"
proof -
  have none: "list_all (\<lambda>x. x = None) (replicate n None)" by (simp add: list_all_length)
  show "solid (map Some xs @ replicate n None)" using solid_none [OF none] by (induction xs) auto
  show "somes (map Some xs @ replicate n None) = xs" using somes_none [OF none] by (induction xs) auto
qed

definition column :: "'v Slice \<Rightarrow> u64 \<Rightarrow> 'v option list" where
  "column s obj = map (valueOf obj) (appendedItems s)"

definition view :: "'v Slice \<Rightarrow> u64 \<Rightarrow> 'v list" where
  "view s obj = map (\<lambda>i. originalItem s obj i (sharedItems s ! i)) [0..<length (sharedItems s)] @ somes (column s obj)"

definition individual_ok :: "'v Slice \<Rightarrow> bool" where
  "individual_ok s \<longleftrightarrow> distinct (map fst (individualItems s))
     \<and> (\<forall>i item. map_of (individualItems s) i = Some item \<longrightarrow> item_ok item \<and> unat i < length (sharedItems s))"

definition slice_ok :: "'v Slice \<Rightarrow> bool" where
  "slice_ok s \<longleftrightarrow> individual_ok s \<and> (\<forall>item \<in> set (appendedItems s). item_ok item)
     \<and> (\<forall>obj. solid (column s obj) \<and> Len s obj = length (sharedItems s) + length (somes (column s obj)))
     \<and> length (sharedItems s) + length (appendedItems s) < 2 ^ 64"

lemma individual_okI:
  "distinct (map fst (individualItems s)) \<Longrightarrow>
     (\<And>i item. map_of (individualItems s) i = Some item \<Longrightarrow> item_ok item \<and> unat i < length (sharedItems s)) \<Longrightarrow> individual_ok s"
  by (simp add: individual_ok_def)

lemma individual_okD:
  assumes "slice_ok s" "map_of (individualItems s) i = Some item"
  shows "item_ok item" "unat i < length (sharedItems s)"
  using assms unfolding slice_ok_def individual_ok_def by blast+

lemma length_view: "slice_ok s \<Longrightarrow> length (view s obj) = Len s obj"
  by (simp add: slice_ok_def view_def)

lemma length_column [simp]: "length (column s obj) = length (appendedItems s)"
  by (simp add: column_def)

lemma length_view_bound: "slice_ok s \<Longrightarrow> length (view s obj) \<le> length (sharedItems s) + length (appendedItems s)"
  using solid_split [of "column s obj"] by (simp add: view_def slice_ok_def)

lemma view_nth:
  assumes "slice_ok s" "k < length (sharedItems s) + length (appendedItems s)"
  shows "k < length (sharedItems s) \<Longrightarrow> view s obj ! k = originalItem s obj k (sharedItems s ! k)"
    and "\<not> k < length (sharedItems s) \<Longrightarrow> column s obj ! (k - length (sharedItems s))
      = (if k < length (view s obj) then Some (view s obj ! k) else None)"
  using assms solid_nth [of "column s obj" "k - length (sharedItems s)"]
  by (auto simp: view_def nth_append slice_ok_def)

lemma unat_of_nat_small: "n < 18446744073709551616 \<Longrightarrow> unat (of_nat n :: u64) = n"
  by (simp add: unat_of_nat)

lemma slice_index:
  assumes "slice_ok s"
  shows "(index :: u64) \<ge> of_nat (length (sharedItems s) + length (appendedItems s)) \<longleftrightarrow> unat index \<ge> length (sharedItems s) + length (appendedItems s)"
    "index < of_nat (length (sharedItems s)) \<longleftrightarrow> unat index < length (sharedItems s)"
    "length (sharedItems s) \<le> unat index \<Longrightarrow> unat (index - of_nat (length (sharedItems s))) = unat index - length (sharedItems s)"
proof -
  have b: "length (sharedItems s) + length (appendedItems s) < 18446744073709551616" using assms by (simp add: slice_ok_def)
  show "index \<ge> of_nat (length (sharedItems s) + length (appendedItems s)) \<longleftrightarrow> unat index \<ge> length (sharedItems s) + length (appendedItems s)"
    using unat_of_nat_small [OF b] by (simp only: word_le_unat)
  have c: "unat (of_nat (length (sharedItems s)) :: u64) = length (sharedItems s)" using b by (intro unat_of_nat_small) simp
  show "index < of_nat (length (sharedItems s)) \<longleftrightarrow> unat index < length (sharedItems s)" by (simp only: word_less_unat c)
  show "length (sharedItems s) \<le> unat index \<Longrightarrow> unat (index - of_nat (length (sharedItems s))) = unat index - length (sharedItems s)"
    by (subst unat_minus_u64) (simp_all only: word_le_unat c)
qed

lemma Slice_At_view:
  assumes "slice_ok s"
  shows "Slice_At s obj index = sliceAt (view s obj) index"
proof -
  let ?n = "length (sharedItems s)" and ?k = "unat index"
  note index = slice_index [OF assms, of index]
  have len: "length (view s obj) < 2 ^ 64" using length_view_bound [OF assms, of obj] assms by (simp add: slice_ok_def)
  consider "?k \<ge> ?n + length (appendedItems s)" | "?k < ?n" | "?k \<ge> ?n" "?k < ?n + length (appendedItems s)" by linarith
  then show ?thesis
  proof cases
    case 1
    then show ?thesis using index(1) length_view_bound [OF assms, of obj] by (simp only: Slice_At_def sliceAt_eq [OF len]) simp
  next
    case 2
    then have "?k < length (view s obj)" by (simp add: view_def)
    then show ?thesis using 2 index(1,2) view_nth(1) [OF assms, of ?k obj]
      by (auto simp: Slice_At_def sliceAt_eq [OF len] originalItem_def split: option.splits)
  next
    case 3
    then have "valueOf obj (appendedItems s ! (?k - ?n)) = (if ?k < length (view s obj) then Some (view s obj ! ?k) else None)"
      using view_nth(2) [OF assms, of ?k obj] by (simp add: column_def)
    then show ?thesis using 3 index by (simp add: Slice_At_def sliceAt_eq [OF len] split: if_splits)
  qed
qed

text \<open>\<^verbatim>\<open>Value\<close> fills the result slice with exactly this list.\<close>

lemma rfold_setItem:
  "k + length xs \<le> length items \<Longrightarrow> rfold (\<lambda>(i, x). setItem i (g i x)) (enumerate k xs) items
     = Inr (take k items @ map (\<lambda>(i, x). g i x) (enumerate k xs) @ drop (k + length xs) items)"
proof (induction xs arbitrary: k items)
  case (Cons x xs)
  have "k < length items" using Cons.prems by simp
  then have "take (Suc k) (items[k := y]) = take k items @ [y]" "drop (Suc k + length xs) (items[k := y]) = drop (Suc k + length xs) items" for y
    by (simp_all add: take_Suc_conv_app_nth)
  then show ?case using Cons.prems Cons.IH [of "Suc k" "items[k := g k x]"] by (simp add: setItem_def)
qed simp

lemma fillOriginalItems_eq:
  assumes "length (sharedItems s) \<le> length items"
  shows "fillOriginalItems s obj items
     = Inr (map (\<lambda>i. originalItem s obj i (sharedItems s ! i)) [0..<length (sharedItems s)] @ drop (length (sharedItems s)) items)"
proof -
  have "map (\<lambda>(i, x). originalItem s obj i x) (enumerate 0 (sharedItems s))
      = map (\<lambda>i. originalItem s obj i (sharedItems s ! i)) [0..<length (sharedItems s)]"
    by (rule nth_equalityI) (simp_all add: nth_enumerate_eq)
  then show ?thesis
    unfolding fillOriginalItems_def using rfold_setItem [of 0 "sharedItems s" items "originalItem s obj"] assms by simp
qed

lemma fillAppended_eq:
  "solid (map (valueOf obj) items) \<Longrightarrow> i + length (somes (map (valueOf obj) items)) \<le> length result \<Longrightarrow>
     fillAppended obj i items result = Inr (take i result @ somes (map (valueOf obj) items)
       @ drop (i + length (somes (map (valueOf obj) items))) result)"
proof (induction items arbitrary: i result)
  case (Cons item items)
  show ?case
  proof (cases "valueOf obj item")
    case None
    then show ?thesis using Cons.prems by (simp add: somes_none)
  next
    case (Some v)
    then have "i < length result" using Cons.prems by simp
    then have "take (Suc i) (result[i := v]) = take i result @ [v]" "drop (Suc i + n) (result[i := v]) = drop (Suc i + n) result" for n
      by (simp_all add: take_Suc_conv_app_nth)
    then show ?thesis using Cons.prems Some Cons.IH [of "Suc i" "result[i := v]"] \<open>i < length result\<close> by (simp add: setItem_def)
  qed
qed simp

lemma Slice_Value_view:
  assumes "slice_ok s"
  shows "Slice_Value zero s obj = Inr (view s obj)"
proof (cases "map_of (cachedLengths s) obj")
  case None
  then have "somes (column s obj) = []" using assms by (auto simp: slice_ok_def Len_def dest: spec [of _ obj])
  then show ?thesis using None by (simp add: Slice_Value_def fillOriginalItems_eq view_def)
next
  case (Some l)
  let ?o = "map (\<lambda>i. originalItem s obj i (sharedItems s ! i)) [0..<length (sharedItems s)]"
  have l: "l = length (sharedItems s) + length (somes (column s obj))" "solid (column s obj)"
    using Some assms by (auto simp: slice_ok_def Len_def dest: spec [of _ obj])
  have "fillAppended obj (length (sharedItems s)) (appendedItems s) (?o @ replicate (length (somes (column s obj))) zero) = Inr (?o @ somes (column s obj))"
    using fillAppended_eq [of obj "appendedItems s" "length (sharedItems s)"] l(2) by (simp add: column_def)
  then show ?thesis using Some l(1) by (simp add: Slice_Value_def fillOriginalItems_eq view_def)
qed

text \<open>The identifier appears nowhere: a new object.\<close>

definition unused :: "u64 \<Rightarrow> 'v Slice \<Rightarrow> bool" where
  "unused obj s \<longleftrightarrow> (\<forall>i item. map_of (individualItems s) i = Some item \<longrightarrow> valueOf obj item = None)
     \<and> (\<forall>item \<in> set (appendedItems s). valueOf obj item = None) \<and> map_of (cachedLengths s) obj = None"

lemma view_cong:
  assumes "sharedItems s' = sharedItems s" "column s' o' = column s obj"
    "\<And>i. i < length (sharedItems s) \<Longrightarrow> originalItem s' o' i (sharedItems s ! i) = originalItem s obj i (sharedItems s ! i)"
  shows "view s' o' = view s obj"
  using assms by (simp add: view_def)

lemma originalItem_eq:
  "originalItem s obj i item = (case Option.bind (map_of (individualItems s) (of_nat i)) (valueOf obj) of None \<Rightarrow> item | Some v \<Rightarrow> v)"
  by (simp add: originalItem_def split: option.splits)

lemma copyAppended_column:
  "\<forall>item \<in> set items. item_ok item \<and> valueOf dst item = None \<Longrightarrow> solid (map (valueOf src) items) \<Longrightarrow>
     map (valueOf o') (copyAppended src dst items) = map (valueOf (if o' = dst then src else o')) items
     \<and> (\<forall>item \<in> set (copyAppended src dst items). item_ok item)"
proof (induction items)
  case (Cons item items)
  show ?case
  proof (cases "valueOf src item")
    case None
    then have "findValue src item = None" using valueOf_None [of src item] by simp
    then show ?thesis using Cons.prems None by (auto simp: list_all_iff)
  next
    case (Some v)
    then have "findValue src item \<noteq> None" using valueOf_None [of src item] by simp
    then show ?thesis using Cons Some by (auto simp: copyId_ok)
  qed
qed simp

lemma Copy_view:
  assumes ok: "slice_ok s" and un: "unused dst s"
  shows "slice_ok (Copy src dst s)" "view (Copy src dst s) o' = view s (if o' = dst then src else o')"
proof -
  let ?s = "Copy src dst s" and ?o = "\<lambda>o'. if o' = dst then src else o'"
  have items: "map_of (individualItems ?s) i = map_option (copyId src dst) (map_of (individualItems s) i)" for i
    by (simp add: Copy_def Let_def map_of_map split: option.splits)
  have shared: "sharedItems ?s = sharedItems s" by (simp add: Copy_def Let_def split: option.splits)
  have ind: "item_ok item" "valueOf dst item = None" if "map_of (individualItems s) i = Some item" for i item
    using individual_okD(1) [OF ok that] un that by (auto simp: unused_def)
  have app: "\<forall>item \<in> set (appendedItems s). item_ok item \<and> valueOf dst item = None" "solid (map (valueOf src) (appendedItems s))"
    using ok un by (auto simp: slice_ok_def unused_def list_all_iff column_def)
  have apps: "appendedItems ?s = copyAppended src dst (appendedItems s)" by (simp add: Copy_def Let_def split: option.splits)
  have col: "column ?s o' = column s (?o o')" for o'
    using copyAppended_column [OF app] by (simp add: apps column_def)
  have len: "Len ?s o' = Len s (?o o')" for o'
    using un by (auto simp: Copy_def Let_def Len_def unused_def AList.update_conv split: option.splits)
  have orig: "originalItem ?s o' i item = originalItem s (?o o') i item" for o' i item
  proof (cases "map_of (individualItems s) (of_nat i)")
    case (Some it)
    then show ?thesis by (simp add: originalItem_def items copyId_ok(2) [OF ind [OF Some]])
  qed (simp add: originalItem_def items)
  show "view ?s o' = view s (?o o')" by (rule view_cong [OF shared col orig])
  have "map fst (individualItems ?s) = map fst (individualItems s)" by (auto simp: Copy_def Let_def split: option.splits)
  then have "distinct (map fst (individualItems ?s))" using ok by (simp add: slice_ok_def individual_ok_def)
  then have "individual_ok ?s"
  proof (rule individual_okI)
    fix i item assume "map_of (individualItems ?s) i = Some item"
    then obtain it where it: "map_of (individualItems s) i = Some it" "item = copyId src dst it" by (auto simp: items)
    then show "item_ok item \<and> unat i < length (sharedItems ?s)"
      using copyId_ok(1) [OF ind [OF it(1)]] individual_okD [OF ok it(1)] by (simp add: shared)
  qed
  moreover have "length (appendedItems ?s) = length (appendedItems s)" using col [of 0] by (metis length_column)
  ultimately show "slice_ok ?s" using ok copyAppended_column [OF app] by (auto simp: slice_ok_def shared col len apps)
qed

lemma slice_update_simps [simp]:
  "column (s\<lparr>individualItems := r\<rparr>) obj = column s obj" "Len (s\<lparr>individualItems := r\<rparr>) obj = Len s obj"
  "Len (s\<lparr>appendedItems := a\<rparr>) obj = Len s obj" "originalItem (s\<lparr>appendedItems := a\<rparr>) obj i x = originalItem s obj i x"
  "individual_ok (s\<lparr>appendedItems := a\<rparr>) = individual_ok s"
  by (simp_all add: column_def Len_def originalItem_def individual_ok_def cong: option.case_cong)

lemma slice_ok_putItem:
  assumes ok: "slice_ok s" and item: "item_ok item" and index: "unat index < length (sharedItems s)"
  defines "s' \<equiv> s\<lparr>individualItems := AList.update index item (individualItems s)\<rparr>"
  shows "slice_ok s'"
    "view s' o' = (view s o')[unat index := (case valueOf o' item of None \<Rightarrow> sharedItems s ! unat index | Some v \<Rightarrow> v)]"
proof -
  have "individual_ok s'"
  proof (rule individual_okI)
    show "distinct (map fst (individualItems s'))" using ok by (simp add: s'_def slice_ok_def individual_ok_def distinct_update)
    show "item_ok it \<and> unat i < length (sharedItems s')" if "map_of (individualItems s') i = Some it" for i it
      using that item index individual_okD [OF ok] by (auto simp: s'_def AList.update_conv split: if_splits)
  qed
  then show "slice_ok s'" using ok by (simp add: slice_ok_def s'_def)
  let ?v = "case valueOf o' item of None \<Rightarrow> sharedItems s ! unat index | Some v \<Rightarrow> v"
  have "(of_nat i = index) = (i = unat index)" if "i < length (sharedItems s)" for i
  proof -
    have "unat (of_nat i :: u64) = i" using that ok by (intro unat_of_nat_small) (simp add: slice_ok_def)
    then show ?thesis by (metis u64_eq_iff)
  qed
  then have "originalItem s' o' i (sharedItems s ! i) = (if i = unat index then ?v else originalItem s o' i (sharedItems s ! i))"
    if "i < length (sharedItems s)" for i using that by (auto simp: originalItem_def s'_def AList.update_conv)
  then show "view s' o' = (view s o')[unat index := ?v]" using index
    by (intro nth_equalityI) (simp_all add: view_def s'_def nth_append nth_list_update)
qed

lemma view_original:
  "slice_ok s \<Longrightarrow> unat index < length (sharedItems s) \<Longrightarrow> view s obj ! unat index = (case map_of (individualItems s) index of
     None \<Rightarrow> sharedItems s ! unat index
   | Some ind \<Rightarrow> (case valueOf obj ind of None \<Rightarrow> sharedItems s ! unat index | Some v \<Rightarrow> v))"
  using view_nth(1) [of s "unat index" obj] by (simp add: originalItem_def)

lemma updateOriginalItem_view:
  assumes ok: "slice_ok s" and index: "unat index < length (sharedItems s)"
  shows "slice_ok (updateOriginalItem obj index val s)"
    "view (updateOriginalItem obj index val s) o' = (if o' = obj then (view s obj)[unat index := val] else view s o')"
proof -
  let ?s = "updateOriginalItem obj index val s"
  note old = view_original [OF ok index]
  have "slice_ok ?s \<and> view ?s o' = (if o' = obj then (view s obj)[unat index := val] else view s o')"
  proof (cases "map_of (individualItems s) index")
    case None
    note put = slice_ok_putItem [OF ok new_item_ok(1) index]
    have keep: "(view s o')[unat index := sharedItems s ! unat index] = view s o'"
      using old [of o'] None list_update_id [of "view s o'" "unat index"] by simp
    show ?thesis using None ok put(1) [of val obj] keep by (auto simp: updateOriginalItem_def put(2) new_item_ok(2))
  next
    case (Some ind)
    note ind = removeId_ok [OF individual_okD(1) [OF ok Some], where obj = obj]
    have none: "valueOf obj (removeId obj ind) = None" by (simp add: ind(2))
    note put1 = slice_ok_putItem [OF ok ind(1) index]
    note put2 = slice_ok_putItem [OF ok addId_ok(1) [OF ind(1) none] index]
    have keep: "(view s o')[unat index := (case valueOf o' ind of None \<Rightarrow> sharedItems s ! unat index | Some v \<Rightarrow> v)] = view s o'"
      using old [of o'] Some list_update_id [of "view s o'" "unat index"] by simp
    show ?thesis using Some put1(1) put2(1) keep
      by (auto simp: updateOriginalItem_def Let_def put1(2) put2(2) ind(2) addId_ok(2) [OF ind(1) none])
  qed
  then show "slice_ok ?s" "view ?s o' = (if o' = obj then (view s obj)[unat index := val] else view s o')" by auto
qed

lemma solid_update:
  assumes "solid xs" "k < length (somes xs)"
  shows "solid (xs[k := Some v])" "somes (xs[k := Some v]) = (somes xs)[k := v]"
proof -
  let ?n = "length xs - length (somes xs)"
  have "xs = map Some (somes xs) @ replicate ?n None" using solid_split [OF assms(1)] by blast
  then have "xs[k := Some v] = (map Some (somes xs) @ replicate ?n None)[k := Some v]" by (rule arg_cong)
  also have "\<dots> = map Some ((somes xs)[k := v]) @ replicate ?n None" using assms(2) by (simp add: list_update_append map_update)
  finally show "solid (xs[k := Some v])" "somes (xs[k := Some v]) = (somes xs)[k := v]" by (simp_all only: solid_replicate)
qed

lemma UpdateAt_view:
  assumes ok: "slice_ok s"
  shows "unat index < length (view s obj) \<Longrightarrow> \<exists>s'. UpdateAt obj index val s = Inr s' \<and> slice_ok s'
      \<and> (\<forall>o'. view s' o' = (if o' = obj then (view s obj)[unat index := val] else view s o'))"
    and "\<not> unat index < length (view s obj) \<Longrightarrow> UpdateAt obj index val s = Inl ErrOutOfBounds"
proof -
  let ?n = "length (sharedItems s)" and ?k = "unat index" and ?j = "unat index - length (sharedItems s)"
  note index = slice_index [OF ok, of index]
  have n: "?n \<le> length (view s obj)" by (simp add: view_def)
  have col: "column s obj ! ?j = (if ?k < length (view s obj) then Some (view s obj ! ?k) else None)"
    if "\<not> ?k < ?n" "?k < ?n + length (appendedItems s)" using view_nth(2) [OF ok that(2) that(1)] .
  show "UpdateAt obj index val s = Inl ErrOutOfBounds" if k: "\<not> ?k < length (view s obj)"
    using k n index col by (cases "?k < ?n + length (appendedItems s)") (auto simp: UpdateAt_def updateAppendedItem_def column_def valueOf_None)
  assume k: "?k < length (view s obj)"
  then have bound: "?k < ?n + length (appendedItems s)" using length_view_bound [OF ok, of obj] by simp
  show "\<exists>s'. UpdateAt obj index val s = Inr s' \<and> slice_ok s' \<and> (\<forall>o'. view s' o' = (if o' = obj then (view s obj)[?k := val] else view s o'))"
  proof (cases "?k < ?n")
    case True
    then show ?thesis using updateOriginalItem_view [OF ok True] bound index by (simp add: UpdateAt_def)
  next
    case False
    let ?item = "appendedItems s ! ?j"
    let ?s = "s\<lparr>appendedItems := (appendedItems s)[?j := addId obj val (removeId obj ?item)]\<rparr>"
    have j: "?j < length (appendedItems s)" and some: "valueOf obj ?item \<noteq> None" and js: "?j < length (somes (column s obj))"
      using False bound col k by (auto simp: column_def view_def)
    have "UpdateAt obj index val s = Inr ?s" using False bound index some by (simp add: UpdateAt_def updateAppendedItem_def valueOf_None Let_def)
    moreover have item: "item_ok ?item" using ok nth_mem [OF j] by (simp add: slice_ok_def)
    note rem = removeId_ok [OF item, where obj = obj]
    have new: "item_ok (addId obj val (removeId obj ?item))"
      "valueOf o' (addId obj val (removeId obj ?item)) = (if o' = obj then Some val else valueOf o' ?item)" for o'
      using addId_ok [OF rem(1), where obj = obj] by (simp_all add: rem(2))
    have column: "column ?s o' = (if o' = obj then (column s obj)[?j := Some val] else column s o')" for o'
      using j by (auto simp: column_def map_update new(2) list_update_id list_eq_iff_nth_eq nth_list_update)
    have sol: "solid (column s obj)" using ok by (simp add: slice_ok_def)
    note upd = solid_update [OF sol js, of val]
    have "view ?s o' = (if o' = obj then (view s obj)[?k := val] else view s o')" for o'
      using False column [of o'] upd(2) by (simp add: view_def list_update_append)
    moreover have "slice_ok ?s"
    proof -
      have "\<forall>item \<in> set (appendedItems ?s). item_ok item" using ok new(1) set_update_subset_insert [of "appendedItems s" ?j] by (auto simp: slice_ok_def)
      then show ?thesis using ok column upd by (auto simp: slice_ok_def)
    qed
    ultimately show ?thesis by auto
  qed
qed

lemma appendLoop_None: "appendLoop obj val items = None \<longleftrightarrow> (\<forall>item \<in> set items. valueOf obj item \<noteq> None)"
  by (induction items) (auto simp: valueOf_None)

lemma somes_all: "\<forall>item \<in> set items. valueOf obj item \<noteq> None \<Longrightarrow> map (valueOf obj) items = map Some (somes (map (valueOf obj) items))"
  by (induction items) auto

lemma appendLoop_Some:
  "appendLoop obj val items = Some items' \<Longrightarrow> \<forall>item \<in> set items. item_ok item \<Longrightarrow> solid (map (valueOf obj) items) \<Longrightarrow>
     (\<forall>item \<in> set items'. item_ok item) \<and> length items' = length items
     \<and> (\<forall>o'. o' \<noteq> obj \<longrightarrow> map (valueOf o') items' = map (valueOf o') items)
     \<and> solid (map (valueOf obj) items') \<and> somes (map (valueOf obj) items') = somes (map (valueOf obj) items) @ [val]"
proof (induction items arbitrary: items')
  case (Cons item items)
  show ?case
  proof (cases "valueOf obj item")
    case None
    then have "findValue obj item = None" using valueOf_None [of obj item] by simp
    then have "items' = addId obj val item # items" using Cons.prems(1) by simp
    then show ?thesis using Cons.prems(2,3) None by (auto simp: addId_ok somes_none solid_none)
  next
    case (Some v)
    then have "findValue obj item \<noteq> None" using valueOf_None [of obj item] by simp
    then obtain rest where "items' = item # rest" "appendLoop obj val items = Some rest" using Cons.prems(1) by (auto split: if_splits)
    then show ?thesis using Cons.IH [of rest] Cons.prems(2,3) Some by auto
  qed
qed simp

lemma appended_view:
  assumes ok: "slice_ok s" and items: "\<forall>item \<in> set items. item_ok item" "length (sharedItems s) + length items < 2 ^ 64"
    and other: "\<And>o'. o' \<noteq> obj \<Longrightarrow> \<exists>m. map (valueOf o') items = column s o' @ replicate m None"
    and own: "solid (map (valueOf obj) items)" "somes (map (valueOf obj) items) = somes (column s obj) @ [val]"
  defines "s' \<equiv> s\<lparr>appendedItems := items, cachedLengths := AList.update obj (Len s obj + 1) (cachedLengths s)\<rparr>"
  shows "slice_ok s'" "view s' o' = (if o' = obj then view s obj @ [val] else view s o')"
proof -
  have orig: "originalItem s' o' i x = originalItem s o' i x" for o' i x by (simp add: s'_def originalItem_def cong: option.case_cong)
  have shared: "sharedItems s' = sharedItems s" by (simp add: s'_def)
  have len: "Len s' o' = (if o' = obj then Len s obj + 1 else Len s o')" for o' by (simp add: s'_def Len_def AList.update_conv cong: option.case_cong)
  have col: "solid (column s' o')" "somes (column s' o') = (if o' = obj then somes (column s obj) @ [val] else somes (column s o'))" for o'
  proof -
    have "column s' o' = map (valueOf o') items" by (simp add: column_def s'_def)
    then show "solid (column s' o')" "somes (column s' o') = (if o' = obj then somes (column s obj) @ [val] else somes (column s o'))"
      using own other [of o'] ok by (cases "o' = obj"; auto simp: slice_ok_def solid_append_none simp del: somes_simps(4))+
  qed
  show "view s' o' = (if o' = obj then view s obj @ [val] else view s o')" by (simp add: view_def orig col(2) shared)
  have "individual_ok s'" using ok by (simp add: slice_ok_def individual_ok_def s'_def)
  moreover have "Len s' o' = length (sharedItems s') + length (somes (column s' o'))" for o' using ok by (simp add: len col(2) shared slice_ok_def)
  ultimately show "slice_ok s'" using items col(1) by (simp add: slice_ok_def s'_def)
qed

lemma Slice_Append_view:
  assumes ok: "slice_ok s" and bound: "length (sharedItems s) + length (appendedItems s) + 1 < 2 ^ 64"
  shows "slice_ok (Slice_Append obj val s)" "view (Slice_Append obj val s) o' = (if o' = obj then view s obj @ [val] else view s o')"
proof -
  let ?new = "[\<lparr>mv_val = val, mv_ids = [obj]\<rparr>]"
  have len: "Len s obj = length (sharedItems s) + length (somes (column s obj))" and sol: "solid (column s obj)"
    and items: "\<forall>item \<in> set (appendedItems s). item_ok item" using ok by (simp_all add: slice_ok_def)
  obtain items' where eq: "Slice_Append obj val s = s\<lparr>appendedItems := items', cachedLengths := AList.update obj (Len s obj + 1) (cachedLengths s)\<rparr>"
    and 1: "\<forall>item \<in> set items'. item_ok item" "length (sharedItems s) + length items' < 2 ^ 64"
    and 2: "\<And>o'. o' \<noteq> obj \<Longrightarrow> \<exists>m. map (valueOf o') items' = column s o' @ replicate m None"
    and 3: "solid (map (valueOf obj) items')" "somes (map (valueOf obj) items') = somes (column s obj) @ [val]"
  proof (cases "appendLoop obj val (appendedItems s)")
    case (Some items')
    then have "appendedItems s \<noteq> []" by auto
    then have "Slice_Append obj val s = s\<lparr>appendedItems := items', cachedLengths := AList.update obj (Len s obj + 1) (cachedLengths s)\<rparr>"
      using Some by (simp add: Slice_Append_def Len_def Let_def split: option.splits)
    moreover note appendLoop_Some [OF Some items, folded column_def, OF sol]
    ultimately show ?thesis using that [of items'] bound by (auto simp: column_def intro!: exI [of _ 0])
  next
    case None
    then have all: "\<forall>item \<in> set (appendedItems s). valueOf obj item \<noteq> None" by (simp add: appendLoop_None)
    then have col: "column s obj = map Some (somes (column s obj))" using somes_all unfolding column_def by blast
    then have "length (somes (column s obj)) = length (appendedItems s)" by (metis length_column length_map)
    then have eq: "Slice_Append obj val s
        = s\<lparr>appendedItems := appendedItems s @ [?new], cachedLengths := AList.update obj (Len s obj + 1) (cachedLengths s)\<rparr>"
      using None len by (auto simp: Slice_Append_def Len_def Let_def split: option.splits)
    have other: "\<exists>m. map (valueOf o') (appendedItems s @ [?new]) = column s o' @ replicate m None" if "o' \<noteq> obj" for o'
      using that by (intro exI [of _ 1]) (simp add: column_def new_item_ok)
    have "map (valueOf obj) (appendedItems s @ [?new]) = map Some (somes (column s obj) @ [val]) @ replicate 0 None"
      using col by (simp add: column_def new_item_ok)
    then have own: "solid (map (valueOf obj) (appendedItems s @ [?new]))"
      "somes (map (valueOf obj) (appendedItems s @ [?new])) = somes (column s obj) @ [val]" by (simp_all only: solid_replicate)
    have "\<forall>item \<in> set (appendedItems s @ [?new]). item_ok item" using items new_item_ok(1) by simp
    then show ?thesis using that [OF eq _ _ other own] bound by simp
  qed
  show "slice_ok (Slice_Append obj val s)" "view (Slice_Append obj val s) o' = (if o' = obj then view s obj @ [val] else view s o')"
    unfolding eq using appended_view [OF ok 1 2 3] by blast+
qed

lemma map_of_map_filter:
  assumes "\<And>p q. f p = Some q \<Longrightarrow> fst q = fst p"
  shows "distinct (map fst xs) \<Longrightarrow> distinct (map fst (List.map_filter f xs)) \<and>
    map_of (List.map_filter f xs) i = (case map_of xs i of None \<Rightarrow> None | Some y \<Rightarrow> map_option snd (f (i, y)))"
proof (induction xs)
  case (Cons p xs)
  obtain k y where p: "p = (k, y)" by (cases p)
  have sub: "fst q \<in> fst ` set xs" if "q \<in> set (List.map_filter f xs)" for q
  proof -
    obtain r where "r \<in> set xs" "f r = Some q" using \<open>q \<in> _\<close> by (auto simp: map_filter_def)
    then show ?thesis using assms [of r q] by simp
  qed
  have "map_of xs k = None" using Cons.prems by (simp add: p map_of_eq_None_iff)
  moreover have "k \<notin> fst ` set (List.map_filter f xs)" using sub Cons.prems by (auto simp: p)
  ultimately show ?case using Cons assms [of p] by (cases "f p") (auto simp: p map_filter_simps)
qed (simp add: map_filter_simps)

lemma detachItem_Some: "detachItem obj p = Some q \<Longrightarrow> fst q = fst p"
  by (auto simp: detachItem_def split: prod.splits option.splits if_splits)

lemma detachItem_value:
  assumes "item_ok item"
  shows "(case detachItem obj (i, item) of None \<Rightarrow> None | Some q \<Rightarrow> valueOf o' (snd q)) = (if o' = obj then None else valueOf o' item)"
    "detachItem obj (i, item) = Some q \<Longrightarrow> item_ok (snd q)"
proof -
  show "detachItem obj (i, item) = Some q \<Longrightarrow> item_ok (snd q)"
    using assms removeId_ok(1) by (auto simp: detachItem_def split: option.splits if_splits)
  show "(case detachItem obj (i, item) of None \<Rightarrow> None | Some q \<Rightarrow> valueOf o' (snd q)) = (if o' = obj then None else valueOf o' item)"
  proof (cases "findValue obj item")
    case None
    then show ?thesis using valueOf_None [of obj item] by (simp add: detachItem_def)
  next
    case (Some p)
    then obtain vi k where f: "findValue obj item = Some (vi, k)" by (cases p) auto
    from findValue_Some [OF f] obtain as v bs where item: "item = as @ v # bs" "length as = vi" "k < length (mv_ids v)" "mv_ids v ! k = obj" by blast
    show ?thesis
    proof (cases "length (mv_ids (item ! vi)) = 1 \<and> length item = 1")
      case True
      then have "entries item = [(obj, mv_val v)]" using item by (cases "mv_ids v") auto
      then show ?thesis using True f by (auto simp: detachItem_def valueOf_entries)
    next
      case False
      then show ?thesis using f by (auto simp: detachItem_def removeId_ok(2) [OF assms])
    qed
  qed
qed

lemma detachAppended_column:
  "\<forall>item \<in> set items. item_ok item \<Longrightarrow> solid (map (valueOf obj) items) \<Longrightarrow>
     map (valueOf o') (detachAppended obj items) = (if o' = obj then replicate (length items) None else map (valueOf o') items)
     \<and> (\<forall>item \<in> set (detachAppended obj items). item_ok item)"
proof (induction items)
  case (Cons item items)
  show ?case
  proof (cases "valueOf obj item")
    case None
    then have "findValue obj item = None" using valueOf_None [of obj item] by simp
    moreover have "map (valueOf obj) items = replicate (length items) None"
      using Cons.prems(2) None by (intro replicate_eqI) (auto simp: list_all_iff)
    ultimately show ?thesis using Cons.prems None by auto
  next
    case (Some v)
    then have "findValue obj item \<noteq> None" using valueOf_None [of obj item] by simp
    then show ?thesis using Cons Some by (auto simp: removeId_ok)
  qed
qed simp

lemma Detach_view:
  assumes ok: "slice_ok s"
  shows "slice_ok (Detach obj s)" "view (Detach obj s) o' = (if o' = obj then sharedItems s else view s o')" "unused obj (Detach obj s)"
proof -
  let ?s = "Detach obj s"
  have dist: "distinct (map fst (individualItems s))" using ok by (simp add: slice_ok_def individual_ok_def)
  note filt = map_of_map_filter [of "detachItem obj", OF detachItem_Some dist]
  have items: "map_of (individualItems ?s) i = (case map_of (individualItems s) i of None \<Rightarrow> None | Some y \<Rightarrow> map_option snd (detachItem obj (i, y)))" for i
    using filt by (simp add: Detach_def)
  have shared: "sharedItems ?s = sharedItems s" by (simp add: Detach_def)
  have app: "\<forall>item \<in> set (appendedItems s). item_ok item" "solid (map (valueOf obj) (appendedItems s))" using ok by (auto simp: slice_ok_def column_def)
  note apps = detachAppended_column [OF app]
  have col: "column ?s o' = (if o' = obj then replicate (length (appendedItems s)) None else column s o')" for o'
    using apps by (simp add: column_def Detach_def)
  have none: "solid (replicate n None)" "somes (replicate n None) = []" for n using solid_replicate [of "[]" n] by simp_all
  have orig: "originalItem ?s o' i x = (if o' = obj then x else originalItem s o' i x)" for o' i x
  proof (cases "map_of (individualItems s) (of_nat i)")
    case (Some it)
    note d = detachItem_value(1) [OF individual_okD(1) [OF ok Some], where obj = obj and i = "of_nat i" and o' = o']
    show ?thesis using Some d by (cases "detachItem obj (of_nat i, it)") (auto simp: originalItem_def items)
  qed (simp add: originalItem_def items)
  have len: "Len ?s o' = (if o' = obj then length (sharedItems s) else Len s o')" for o'
    by (simp add: Detach_def Len_def AList.delete_conv cong: option.case_cong)
  show "view ?s o' = (if o' = obj then sharedItems s else view s o')" by (simp add: view_def shared orig col none map_nth)
  have ind: "individual_ok ?s"
  proof (rule individual_okI)
    show "distinct (map fst (individualItems ?s))" using filt by (simp add: Detach_def)
    fix i item assume "map_of (individualItems ?s) i = Some item"
    then obtain it q where it: "map_of (individualItems s) i = Some it" and q: "detachItem obj (i, it) = Some q" "item = snd q"
      by (auto simp: items split: option.splits)
    show "item_ok item \<and> unat i < length (sharedItems ?s)"
      using individual_okD(2) [OF ok it] detachItem_value(2) [OF individual_okD(1) [OF ok it] q(1)] q(2) by (simp add: shared)
  qed
  moreover have "length (appendedItems ?s) = length (appendedItems s)" using col [of obj] by (metis length_column length_replicate)
  moreover have "\<forall>item \<in> set (appendedItems ?s). item_ok item" using apps by (simp add: Detach_def)
  ultimately show "slice_ok ?s" using ok by (simp add: slice_ok_def col len none shared)
  have "valueOf obj item = None" if held: "map_of (individualItems ?s) i = Some item" for i item
  proof -
    obtain it q where it: "map_of (individualItems s) i = Some it" and q: "detachItem obj (i, it) = Some q" "item = snd q"
      using held by (auto simp: items split: option.splits)
    show ?thesis using detachItem_value(1) [OF individual_okD(1) [OF ok it], where obj = obj and o' = obj and i = i] q by simp
  qed
  moreover have "set (column ?s obj) \<subseteq> {None}" using col [of obj] by auto
  ultimately show "unused obj ?s" by (auto simp: unused_def column_def Detach_def AList.delete_conv)
qed

section \<open>Reset\<close>

lemma resetIndividual_eq:
  "distinct (map fst xs) \<Longrightarrow> \<forall>i \<in> fst ` set xs. unat i < length items \<Longrightarrow> length items < 2 ^ 64 \<Longrightarrow>
     rfold (resetIndividual obj) xs items = Inr (map (\<lambda>k. case map_of xs (of_nat k) of
         None \<Rightarrow> items ! k | Some ind \<Rightarrow> (case valueOf obj ind of None \<Rightarrow> items ! k | Some v \<Rightarrow> v)) [0..<length items])"
proof (induction xs arbitrary: items)
  case Nil
  then show ?case by (simp add: map_nth)
next
  case (Cons p xs)
  obtain i ind where p: "p = (i, ind)" by (cases p)
  define items1 where "items1 = (case valueOf obj ind of None \<Rightarrow> items | Some v \<Rightarrow> items[unat i := v])"
  have len: "length items1 = length items" by (simp add: items1_def split: option.splits)
  have i: "unat i < length items" using Cons.prems by (simp add: p)
  have "resetIndividual obj p items = Inr items1" using i by (simp add: resetIndividual_def p setItem_def items1_def split: option.splits)
  moreover have "map_of xs i = None" using Cons.prems(1) by (simp add: p map_of_eq_None_iff)
  moreover have idx: "(of_nat k = i) = (k = unat i)" if "k < length items" for k
  proof -
    have "unat (of_nat k :: u64) = k" using that Cons.prems(3) by (intro unat_of_nat_small) simp
    then show ?thesis by (metis u64_eq_iff)
  qed
  moreover have "rfold (resetIndividual obj) xs items1 = Inr (map (\<lambda>k. case map_of xs (of_nat k) of
      None \<Rightarrow> items1 ! k | Some ind \<Rightarrow> (case valueOf obj ind of None \<Rightarrow> items1 ! k | Some v \<Rightarrow> v)) [0..<length items])"
    using Cons.IH [of items1] Cons.prems by (simp add: len)
  ultimately show ?case
    by (cases "valueOf obj ind") (auto simp: p items1_def nth_list_update cong: option.case_cong)
qed

lemma resetAppended_none: "list_all (\<lambda>x. x = None) (map (valueOf obj) apps) \<Longrightarrow> resetAppended obj index apps items = Inr items"
  by (induction apps) auto

lemma resetAppended_eq:
  "solid (map (valueOf obj) apps) \<Longrightarrow> i + length (somes (map (valueOf obj) apps)) \<le> length result \<Longrightarrow>
     resetAppended obj i apps result = Inr (take i result @ somes (map (valueOf obj) apps)
       @ drop (i + length (somes (map (valueOf obj) apps))) result)"
proof (induction apps arbitrary: i result)
  case (Cons item apps)
  show ?case
  proof (cases "valueOf obj item")
    case None
    then show ?thesis using Cons.prems resetAppended_none [of obj apps] by (simp add: somes_none)
  next
    case (Some v)
    then have i: "i < length result" using Cons.prems by simp
    then have "take (Suc i) (result[i := v]) = take i result @ [v]" "drop (Suc i + n) (result[i := v]) = drop (Suc i + n) result" for n
      by (simp_all add: take_Suc_conv_app_nth)
    then show ?thesis using Cons.prems Some Cons.IH [of "Suc i" "result[i := v]"] i by (simp add: setItem_def)
  qed
qed simp

lemma Reset_view:
  assumes ok: "slice_ok s"
  shows "Reset zero s obj = Inr (Init (view s obj))"
proof -
  let ?n = "length (sharedItems s)" and ?m = "length (somes (column s obj))"
  let ?items = "sharedItems s @ replicate ?m zero"
  let ?o = "map (\<lambda>i. originalItem s obj i (sharedItems s ! i)) [0..<?n]"
  have len: "Len s obj = ?n + ?m" and sol: "solid (column s obj)" and dist: "distinct (map fst (individualItems s))"
    using ok by (simp_all add: slice_ok_def individual_ok_def)
  have m: "?m \<le> length (appendedItems s)" using solid_split [OF sol] by simp
  have bound: "length ?items < 2 ^ 64" using ok m by (simp add: slice_ok_def)
  have keys: "unat i < ?n" if "i \<in> fst ` set (individualItems s)" for i
  proof -
    obtain it where "map_of (individualItems s) i = Some it"
      using \<open>i \<in> _\<close> map_of_eq_None_iff [of "individualItems s" i] by (cases "map_of (individualItems s) i") auto
    then show ?thesis by (rule individual_okD(2) [OF ok])
  qed
  have none: "map_of (individualItems s) (of_nat k) = None" if "?n \<le> k" "k < ?n + ?m" for k
  proof -
    have "unat (of_nat k :: u64) = k" using that bound by (intro unat_of_nat_small) simp
    then show ?thesis using keys [of "of_nat k"] that by (auto simp: map_of_eq_None_iff)
  qed
  have "map (\<lambda>k. case map_of (individualItems s) (of_nat k) of None \<Rightarrow> ?items ! k
      | Some ind \<Rightarrow> (case valueOf obj ind of None \<Rightarrow> ?items ! k | Some v \<Rightarrow> v)) [0..<length ?items] = ?o @ replicate ?m zero"
    by (rule nth_equalityI) (auto simp: nth_append originalItem_def none cong: option.case_cong)
  moreover have "\<forall>i \<in> fst ` set (individualItems s). unat i < length ?items" using keys by fastforce
  ultimately have "rfold (resetIndividual obj) (individualItems s) ?items = Inr (?o @ replicate ?m zero)"
    using resetIndividual_eq [OF dist _ bound, of obj] by simp
  moreover have "resetAppended obj ?n (appendedItems s) (?o @ replicate ?m zero) = Inr (?o @ somes (column s obj))"
    using resetAppended_eq [of obj "appendedItems s" ?n] sol by (simp add: column_def)
  ultimately show ?thesis by (simp add: Reset_def len view_def)
qed

section \<open>Sequences of operations\<close>

text \<open>
  The operations the states of a node perform on a shared slice, and what they mean for the lists the objects see. An identifier
  is in use from its first write, or from being the target of a copy, until it is detached; copies go to identifiers not in use.
\<close>

datatype 'v sliceOp = OpUpdate u64 u64 'v | OpAppend u64 'v | OpCopy u64 u64 | OpDetach u64

fun applyOp :: "'v sliceOp \<Rightarrow> 'v Slice \<Rightarrow> 'v Slice" where
  "applyOp (OpUpdate obj index val) s = (case UpdateAt obj index val s of Inl e \<Rightarrow> s | Inr s' \<Rightarrow> s')"
| "applyOp (OpAppend obj val) s = Slice_Append obj val s"
| "applyOp (OpCopy src dst) s = Copy src dst s"
| "applyOp (OpDetach obj) s = Detach obj s"

fun specOp :: "'v list \<Rightarrow> 'v sliceOp \<Rightarrow> (u64 \<Rightarrow> 'v list) \<Rightarrow> u64 \<Rightarrow> 'v list" where
  "specOp items (OpUpdate obj index val) f = f(obj := (f obj)[unat index := val])"
| "specOp items (OpAppend obj val) f = f(obj := f obj @ [val])"
| "specOp items (OpCopy src dst) f = f(dst := f src)"
| "specOp items (OpDetach obj) f = f(obj := items)"

fun legal :: "u64 set \<Rightarrow> 'v sliceOp list \<Rightarrow> bool" where
  "legal used [] \<longleftrightarrow> True"
| "legal used (OpUpdate obj index val # ops) \<longleftrightarrow> legal (insert obj used) ops"
| "legal used (OpAppend obj val # ops) \<longleftrightarrow> legal (insert obj used) ops"
| "legal used (OpCopy src dst # ops) \<longleftrightarrow> dst \<notin> used \<and> legal (insert dst used) ops"
| "legal used (OpDetach obj # ops) \<longleftrightarrow> legal (used - {obj}) ops"

lemma unusedI:
  assumes "unused o' s" "\<And>i item. map_of (individualItems s') i = Some item \<Longrightarrow> \<exists>it. map_of (individualItems s) i = Some it \<and> valueOf o' item = valueOf o' it
      \<or> valueOf o' item = None"
    "\<exists>m. column s' o' = column s o' @ replicate m None" "map_of (cachedLengths s') o' = map_of (cachedLengths s) o'"
  shows "unused o' s'"
proof -
  have "set (column s o') \<subseteq> {None}" using assms(1) by (auto simp: unused_def column_def)
  then have "set (column s' o') \<subseteq> {None}" using assms(3) by auto
  moreover have "valueOf o' item = None" if "map_of (individualItems s') i = Some item" for i item
    using assms(2) [OF that] assms(1) by (auto simp: unused_def)
  ultimately show ?thesis using assms(1,4) by (auto simp: unused_def column_def)
qed

lemma unused_UpdateAt:
  assumes ok: "slice_ok s" and un: "unused o' s" "o' \<noteq> obj" and r: "UpdateAt obj index val s = Inr s'"
  shows "unused o' s'"
proof (rule unusedI [OF un(1)])
  have rem: "valueOf o' (addId obj val (removeId obj it)) = valueOf o' it" "valueOf o' (removeId obj it) = valueOf o' it" if "item_ok it" for it
    using addId_ok(2) [OF removeId_ok(1) [OF that]] un(2) by (simp_all add: removeId_ok(2) [OF that])
  show "\<exists>it. map_of (individualItems s) i = Some it \<and> valueOf o' item = valueOf o' it \<or> valueOf o' item = None"
    if "map_of (individualItems s') i = Some item" for i item
    using that r un(2) rem individual_okD(1) [OF ok, of index]
    by (auto simp: UpdateAt_def updateAppendedItem_def updateOriginalItem_def Let_def AList.update_conv new_item_ok(2) split: if_splits option.splits)
  show "map_of (cachedLengths s') o' = map_of (cachedLengths s) o'"
    using r by (auto simp: UpdateAt_def updateAppendedItem_def updateOriginalItem_def Let_def split: if_splits option.splits)
  have "column s' o' = column s o'"
  proof (cases "index < of_nat (length (sharedItems s))")
    case True
    then show ?thesis using r by (auto simp: UpdateAt_def updateOriginalItem_def Let_def split: if_splits option.splits)
  next
    case False
    let ?j = "unat index - length (sharedItems s)"
    have j: "unat (index - of_nat (length (sharedItems s))) = ?j" "?j < length (appendedItems s)"
      using False r slice_index [OF ok, of index] by (auto simp: UpdateAt_def split: if_splits)
    moreover have "item_ok (appendedItems s ! ?j)" using ok nth_mem [OF j(2)] by (simp add: slice_ok_def)
    ultimately show ?thesis using False r rem(1) [of "appendedItems s ! ?j"]
      by (auto simp: UpdateAt_def updateAppendedItem_def Let_def column_def map_update list_eq_iff_nth_eq nth_list_update split: if_splits)
  qed
  then show "\<exists>m. column s' o' = column s o' @ replicate m None" by (intro exI [of _ 0]) simp
qed

lemma unused_Append:
  assumes ok: "slice_ok s" and un: "unused o' s" "o' \<noteq> obj"
  shows "unused o' (Slice_Append obj val s)"
proof (rule unusedI [OF un(1)])
  let ?s = "Slice_Append obj val s"
  show "\<exists>it. map_of (individualItems s) i = Some it \<and> valueOf o' item = valueOf o' it \<or> valueOf o' item = None"
    if "map_of (individualItems ?s) i = Some item" for i item
    using that by (auto simp: Slice_Append_def Let_def split: if_splits option.splits)
  show "map_of (cachedLengths ?s) o' = map_of (cachedLengths s) o'"
    using un(2) by (auto simp: Slice_Append_def Let_def AList.update_conv split: option.splits)
  have items: "\<forall>item \<in> set (appendedItems s). item_ok item" and sol: "solid (map (valueOf obj) (appendedItems s))"
    using ok by (simp_all add: slice_ok_def column_def)
  show "\<exists>m. column ?s o' = column s o' @ replicate m None"
  proof (cases "appendLoop obj val (appendedItems s)")
    case None
    then show ?thesis using un(2) by (intro exI [of _ 1]) (auto simp: Slice_Append_def Let_def column_def new_item_ok(2))
  next
    case (Some items')
    then have "appendedItems s \<noteq> []" by auto
    then show ?thesis using Some appendLoop_Some [OF Some items sol] un(2) by (intro exI [of _ 0]) (simp add: Slice_Append_def Let_def column_def)
  qed
qed

lemma unused_Copy:
  assumes ok: "slice_ok s" and un: "unused o' s" "o' \<noteq> dst" "unused dst s"
  shows "unused o' (Copy src dst s)"
proof (rule unusedI [OF un(1)])
  let ?s = "Copy src dst s"
  have app: "\<forall>item \<in> set (appendedItems s). item_ok item \<and> valueOf dst item = None" "solid (map (valueOf src) (appendedItems s))"
    using ok un(3) by (auto simp: slice_ok_def unused_def column_def)
  show "map_of (cachedLengths ?s) o' = map_of (cachedLengths s) o'"
    using un(2) by (auto simp: Copy_def Let_def AList.update_conv split: option.splits)
  show "\<exists>m. column ?s o' = column s o' @ replicate m None"
    using copyAppended_column [OF app, of o'] un(2) by (intro exI [of _ 0]) (simp add: Copy_def Let_def column_def split: option.splits)
  fix i item assume "map_of (individualItems ?s) i = Some item"
  then obtain it where it: "map_of (individualItems s) i = Some it" "item = copyId src dst it"
    by (auto simp: Copy_def Let_def map_of_map split: option.splits)
  moreover have "valueOf o' (copyId src dst it) = valueOf o' it"
    using copyId_ok(2) [OF individual_okD(1) [OF ok it(1)], of dst o'] un(2,3) it(1) by (simp add: unused_def)
  ultimately show "\<exists>it. map_of (individualItems s) i = Some it \<and> valueOf o' item = valueOf o' it \<or> valueOf o' item = None" by auto
qed

lemma unused_Detach:
  assumes ok: "slice_ok s" and un: "unused o' s" "o' \<noteq> obj"
  shows "unused o' (Detach obj s)"
proof (rule unusedI [OF un(1)])
  let ?s = "Detach obj s"
  have dist: "distinct (map fst (individualItems s))" using ok by (simp add: slice_ok_def individual_ok_def)
  show "map_of (cachedLengths ?s) o' = map_of (cachedLengths s) o'" using un(2) by (simp add: Detach_def AList.delete_conv)
  show "\<exists>m. column ?s o' = column s o' @ replicate m None"
    using detachAppended_column [of "appendedItems s" obj o'] ok un(2) by (intro exI [of _ 0]) (simp add: Detach_def slice_ok_def column_def)
  fix i item assume "map_of (individualItems ?s) i = Some item"
  then obtain it q where it: "map_of (individualItems s) i = Some it" "detachItem obj (i, it) = Some q" "item = snd q"
    using map_of_map_filter [of "detachItem obj", OF detachItem_Some dist, where i = i] by (auto simp: Detach_def split: option.splits)
  moreover have "valueOf o' item = valueOf o' it"
    using detachItem_value(1) [OF individual_okD(1) [OF ok it(1)], where obj = obj and o' = o' and i = i] it(2,3) un(2) by simp
  ultimately show "\<exists>it. map_of (individualItems s) i = Some it \<and> valueOf o' item = valueOf o' it \<or> valueOf o' item = None" by auto
qed

lemma length_loops [simp]:
  "appendLoop obj val items = Some items' \<Longrightarrow> length items' = length items" "length (copyAppended src dst items) = length items"
  "length (detachAppended obj items) = length items"
proof -
  show "appendLoop obj val items = Some items' \<Longrightarrow> length items' = length items"
    by (induction items arbitrary: items') (auto split: if_splits)
  show "length (copyAppended src dst items) = length items" by (induction items) auto
  show "length (detachAppended obj items) = length items" by (induction items) auto
qed

lemma applyOp_size:
  "sharedItems (applyOp op s) = sharedItems s \<and> length (appendedItems (applyOp op s)) \<le> length (appendedItems s) + 1"
proof (cases op)
  case (OpUpdate obj index val)
  then show ?thesis by (auto simp: UpdateAt_def updateOriginalItem_def updateAppendedItem_def Let_def split: option.splits sum.splits)
next
  case (OpAppend obj val)
  then show ?thesis by (auto simp: Slice_Append_def Let_def dest: length_loops(1) split: option.splits)
qed (auto simp: Copy_def Detach_def Let_def split: option.splits)

text \<open>The lists the objects see, and the identifiers in use.\<close>

definition sliceSim :: "'v list \<Rightarrow> u64 set \<Rightarrow> (u64 \<Rightarrow> 'v list) \<Rightarrow> 'v Slice \<Rightarrow> bool" where
  "sliceSim items used f s \<longleftrightarrow> slice_ok s \<and> sharedItems s = items \<and> (\<forall>obj. view s obj = f obj) \<and> (\<forall>obj. obj \<notin> used \<longrightarrow> unused obj s)"

lemma sliceSim_Init: "length items < 2 ^ 64 \<Longrightarrow> sliceSim items {} (\<lambda>_. items) (Init items)"
  by (simp add: sliceSim_def slice_ok_def individual_ok_def Init_def column_def Len_def view_def originalItem_def unused_def map_nth)

lemma sliceSim_step:
  assumes sim: "sliceSim items used f s" and bound: "length (sharedItems s) + length (appendedItems s) + 1 < 2 ^ 64" and "legal used (op # ops)"
  shows "\<exists>used'. legal used' ops \<and> sliceSim items used' (specOp items op f) (applyOp op s)"
proof -
  have ok: "slice_ok s" and shared: "sharedItems s = items" and v: "\<And>obj. view s obj = f obj" and un: "\<And>obj. obj \<notin> used \<Longrightarrow> unused obj s"
    using sim by (auto simp: sliceSim_def)
  have shared': "sharedItems (applyOp op s) = items" using applyOp_size [of op s] shared by simp
  show ?thesis
  proof (cases op)
    case (OpUpdate obj index val)
    have "sliceSim items (insert obj used) (specOp items op f) (applyOp op s)"
    proof (cases "unat index < length (view s obj)")
      case True
      from UpdateAt_view(1) [OF ok True, of val] obtain s' where s': "UpdateAt obj index val s = Inr s'" "slice_ok s'"
        "\<forall>o'. view s' o' = (if o' = obj then (view s obj)[unat index := val] else view s o')" by blast
      then show ?thesis using shared' un unused_UpdateAt [OF ok _ _ s'(1)] by (auto simp: sliceSim_def OpUpdate v)
    next
      case False
      then have "(f obj)[unat index := val] = f obj" by (simp add: v not_less list_update_beyond)
      then show ?thesis using UpdateAt_view(2) [OF ok False, of val] sim by (auto simp: sliceSim_def OpUpdate)
    qed
    then show ?thesis using assms(3) by (auto simp: OpUpdate)
  next
    case (OpAppend obj val)
    then have "sliceSim items (insert obj used) (specOp items op f) (applyOp op s)"
      using Slice_Append_view [OF ok bound] shared' un unused_Append [OF ok] by (auto simp: sliceSim_def v)
    then show ?thesis using assms(3) by (auto simp: OpAppend)
  next
    case (OpCopy src dst)
    then have d: "dst \<notin> used" "legal (insert dst used) ops" using assms(3) by auto
    have "sliceSim items (insert dst used) (specOp items op f) (applyOp op s)"
      using Copy_view [OF ok un [OF d(1)]] shared' un unused_Copy [OF ok _ _ un [OF d(1)]] by (auto simp: sliceSim_def v OpCopy)
    then show ?thesis using d(2) by blast
  next
    case (OpDetach obj)
    have "unused o' (Detach obj s)" if "o' \<notin> used - {obj}" for o'
      using that un Detach_view(3) [OF ok, of obj] unused_Detach [OF ok, of o' obj] by (cases "o' = obj") auto
    then have "sliceSim items (used - {obj}) (specOp items op f) (applyOp op s)"
      using Detach_view(1,2) [OF ok] shared' by (auto simp: sliceSim_def v OpDetach shared)
    then show ?thesis using assms(3) by (auto simp: OpDetach)
  qed
qed

lemma sliceSim_run:
  "sliceSim items used f s \<Longrightarrow> length (sharedItems s) + length (appendedItems s) + length ops < 2 ^ 64 \<Longrightarrow> legal used ops \<Longrightarrow>
     \<exists>used'. sliceSim items used' (fold (specOp items) ops f) (fold applyOp ops s)"
proof (induction ops arbitrary: used f s)
  case (Cons op ops)
  from sliceSim_step [OF Cons.prems(1) _ Cons.prems(3)] Cons.prems(2) obtain used'
    where l: "legal used' ops" and sim: "sliceSim items used' (specOp items op f) (applyOp op s)" by auto
  show ?case using Cons.IH [OF sim _ l] applyOp_size [of op s] Cons.prems(2) by simp
qed auto

section \<open>The interface\<close>

text \<open>
  \<^verbatim>\<open>MultiValueSlice\<close>: an object is read by its length, by index, or as a whole. Whoever implements it promises that the three
  agree; a client that walks over the indices then sees the whole value, as \<^verbatim>\<open>ReadFromEveryValidator\<close> does.
\<close>

locale multi_value_slice =
  fixes ok :: "'s \<Rightarrow> bool" and len :: "'s \<Rightarrow> u64 \<Rightarrow> nat" and at :: "'s \<Rightarrow> u64 \<Rightarrow> u64 \<Rightarrow> 'v result" and val :: "'s \<Rightarrow> u64 \<Rightarrow> 'v list result"
  assumes reads: "ok s \<Longrightarrow> \<exists>xs. val s obj = Inr xs \<and> len s obj = length xs \<and> length xs < 2 ^ 64 \<and> (\<forall>i. at s obj i = sliceAt xs i)"
begin

lemma read_every: "ok s \<Longrightarrow> \<exists>xs. val s obj = Inr xs \<and> map (\<lambda>i. at s obj (of_nat i)) [0..<len s obj] = map Inr xs"
proof -
  assume "ok s"
  then obtain xs where xs: "val s obj = Inr xs" "len s obj = length xs" "length xs < 2 ^ 64" "\<forall>i. at s obj i = sliceAt xs i"
    using reads [of s obj] by blast
  have "at s obj (of_nat i) = Inr (xs ! i)" if "i < length xs" for i
    using xs(3,4) that unat_of_nat_small [of i] by (simp add: sliceAt_eq)
  then have "map (\<lambda>i. at s obj (of_nat i)) [0..<len s obj] = map Inr xs" by (intro nth_equalityI) (simp_all add: xs(2))
  then show ?thesis using xs(1) by blast
qed

lemma read_beyond: "ok s \<Longrightarrow> at s obj i = Inl ErrOutOfBounds \<longleftrightarrow> len s obj \<le> unat i"
  using reads [of s obj] by (auto simp: sliceAt_eq split: if_splits)

end

interpretation shared_slice: multi_value_slice slice_ok Len Slice_At "Slice_Value zero" for zero
proof
  fix s :: "'a Slice" and obj
  assume ok: "slice_ok s"
  have "length (view s obj) < 2 ^ 64" using length_view_bound [OF ok, of obj] ok by (simp add: slice_ok_def)
  then show "\<exists>xs. Slice_Value zero s obj = Inr xs \<and> Len s obj = length xs \<and> length xs < 2 ^ 64 \<and> (\<forall>i. Slice_At s obj i = sliceAt xs i)"
    using Slice_Value_view [OF ok] length_view [OF ok, of obj] Slice_At_view [OF ok] by auto
qed

text \<open>\<^verbatim>\<open>EmptyMVSlice\<close>: a plain slice behind the same interface; the object is ignored.\<close>

definition EmptyMVSlice_Len :: "'v list \<Rightarrow> u64 \<Rightarrow> nat" where
  "EmptyMVSlice_Len fullSlice obj = length fullSlice"

definition EmptyMVSlice_At :: "'v list \<Rightarrow> u64 \<Rightarrow> u64 \<Rightarrow> 'v result" where
  "EmptyMVSlice_At fullSlice obj index = sliceAt fullSlice index"

definition EmptyMVSlice_Value :: "'v list \<Rightarrow> u64 \<Rightarrow> 'v list" where
  "EmptyMVSlice_Value fullSlice obj = fullSlice"

interpretation plain_slice: multi_value_slice "\<lambda>xs. length xs < 2 ^ 64" EmptyMVSlice_Len EmptyMVSlice_At "\<lambda>xs obj. Inr (EmptyMVSlice_Value xs obj)"
  by unfold_locales (simp add: EmptyMVSlice_Len_def EmptyMVSlice_At_def EmptyMVSlice_Value_def)

section \<open>Shared slices behave as separate slices\<close>

text \<open>C10. Many objects share one multi-value slice. After every sequence of updates, appends, copies to identifiers not in use and
  detaches, each object reads exactly the list that the same operations would have left in a plain slice of its own: the whole value,
  the length, each element with its bounds error, a walk over the indices and the slice rebuilt for it all agree, updates are accepted exactly within the
  bounds, and what other objects did has no effect.\<close>

theorem shared_slice_refines:
  assumes "legal {} ops" and "length items + length ops < 2 ^ 64"
  defines "s \<equiv> fold applyOp ops (Init items)" and "f \<equiv> fold (specOp items) ops (\<lambda>_. items)"
  shows "Slice_Value zero s obj = Inr (f obj) \<and> Len s obj = length (f obj) \<and> Slice_At s obj index = sliceAt (f obj) index
    \<and> map (\<lambda>i. Slice_At s obj (of_nat i)) [0..<Len s obj] = map Inr (f obj) \<and> Reset zero s obj = Inr (Init (f obj))
    \<and> (UpdateAt obj index val s = Inl ErrOutOfBounds \<longleftrightarrow> \<not> unat index < length (f obj))
    \<and> (unat index < length (f obj) \<longrightarrow> (\<exists>s'. UpdateAt obj index val s = Inr s'
        \<and> (\<forall>o'. Slice_Value zero s' o' = Inr (if o' = obj then (f obj)[unat index := val] else f o'))))"
proof -
  have "length items < 2 ^ 64" using assms(2) by simp
  from sliceSim_run [OF sliceSim_Init [OF this] _ assms(1)] assms(2)
  have ok: "slice_ok s" and v: "\<And>obj. view s obj = f obj" by (auto simp: s_def f_def sliceSim_def Init_def)
  note upd = UpdateAt_view [OF ok, of index obj val, unfolded v]
  have "\<exists>s'. UpdateAt obj index val s = Inr s' \<and> (\<forall>o'. Slice_Value zero s' o' = Inr (if o' = obj then (f obj)[unat index := val] else f o'))"
    if "unat index < length (f obj)" using upd(1) [OF that] by (auto simp: Slice_Value_view)
  moreover have "Slice_Value zero s obj = Inr (f obj)" "Len s obj = length (f obj)" "Slice_At s obj index = sliceAt (f obj) index"
    "Reset zero s obj = Inr (Init (f obj))"
    using Slice_Value_view [OF ok] length_view [OF ok, of obj] Slice_At_view [OF ok] Reset_view [OF ok] by (simp_all add: v)
  moreover from this(1) have "map (\<lambda>i. Slice_At s obj (of_nat i)) [0..<Len s obj] = map Inr (f obj)"
    using shared_slice.read_every [OF ok, of zero obj] by simp
  ultimately show ?thesis using upd(2) by auto
qed

theorem shared_slice_refines_witness:
  "Slice_Value 0 (fold applyOp [OpAppend 1 7, OpCopy 1 2, OpUpdate 2 0 9, OpUpdate 1 2 8, OpDetach 1, OpAppend 3 4] (Init [5, 6 :: nat])) 2
     = Inr [9, 6, 7]"
  using shared_slice_refines [of "[OpAppend 1 7, OpCopy 1 2, OpUpdate 2 0 9, OpUpdate 1 2 8, OpDetach 1, OpAppend 3 4]" "[5, 6 :: nat]" 0 2]
  by simp

end
