(* ===== verification/Core_State.thy ===== *)
theory Core_State
  imports Slots MV_Slice
begin

text \<open>
  The beacon state as the state transition reads and writes it, and the helpers on it: the fields of
  \<^verbatim>\<open>state/state-native\<close> that the modelled operations use with their getters and setters,
  \<^verbatim>\<open>core/time\<close>, and \<^verbatim>\<open>core/helpers\<close> (\<^verbatim>\<open>validators.go\<close>, \<^verbatim>\<open>validator_churn.go\<close>,
  \<^verbatim>\<open>rewards_penalties.go\<close>, \<^verbatim>\<open>randao.go\<close>).

  A multi-value slice of the state is the list of the values this state sees. A state transition works on
  its own copy of the state and its caller drops the copy on an error, so a mutating operation returns the
  new state or the error alone.
\<close>

section \<open>Validators and states\<close>

record Validator =
  v_PublicKey :: "u8 list"
  v_WithdrawalCredentials :: "u8 list"
  v_EffectiveBalance :: u64
  v_Slashed :: bool
  v_ActivationEligibilityEpoch :: Epoch
  v_ActivationEpoch :: Epoch
  v_ExitEpoch :: Epoch
  v_WithdrawableEpoch :: Epoch

record PendingPartialWithdrawal =
  pw_Index :: ValidatorIndex
  pw_Amount :: u64
  pw_WithdrawableEpoch :: Epoch

record BeaconState =
  bs_version :: forkVersion
  bs_slot :: Slot
  bs_validators :: "Validator list"
  bs_balances :: "u64 list"
  bs_slashings :: "u64 list"
  bs_randaoMixes :: "u8 list list"
  bs_finalizedEpoch :: Epoch
  bs_exitBalanceToConsume :: u64
  bs_earliestExitEpoch :: Epoch
  bs_pendingPartialWithdrawals :: "PendingPartialWithdrawal list"

text \<open>
  What the helpers call outside of this: the hash function, the committee and balance caches as they answer
  during the call, and the proposer of the slot of a state.
\<close>

record CoreEnv =
  hash_Hash :: "u8 list \<Rightarrow> u8 list"
  cache_ActiveIndices :: "u8 list \<Rightarrow> ValidatorIndex list option result"
  cache_ActiveIndicesCount :: "u8 list \<Rightarrow> int result"
  cache_MarkInProgress :: "u8 list \<Rightarrow> unit result"
  cache_ActiveIndicesInProgress :: "u8 list \<Rightarrow> ValidatorIndex list option result"
  cache_ActiveIndicesCountInProgress :: "u8 list \<Rightarrow> int result"
  UpdateCommitteeCache :: "BeaconState \<Rightarrow> Epoch \<Rightarrow> unit result"
  balanceCache_Get :: "BeaconState \<Rightarrow> u64 result"
  balanceCache_Add :: "BeaconState \<Rightarrow> u64 \<Rightarrow> unit result"
  BeaconProposerIndex :: "BeaconState \<Rightarrow> ValidatorIndex result"

definition ValidatorAtIndex :: "BeaconState \<Rightarrow> ValidatorIndex \<Rightarrow> Validator result" where
  "ValidatorAtIndex s idx = sliceAt (bs_validators s) idx"

definition UpdateValidatorAtIndex :: "ValidatorIndex \<Rightarrow> Validator \<Rightarrow> BeaconState \<Rightarrow> BeaconState result" where
  "UpdateValidatorAtIndex idx val s =
     rbind (sliceUpdateAt (bs_validators s) idx val) (\<lambda>vs. Inr (s\<lparr>bs_validators := vs\<rparr>))"

definition BalanceAtIndex :: "BeaconState \<Rightarrow> ValidatorIndex \<Rightarrow> u64 result" where
  "BalanceAtIndex s idx = sliceAt (bs_balances s) idx"

definition UpdateBalancesAtIndex :: "ValidatorIndex \<Rightarrow> u64 \<Rightarrow> BeaconState \<Rightarrow> BeaconState result" where
  "UpdateBalancesAtIndex idx val s =
     rbind (sliceUpdateAt (bs_balances s) idx val) (\<lambda>bs. Inr (s\<lparr>bs_balances := bs\<rparr>))"

definition UpdateSlashingsAtIndex :: "u64 \<Rightarrow> u64 \<Rightarrow> BeaconState \<Rightarrow> BeaconState result" where
  "UpdateSlashingsAtIndex idx val s =
     (if of_nat (length (bs_slashings s)) \<le> idx then Inl ErrOutOfBounds
      else Inr (s\<lparr>bs_slashings := (bs_slashings s)[unat idx := val]\<rparr>))"

definition RandaoMixAtIndex :: "BeaconState \<Rightarrow> u64 \<Rightarrow> u8 list result" where
  "RandaoMixAtIndex s idx = sliceAt (bs_randaoMixes s) idx"

definition UpdateRandaoMixesAtIndex :: "u64 \<Rightarrow> u8 list \<Rightarrow> BeaconState \<Rightarrow> BeaconState result" where
  "UpdateRandaoMixesAtIndex idx val s =
     rbind (sliceUpdateAt (bs_randaoMixes s) idx val) (\<lambda>ms. Inr (s\<lparr>bs_randaoMixes := ms\<rparr>))"

definition BeaconState_ProportionalSlashingMultiplier :: "BeaconChainConfig \<Rightarrow> BeaconState \<Rightarrow> u64 result" where
  "BeaconState_ProportionalSlashingMultiplier cfg s =
     (if bs_version s \<ge> Bellatrix then Inr (ProportionalSlashingMultiplierBellatrix cfg)
      else if bs_version s \<ge> Altair then Inr (ProportionalSlashingMultiplierAltair cfg)
      else if bs_version s \<ge> Phase0 then Inr (ProportionalSlashingMultiplier cfg)
      else Inl ErrNotSupported)"

definition PendingBalanceToWithdraw :: "BeaconState \<Rightarrow> ValidatorIndex \<Rightarrow> u64 result" where
  "PendingBalanceToWithdraw s idx =
     (if bs_version s < Electra then Inl ErrNotSupported
      else Inr (fold (\<lambda>w sum. if pw_Index w = idx then sum + pw_Amount w else sum) (bs_pendingPartialWithdrawals s) 0))"

definition HasPendingBalanceToWithdraw :: "BeaconState \<Rightarrow> ValidatorIndex \<Rightarrow> bool result" where
  "HasPendingBalanceToWithdraw s idx =
     (if bs_version s < Electra then Inl ErrNotSupported
      else Inr (list_ex (\<lambda>w. pw_Index w = idx \<and> pw_Amount w > 0) (bs_pendingPartialWithdrawals s)))"

text \<open>\<^verbatim>\<open>ApplyToEveryValidator\<close>: the callback returns the new validator, or nil to keep the old one.\<close>

fun applyLoop :: "(nat \<Rightarrow> Validator \<Rightarrow> Validator option result) \<Rightarrow> nat \<Rightarrow> Validator list \<Rightarrow> Validator list result" where
  "applyLoop f i [] = Inr []"
| "applyLoop f i (v # vs) =
     rbind (f i v) (\<lambda>new. rbind (applyLoop f (i + 1) vs) (\<lambda>vs'.
       Inr ((case new of None \<Rightarrow> v | Some v' \<Rightarrow> v') # vs')))"

definition ApplyToEveryValidator :: "(nat \<Rightarrow> Validator \<Rightarrow> Validator option result) \<Rightarrow> BeaconState \<Rightarrow> BeaconState result" where
  "ApplyToEveryValidator f s = rbind (applyLoop f 0 (bs_validators s)) (\<lambda>vs. Inr (s\<lparr>bs_validators := vs\<rparr>))"

section \<open>Epochs of a state\<close>

definition CurrentEpoch :: "BeaconChainConfig \<Rightarrow> BeaconState \<Rightarrow> Epoch" where
  "CurrentEpoch cfg s = ToEpoch cfg (bs_slot s)"

definition PrevEpoch :: "BeaconChainConfig \<Rightarrow> BeaconState \<Rightarrow> Epoch" where
  "PrevEpoch cfg s = (let currentEpoch = CurrentEpoch cfg s in if currentEpoch = 0 then 0 else currentEpoch - 1)"

definition NextEpoch :: "BeaconChainConfig \<Rightarrow> BeaconState \<Rightarrow> Epoch" where
  "NextEpoch cfg s = ToEpoch cfg (bs_slot s) + 1"

definition HigherEqualThanAltairVersionAndEpoch :: "BeaconChainConfig \<Rightarrow> BeaconState \<Rightarrow> Epoch \<Rightarrow> bool" where
  "HigherEqualThanAltairVersionAndEpoch cfg s e \<longleftrightarrow> bs_version s \<ge> Altair \<and> e \<ge> AltairForkEpoch cfg"

definition CanUpgradeToAltair :: "BeaconChainConfig \<Rightarrow> Slot \<Rightarrow> bool" where
  "CanUpgradeToAltair cfg slot \<longleftrightarrow> IsEpochStart cfg slot \<and> ToEpoch cfg slot = AltairForkEpoch cfg"

definition CanUpgradeToBellatrix :: "BeaconChainConfig \<Rightarrow> Slot \<Rightarrow> bool" where
  "CanUpgradeToBellatrix cfg slot \<longleftrightarrow> IsEpochStart cfg slot \<and> ToEpoch cfg slot = BellatrixForkEpoch cfg"

definition CanUpgradeToCapella :: "BeaconChainConfig \<Rightarrow> Slot \<Rightarrow> bool" where
  "CanUpgradeToCapella cfg slot \<longleftrightarrow> IsEpochStart cfg slot \<and> ToEpoch cfg slot = CapellaForkEpoch cfg"

definition CanUpgradeToDeneb :: "BeaconChainConfig \<Rightarrow> Slot \<Rightarrow> bool" where
  "CanUpgradeToDeneb cfg slot \<longleftrightarrow> IsEpochStart cfg slot \<and> ToEpoch cfg slot = DenebForkEpoch cfg"

definition CanUpgradeToElectra :: "BeaconChainConfig \<Rightarrow> Slot \<Rightarrow> bool" where
  "CanUpgradeToElectra cfg slot \<longleftrightarrow> IsEpochStart cfg slot \<and> ToEpoch cfg slot = ElectraForkEpoch cfg"

definition CanUpgradeToFulu :: "BeaconChainConfig \<Rightarrow> Slot \<Rightarrow> bool" where
  "CanUpgradeToFulu cfg slot \<longleftrightarrow> IsEpochStart cfg slot \<and> ToEpoch cfg slot = FuluForkEpoch cfg"

definition CanProcessEpoch :: "BeaconChainConfig \<Rightarrow> BeaconState \<Rightarrow> bool" where
  "CanProcessEpoch cfg s \<longleftrightarrow> (bs_slot s + 1) mod SlotsPerEpoch cfg = 0"

section \<open>Status of a validator\<close>

definition checkValidatorActiveStatus :: "Epoch \<Rightarrow> Epoch \<Rightarrow> Epoch \<Rightarrow> bool" where
  "checkValidatorActiveStatus activationEpoch exitEpoch epoch \<longleftrightarrow> activationEpoch \<le> epoch \<and> epoch < exitEpoch"

definition IsActiveValidator :: "Validator \<Rightarrow> Epoch \<Rightarrow> bool" where
  "IsActiveValidator v epoch = checkValidatorActiveStatus (v_ActivationEpoch v) (v_ExitEpoch v) epoch"

definition IsActiveValidatorUsingTrie :: "Validator \<Rightarrow> Epoch \<Rightarrow> bool" where
  "IsActiveValidatorUsingTrie v epoch = checkValidatorActiveStatus (v_ActivationEpoch v) (v_ExitEpoch v) epoch"

definition IsActiveNonSlashedValidatorUsingTrie :: "Validator \<Rightarrow> Epoch \<Rightarrow> bool" where
  "IsActiveNonSlashedValidatorUsingTrie v epoch \<longleftrightarrow>
     checkValidatorActiveStatus (v_ActivationEpoch v) (v_ExitEpoch v) epoch \<and> \<not> v_Slashed v"

definition checkValidatorSlashable :: "Epoch \<Rightarrow> Epoch \<Rightarrow> bool \<Rightarrow> Epoch \<Rightarrow> bool" where
  "checkValidatorSlashable activationEpoch withdrawableEpoch slashed epoch \<longleftrightarrow>
     epoch < withdrawableEpoch \<and> activationEpoch \<le> epoch \<and> \<not> slashed"

definition IsSlashableValidator :: "Epoch \<Rightarrow> Epoch \<Rightarrow> bool \<Rightarrow> Epoch \<Rightarrow> bool" where
  "IsSlashableValidator activationEpoch withdrawableEpoch slashed epoch =
     checkValidatorSlashable activationEpoch withdrawableEpoch slashed epoch"

definition IsSlashableValidatorUsingTrie :: "Validator \<Rightarrow> Epoch \<Rightarrow> bool" where
  "IsSlashableValidatorUsingTrie v epoch =
     checkValidatorSlashable (v_ActivationEpoch v) (v_WithdrawableEpoch v) (v_Slashed v) epoch"

text \<open>The prefix bytes of withdrawal credentials; credentials without a first byte panic.\<close>

definition ETH1AddressWithdrawalPrefixByte :: u8 where "ETH1AddressWithdrawalPrefixByte = 1"

definition CompoundingWithdrawalPrefixByte :: u8 where "CompoundingWithdrawalPrefixByte = 2"

definition HasETH1WithdrawalCredentials :: "Validator \<Rightarrow> bool result" where
  "HasETH1WithdrawalCredentials v =
     (case v_WithdrawalCredentials v of [] \<Rightarrow> Inl Panic | b # _ \<Rightarrow> Inr (b = ETH1AddressWithdrawalPrefixByte))"

definition HasCompoundingWithdrawalCredentials :: "Validator \<Rightarrow> bool result" where
  "HasCompoundingWithdrawalCredentials v =
     (case v_WithdrawalCredentials v of [] \<Rightarrow> Inl Panic | b # _ \<Rightarrow> Inr (b = CompoundingWithdrawalPrefixByte))"

definition HasExecutionWithdrawalCredentials :: "Validator \<Rightarrow> bool result" where
  "HasExecutionWithdrawalCredentials v =
     rbind (HasETH1WithdrawalCredentials v) (\<lambda>eth1. if eth1 then Inr True else HasCompoundingWithdrawalCredentials v)"

definition ValidatorMaxEffectiveBalance :: "BeaconChainConfig \<Rightarrow> Validator \<Rightarrow> u64 result" where
  "ValidatorMaxEffectiveBalance cfg v =
     rbind (HasCompoundingWithdrawalCredentials v) (\<lambda>c.
       Inr (if c then MaxEffectiveBalanceElectra cfg else MinActivationBalance cfg))"

definition IsSameWithdrawalCredentials :: "Validator option \<Rightarrow> Validator option \<Rightarrow> bool" where
  "IsSameWithdrawalCredentials a b =
     (case (a, b) of
        (Some a, Some b) \<Rightarrow>
          if length (v_WithdrawalCredentials a) \<le> 12 \<or> length (v_WithdrawalCredentials b) \<le> 12 then False
          else drop 12 (v_WithdrawalCredentials a) = drop 12 (v_WithdrawalCredentials b)
      | _ \<Rightarrow> False)"

definition IsFullyWithdrawableValidator :: "Validator option \<Rightarrow> u64 \<Rightarrow> Epoch \<Rightarrow> forkVersion \<Rightarrow> bool result" where
  "IsFullyWithdrawableValidator val balance epoch fork =
     (case val of
        None \<Rightarrow> Inr False
      | Some v \<Rightarrow>
          if balance \<le> 0 then Inr False
          else if fork \<ge> Electra then
            rbind (HasExecutionWithdrawalCredentials v) (\<lambda>c. Inr (c \<and> v_WithdrawableEpoch v \<le> epoch))
          else rbind (HasETH1WithdrawalCredentials v) (\<lambda>c. Inr (c \<and> v_WithdrawableEpoch v \<le> epoch)))"

definition isPartiallyWithdrawableValidatorElectra :: "BeaconChainConfig \<Rightarrow> Validator \<Rightarrow> u64 \<Rightarrow> Epoch \<Rightarrow> bool result" where
  "isPartiallyWithdrawableValidatorElectra cfg v balance epoch =
     rbind (ValidatorMaxEffectiveBalance cfg v) (\<lambda>maxEB.
     rbind (HasExecutionWithdrawalCredentials v) (\<lambda>c.
       Inr (c \<and> v_EffectiveBalance v = maxEB \<and> balance > maxEB)))"

definition isPartiallyWithdrawableValidatorCapella :: "BeaconChainConfig \<Rightarrow> Validator \<Rightarrow> u64 \<Rightarrow> Epoch \<Rightarrow> bool result" where
  "isPartiallyWithdrawableValidatorCapella cfg v balance epoch =
     rbind (HasETH1WithdrawalCredentials v) (\<lambda>c.
       Inr (c \<and> balance > MaxEffectiveBalance cfg \<and> v_EffectiveBalance v = MaxEffectiveBalance cfg))"

definition IsPartiallyWithdrawableValidator ::
    "BeaconChainConfig \<Rightarrow> Validator option \<Rightarrow> u64 \<Rightarrow> Epoch \<Rightarrow> forkVersion \<Rightarrow> bool result" where
  "IsPartiallyWithdrawableValidator cfg val balance epoch fork =
     (case val of
        None \<Rightarrow> Inr False
      | Some v \<Rightarrow>
          if fork < Electra then isPartiallyWithdrawableValidatorCapella cfg v balance epoch
          else isPartiallyWithdrawableValidatorElectra cfg v balance epoch)"

section \<open>Queues and churn\<close>

definition isEligibleForActivationQueue :: "BeaconChainConfig \<Rightarrow> Epoch \<Rightarrow> u64 \<Rightarrow> bool" where
  "isEligibleForActivationQueue cfg activationEligibilityEpoch effectiveBalance \<longleftrightarrow>
     activationEligibilityEpoch = FarFutureEpoch cfg \<and> effectiveBalance = MaxEffectiveBalance cfg"

definition isEligibleForActivationQueueElectra :: "BeaconChainConfig \<Rightarrow> Epoch \<Rightarrow> u64 \<Rightarrow> bool" where
  "isEligibleForActivationQueueElectra cfg activationEligibilityEpoch effectiveBalance \<longleftrightarrow>
     activationEligibilityEpoch = FarFutureEpoch cfg \<and> effectiveBalance \<ge> MinActivationBalance cfg"

definition IsEligibleForActivationQueue :: "BeaconChainConfig \<Rightarrow> Validator \<Rightarrow> Epoch \<Rightarrow> bool" where
  "IsEligibleForActivationQueue cfg v currentEpoch =
     (if currentEpoch \<ge> ElectraForkEpoch cfg
      then isEligibleForActivationQueueElectra cfg (v_ActivationEligibilityEpoch v) (v_EffectiveBalance v)
      else isEligibleForActivationQueue cfg (v_ActivationEligibilityEpoch v) (v_EffectiveBalance v))"

definition isEligibleForActivation :: "BeaconChainConfig \<Rightarrow> Epoch \<Rightarrow> Epoch \<Rightarrow> Epoch \<Rightarrow> bool" where
  "isEligibleForActivation cfg activationEligibilityEpoch activationEpoch finalizedEpoch \<longleftrightarrow>
     activationEligibilityEpoch \<le> finalizedEpoch \<and> activationEpoch = FarFutureEpoch cfg"

definition IsEligibleForActivation :: "BeaconChainConfig \<Rightarrow> BeaconState \<Rightarrow> Validator \<Rightarrow> bool" where
  "IsEligibleForActivation cfg s v =
     isEligibleForActivation cfg (v_ActivationEligibilityEpoch v) (v_ActivationEpoch v) (bs_finalizedEpoch s)"

definition IsEligibleForActivationUsingROVal :: "BeaconChainConfig \<Rightarrow> BeaconState \<Rightarrow> Validator \<Rightarrow> bool" where
  "IsEligibleForActivationUsingROVal cfg s v =
     isEligibleForActivation cfg (v_ActivationEligibilityEpoch v) (v_ActivationEpoch v) (bs_finalizedEpoch s)"

definition ActivationExitEpoch :: "BeaconChainConfig \<Rightarrow> Epoch \<Rightarrow> Epoch" where
  "ActivationExitEpoch cfg epoch = epoch + 1 + MaxSeedLookahead cfg"

definition calculateChurnLimit :: "BeaconChainConfig \<Rightarrow> u64 \<Rightarrow> u64" where
  "calculateChurnLimit cfg activeValidatorCount =
     (let churnLimit = activeValidatorCount div ChurnLimitQuotient cfg in
      if churnLimit < MinPerEpochChurnLimit cfg then MinPerEpochChurnLimit cfg else churnLimit)"

definition ValidatorActivationChurnLimit :: "BeaconChainConfig \<Rightarrow> u64 \<Rightarrow> u64" where
  "ValidatorActivationChurnLimit cfg activeValidatorCount = calculateChurnLimit cfg activeValidatorCount"

definition ValidatorExitChurnLimit :: "BeaconChainConfig \<Rightarrow> u64 \<Rightarrow> u64" where
  "ValidatorExitChurnLimit cfg activeValidatorCount = calculateChurnLimit cfg activeValidatorCount"

definition ValidatorActivationChurnLimitDeneb :: "BeaconChainConfig \<Rightarrow> u64 \<Rightarrow> u64" where
  "ValidatorActivationChurnLimitDeneb cfg activeValidatorCount =
     (let limit = calculateChurnLimit cfg activeValidatorCount in
      if limit > MaxPerEpochActivationChurnLimit cfg then MaxPerEpochActivationChurnLimit cfg else limit)"

definition BalanceChurnLimit :: "BeaconChainConfig \<Rightarrow> u64 \<Rightarrow> u64" where
  "BalanceChurnLimit cfg activeBalance =
     (let churn = max (MinPerEpochChurnLimitElectra cfg) (activeBalance div ChurnLimitQuotient cfg)
      in churn - churn mod EffectiveBalanceIncrement cfg)"

definition ActivationExitChurnLimit :: "BeaconChainConfig \<Rightarrow> u64 \<Rightarrow> u64" where
  "ActivationExitChurnLimit cfg activeBalance =
     min (MaxPerEpochActivationExitChurnLimit cfg) (BalanceChurnLimit cfg activeBalance)"

definition ConsolidationChurnLimit :: "BeaconChainConfig \<Rightarrow> u64 \<Rightarrow> u64" where
  "ConsolidationChurnLimit cfg activeBalance =
     BalanceChurnLimit cfg activeBalance - ActivationExitChurnLimit cfg activeBalance"

section \<open>Seeds, active validators and balances\<close>

text \<open>\<^verbatim>\<open>bytesutil.Bytes8\<close>: the eight bytes of a number, the lowest first.\<close>

definition Bytes8 :: "u64 \<Rightarrow> u8 list" where
  "Bytes8 x = map (\<lambda>i. ucast (drop_bit (8 * i) x)) [0..<8]"

definition DomainBeaconAttester :: "u8 list" where "DomainBeaconAttester = [1, 0, 0, 0]"

definition RandaoMix :: "BeaconChainConfig \<Rightarrow> BeaconState \<Rightarrow> Epoch \<Rightarrow> u8 list result" where
  "RandaoMix cfg s epoch = RandaoMixAtIndex s (epoch mod EpochsPerHistoricalVector cfg)"

definition Seed :: "BeaconChainConfig \<Rightarrow> CoreEnv \<Rightarrow> BeaconState \<Rightarrow> Epoch \<Rightarrow> u8 list \<Rightarrow> u8 list result" where
  "Seed cfg env s epoch domain =
     (let lookAheadEpoch = epoch + EpochsPerHistoricalVector cfg - MinSeedLookahead cfg - 1 in
      rbind (RandaoMix cfg s lookAheadEpoch) (\<lambda>randaoMix.
        Inr (hash_Hash env (domain @ Bytes8 epoch @ randaoMix))))"

definition activeIndices :: "BeaconState \<Rightarrow> Epoch \<Rightarrow> ValidatorIndex list" where
  "activeIndices s epoch =
     map of_nat (filter (\<lambda>i. IsActiveValidatorUsingTrie (bs_validators s ! i) epoch) [0..<length (bs_validators s)])"

definition ActiveValidatorIndices :: "BeaconChainConfig \<Rightarrow> CoreEnv \<Rightarrow> BeaconState \<Rightarrow> Epoch \<Rightarrow> ValidatorIndex list result" where
  "ActiveValidatorIndices cfg env s epoch =
     rbind (Seed cfg env s epoch DomainBeaconAttester) (\<lambda>seed.
     rbind (cache_ActiveIndices env seed) (\<lambda>cached.
       case cached of
         Some is \<Rightarrow> Inr is
       | None \<Rightarrow>
           (case cache_MarkInProgress env seed of
              Inl e \<Rightarrow>
                if e = ErrAlreadyInProgress then
                  rbind (cache_ActiveIndicesInProgress env seed) (\<lambda>is.
                    case is of None \<Rightarrow> Inl ErrNilActiveIndices | Some is \<Rightarrow> Inr is)
                else Inl e
            | Inr _ \<Rightarrow>
                let indices = activeIndices s epoch in
                if length indices = 0 then Inl ErrNoActiveIndices
                else rbind (UpdateCommitteeCache env s epoch) (\<lambda>_. Inr indices))))"

definition activeCount :: "BeaconState \<Rightarrow> Epoch \<Rightarrow> u64" where
  "activeCount s epoch =
     fold (\<lambda>v count. if IsActiveValidatorUsingTrie v epoch then count + 1 else count) (bs_validators s) 0"

definition ActiveValidatorCount :: "BeaconChainConfig \<Rightarrow> CoreEnv \<Rightarrow> BeaconState \<Rightarrow> Epoch \<Rightarrow> u64 result" where
  "ActiveValidatorCount cfg env s epoch =
     rbind (Seed cfg env s epoch DomainBeaconAttester) (\<lambda>seed.
     rbind (cache_ActiveIndicesCount env seed) (\<lambda>cached.
       if cached \<noteq> 0 \<and> bs_slot s \<noteq> 0 then Inr (of_int cached)
       else
         (case cache_MarkInProgress env seed of
            Inl e \<Rightarrow>
              if e = ErrAlreadyInProgress then rbind (cache_ActiveIndicesCountInProgress env seed) (\<lambda>n. Inr (of_int n))
              else Inl e
          | Inr _ \<Rightarrow>
              let count = activeCount s epoch in
              rbind (UpdateCommitteeCache env s epoch) (\<lambda>_. Inr count))))"

text \<open>\<^verbatim>\<open>LastActivatedValidatorIndex\<close> searches downwards; 0 stands for none as well.\<close>

fun lastActivatedLoop :: "BeaconChainConfig \<Rightarrow> BeaconState \<Rightarrow> nat \<Rightarrow> ValidatorIndex result" where
  "lastActivatedLoop cfg s 0 = Inr 0"
| "lastActivatedLoop cfg s (Suc j) =
     rbind (ValidatorAtIndex s (of_nat j)) (\<lambda>val.
       if IsActiveValidatorUsingTrie val (CurrentEpoch cfg s) then Inr (of_nat j) else lastActivatedLoop cfg s j)"

definition LastActivatedValidatorIndex :: "BeaconChainConfig \<Rightarrow> BeaconState \<Rightarrow> ValidatorIndex result" where
  "LastActivatedValidatorIndex cfg s = lastActivatedLoop cfg s (length (bs_validators s))"

definition TotalBalance :: "BeaconChainConfig \<Rightarrow> BeaconState \<Rightarrow> ValidatorIndex list \<Rightarrow> u64" where
  "TotalBalance cfg s indices =
     (let total = fold (\<lambda>idx total. case ValidatorAtIndex s idx of Inl e \<Rightarrow> total | Inr v \<Rightarrow> total + v_EffectiveBalance v) indices 0
      in if total < EffectiveBalanceIncrement cfg then EffectiveBalanceIncrement cfg else total)"

definition activeBalance :: "BeaconState \<Rightarrow> Epoch \<Rightarrow> u64" where
  "activeBalance s epoch =
     fold (\<lambda>v total. if IsActiveValidatorUsingTrie v epoch then total + v_EffectiveBalance v else total) (bs_validators s) 0"

definition TotalActiveBalance :: "BeaconChainConfig \<Rightarrow> CoreEnv \<Rightarrow> BeaconState \<Rightarrow> u64 result" where
  "TotalActiveBalance cfg env s =
     (case balanceCache_Get env s of
        Inr bal \<Rightarrow> Inr bal
      | Inl e \<Rightarrow>
          if e = ErrNotFound then
            let total = math_Max (EffectiveBalanceIncrement cfg) (activeBalance s (ToEpoch cfg (bs_slot s)))
            in rbind (balanceCache_Add env s total) (\<lambda>_. Inr total)
          else Inl e)"

definition IncreaseBalanceWithVal :: "u64 \<Rightarrow> u64 \<Rightarrow> u64 result" where
  "IncreaseBalanceWithVal currBalance delta = Add64 currBalance delta"

definition IncreaseBalance :: "ValidatorIndex \<Rightarrow> u64 \<Rightarrow> BeaconState \<Rightarrow> BeaconState result" where
  "IncreaseBalance idx delta s =
     rbind (BalanceAtIndex s idx) (\<lambda>balAtIdx.
     rbind (IncreaseBalanceWithVal balAtIdx delta) (\<lambda>newBal.
       UpdateBalancesAtIndex idx newBal s))"

definition DecreaseBalanceWithVal :: "u64 \<Rightarrow> u64 \<Rightarrow> u64" where
  "DecreaseBalanceWithVal currBalance delta = (if delta > currBalance then 0 else currBalance - delta)"

definition DecreaseBalance :: "ValidatorIndex \<Rightarrow> u64 \<Rightarrow> BeaconState \<Rightarrow> BeaconState result" where
  "DecreaseBalance idx delta s =
     rbind (BalanceAtIndex s idx) (\<lambda>balAtIdx. UpdateBalancesAtIndex idx (DecreaseBalanceWithVal balAtIdx delta) s)"

definition FinalityDelay :: "Epoch \<Rightarrow> Epoch \<Rightarrow> Epoch" where
  "FinalityDelay prevEpoch finalizedEpoch = prevEpoch - finalizedEpoch"

definition IsInInactivityLeak :: "BeaconChainConfig \<Rightarrow> Epoch \<Rightarrow> Epoch \<Rightarrow> bool" where
  "IsInInactivityLeak cfg prevEpoch finalizedEpoch \<longleftrightarrow>
     FinalityDelay prevEpoch finalizedEpoch > MinEpochsToInactivityPenalty cfg"

section \<open>Lemmas\<close>

named_theorems state_simps

text \<open>The registry of a state: fewer than \<open>2 ^ 40\<close> validators, the limit of the SSZ list, and a balance for each.\<close>

definition state_ok :: "BeaconState \<Rightarrow> bool" where
  "state_ok s \<longleftrightarrow> length (bs_validators s) \<le> 2 ^ 40 \<and> length (bs_balances s) = length (bs_validators s)"

lemma state_okD:
  assumes "state_ok s"
  shows "length (bs_validators s) < 2 ^ 64" "length (bs_balances s) < 2 ^ 64" "length (bs_balances s) = length (bs_validators s)"
  using assms by (simp_all add: state_ok_def)

lemma ValidatorAtIndex_eq [state_simps]:
  "state_ok s \<Longrightarrow> ValidatorAtIndex s i
     = (if unat i < length (bs_validators s) then Inr (bs_validators s ! unat i) else Inl ErrOutOfBounds)"
  by (simp add: ValidatorAtIndex_def sliceAt_eq [OF state_okD(1)])

lemma UpdateValidatorAtIndex_eq [state_simps]:
  "state_ok s \<Longrightarrow> UpdateValidatorAtIndex i v s
     = (if unat i < length (bs_validators s) then Inr (s\<lparr>bs_validators := (bs_validators s)[unat i := v]\<rparr>)
        else Inl ErrOutOfBounds)"
  by (simp add: UpdateValidatorAtIndex_def sliceUpdateAt_eq [OF state_okD(1)])

lemma BalanceAtIndex_eq [state_simps]:
  "state_ok s \<Longrightarrow> BalanceAtIndex s i
     = (if unat i < length (bs_validators s) then Inr (bs_balances s ! unat i) else Inl ErrOutOfBounds)"
  by (simp add: BalanceAtIndex_def sliceAt_eq [OF state_okD(2)] state_okD(3))

lemma UpdateBalancesAtIndex_eq [state_simps]:
  "state_ok s \<Longrightarrow> UpdateBalancesAtIndex i b s
     = (if unat i < length (bs_validators s) then Inr (s\<lparr>bs_balances := (bs_balances s)[unat i := b]\<rparr>)
        else Inl ErrOutOfBounds)"
  by (simp add: UpdateBalancesAtIndex_def sliceUpdateAt_eq [OF state_okD(2)] state_okD(3))

lemma state_ok_update [simp]:
  "state_ok (s\<lparr>bs_validators := (bs_validators s)[i := v]\<rparr>) = state_ok s"
  "state_ok (s\<lparr>bs_balances := (bs_balances s)[i := b]\<rparr>) = state_ok s"
  "state_ok (s\<lparr>bs_slashings := sl\<rparr>) = state_ok s"
  "state_ok (s\<lparr>bs_exitBalanceToConsume := g\<rparr>) = state_ok s"
  "state_ok (s\<lparr>bs_earliestExitEpoch := e\<rparr>) = state_ok s"
  by (simp_all add: state_ok_def)

lemma DecreaseBalanceWithVal_unat: "unat (DecreaseBalanceWithVal b d) = unat b - unat d"
  by (auto simp: DecreaseBalanceWithVal_def word_less_unat not_less unat_minus_u64 word_le_unat)

lemma calculateChurnLimit_max:
  "calculateChurnLimit cfg n = max (MinPerEpochChurnLimit cfg) (n div ChurnLimitQuotient cfg)"
  by (auto simp: calculateChurnLimit_def Let_def max_def)

lemma fold_count: "fold (\<lambda>v n. if P v then n + 1 else n) xs (of_nat k) = (of_nat (k + length (filter P xs)) :: u64)"
proof (induction xs arbitrary: k)
  case (Cons x xs)
  show ?case using Cons [of "Suc k"] Cons [of k] by (simp add: add.commute)
qed simp

lemma activeCount_eq: "activeCount s e = of_nat (length (filter (\<lambda>v. IsActiveValidatorUsingTrie v e) (bs_validators s)))"
  using fold_count [of "\<lambda>v. IsActiveValidatorUsingTrie v e" "bs_validators s" 0] by (simp add: activeCount_def)

end
