(* ===== verification/Core_Validators.thy ===== *)
theory Core_Validators
  imports Core_State
begin

text \<open>
  Exits and slashings of validators: \<^verbatim>\<open>core/validators\<close>, the exit churn of the state
  (\<^verbatim>\<open>state-native/setters_churn.go\<close>) and voluntary exits (\<^verbatim>\<open>core/blocks/exit.go\<close>).

  The exit information that the code updates through a pointer is passed and returned.
\<close>

section \<open>Exits\<close>

record ExitInfo =
  HighestExitEpoch :: Epoch
  Churn :: u64
  TotalActiveBalance' :: u64

text \<open>The validators are read in their order; one step of the callback of \<^verbatim>\<open>ExitInformation\<close>.\<close>

definition exitInfoStep :: "BeaconChainConfig \<Rightarrow> Epoch \<Rightarrow> Validator \<Rightarrow> ExitInfo \<Rightarrow> ExitInfo" where
  "exitInfoStep cfg currentEpoch val info =
     (let e = v_ExitEpoch val;
          info = (if e \<noteq> FarFutureEpoch cfg then
              if e > HighestExitEpoch info then info\<lparr>HighestExitEpoch := e, Churn := 1\<rparr>
              else if e = HighestExitEpoch info then info\<lparr>Churn := Churn info + 1\<rparr>
              else info
            else info)
      in if IsActiveValidatorUsingTrie val currentEpoch
         then info\<lparr>TotalActiveBalance' := TotalActiveBalance' info + v_EffectiveBalance val\<rparr> else info)"

definition ExitInformation :: "BeaconChainConfig \<Rightarrow> BeaconState \<Rightarrow> ExitInfo" where
  "ExitInformation cfg s =
     (let info = fold (exitInfoStep cfg (ToEpoch cfg (bs_slot s))) (bs_validators s)
            \<lparr>HighestExitEpoch = 0, Churn = 0, TotalActiveBalance' = 0\<rparr>
      in info\<lparr>TotalActiveBalance' := math_Max (EffectiveBalanceIncrement cfg) (TotalActiveBalance' info)\<rparr>)"

definition initiateValidatorExitPreElectra :: "BeaconChainConfig \<Rightarrow> CoreEnv \<Rightarrow> BeaconState \<Rightarrow> ExitInfo \<Rightarrow> ExitInfo result" where
  "initiateValidatorExitPreElectra cfg env s info =
     (let exitableEpoch = ActivationExitEpoch cfg (CurrentEpoch cfg s);
          info = (if exitableEpoch > HighestExitEpoch info
            then info\<lparr>HighestExitEpoch := exitableEpoch, Churn := 0\<rparr> else info) in
      rbind (ActiveValidatorCount cfg env s (CurrentEpoch cfg s)) (\<lambda>activeValidatorCount.
        let currentChurn = ValidatorExitChurnLimit cfg activeValidatorCount in
        if Churn info \<ge> currentChurn then
          rbind (Epoch_SafeAdd (HighestExitEpoch info) 1) (\<lambda>e. Inr (info\<lparr>HighestExitEpoch := e, Churn := 1\<rparr>))
        else Inr (info\<lparr>Churn := Churn info + 1\<rparr>)))"

text \<open>The exit churn in balances of the Electra fork. The limit is a divisor, so 0 panics.\<close>

definition exitEpochAndUpdateChurn :: "BeaconChainConfig \<Rightarrow> u64 \<Rightarrow> u64 \<Rightarrow> BeaconState \<Rightarrow> (Epoch \<times> BeaconState) result" where
  "exitEpochAndUpdateChurn cfg totalActiveBalance exitBalance b =
     (let earliestExitEpoch = max (bs_earliestExitEpoch b) (ActivationExitEpoch cfg (ToEpoch cfg (bs_slot b)));
          perEpochChurn = ActivationExitChurnLimit cfg totalActiveBalance;
          exitBalanceToConsume = (if bs_earliestExitEpoch b < earliestExitEpoch then perEpochChurn else bs_exitBalanceToConsume b)
      in rbind
        (if exitBalance > exitBalanceToConsume then
           if perEpochChurn = 0 then Inl Panic
           else let balanceToProcess = exitBalance - exitBalanceToConsume;
                    additionalEpochs = (balanceToProcess - 1) div perEpochChurn + 1
                in Inr (earliestExitEpoch + additionalEpochs, exitBalanceToConsume + additionalEpochs * perEpochChurn)
         else Inr (earliestExitEpoch, exitBalanceToConsume))
        (\<lambda>(earliestExitEpoch, exitBalanceToConsume).
          Inr (earliestExitEpoch,
            b\<lparr>bs_exitBalanceToConsume := exitBalanceToConsume - exitBalance, bs_earliestExitEpoch := earliestExitEpoch\<rparr>)))"

definition ExitEpochAndUpdateChurn :: "BeaconChainConfig \<Rightarrow> CoreEnv \<Rightarrow> u64 \<Rightarrow> BeaconState \<Rightarrow> (Epoch \<times> BeaconState) result" where
  "ExitEpochAndUpdateChurn cfg env exitBalance b =
     (if bs_version b < Electra then Inl ErrNotSupported
      else rbind (TotalActiveBalance cfg env b) (\<lambda>activeBal. exitEpochAndUpdateChurn cfg activeBal exitBalance b))"

definition ExitEpochAndUpdateChurnForTotalBal ::
    "BeaconChainConfig \<Rightarrow> u64 \<Rightarrow> u64 \<Rightarrow> BeaconState \<Rightarrow> (Epoch \<times> BeaconState) result" where
  "ExitEpochAndUpdateChurnForTotalBal cfg totalActiveBalance exitBalance b =
     (if bs_version b < Electra then Inl ErrNotSupported
      else exitEpochAndUpdateChurn cfg totalActiveBalance exitBalance b)"

text \<open>The end both variants of an exit share: the epochs of the validator are set.\<close>

definition setExit :: "BeaconChainConfig \<Rightarrow> ValidatorIndex \<Rightarrow> Validator \<Rightarrow> BeaconState \<Rightarrow> ExitInfo
    \<Rightarrow> (BeaconState \<times> ExitInfo) result" where
  "setExit cfg idx validator s info =
     rbind (Epoch_SafeAddEpoch (HighestExitEpoch info) (MinValidatorWithdrawabilityDelay cfg)) (\<lambda>w.
     rbind (UpdateValidatorAtIndex idx (validator\<lparr>v_ExitEpoch := HighestExitEpoch info, v_WithdrawableEpoch := w\<rparr>) s) (\<lambda>s.
       Inr (s, info)))"

definition InitiateValidatorExit :: "BeaconChainConfig \<Rightarrow> CoreEnv \<Rightarrow> ValidatorIndex \<Rightarrow> BeaconState \<Rightarrow> ExitInfo
    \<Rightarrow> (BeaconState \<times> ExitInfo) result" where
  "InitiateValidatorExit cfg env idx s info =
     rbind (ValidatorAtIndex s idx) (\<lambda>validator.
       if v_ExitEpoch validator \<noteq> FarFutureEpoch cfg then Inl ErrAlreadyExited
       else rbind
         (if bs_version s < Electra
          then rbind (initiateValidatorExitPreElectra cfg env s info) (\<lambda>info. Inr (s, info))
          else rbind (ExitEpochAndUpdateChurn cfg env (v_EffectiveBalance validator) s) (\<lambda>(e, s).
            Inr (s, info\<lparr>HighestExitEpoch := e\<rparr>)))
         (\<lambda>(s, info). setExit cfg idx validator s info))"

definition InitiateValidatorExitForTotalBal :: "BeaconChainConfig \<Rightarrow> CoreEnv \<Rightarrow> ValidatorIndex \<Rightarrow> u64 \<Rightarrow> BeaconState \<Rightarrow> ExitInfo
    \<Rightarrow> (BeaconState \<times> ExitInfo) result" where
  "InitiateValidatorExitForTotalBal cfg env idx totalActiveBalance s info =
     rbind (ValidatorAtIndex s idx) (\<lambda>validator.
       if v_ExitEpoch validator \<noteq> FarFutureEpoch cfg then Inl ErrAlreadyExited
       else rbind
         (if bs_version s < Electra
          then rbind (initiateValidatorExitPreElectra cfg env s info) (\<lambda>info. Inr (s, info))
          else rbind (ExitEpochAndUpdateChurnForTotalBal cfg totalActiveBalance (v_EffectiveBalance validator) s) (\<lambda>(e, s).
            Inr (s, info\<lparr>HighestExitEpoch := e\<rparr>)))
         (\<lambda>(s, info). setExit cfg idx validator s info))"

text \<open>The callers go on with the state as it is if the validator has exited already.\<close>

definition unlessExited :: "'a \<Rightarrow> 'a result \<Rightarrow> 'a result" where
  "unlessExited x r = (case r of Inl e \<Rightarrow> if e = ErrAlreadyExited then Inr x else Inl e | Inr y \<Rightarrow> Inr y)"

section \<open>Slashing\<close>

definition SlashingParamsPerVersion :: "BeaconChainConfig \<Rightarrow> forkVersion \<Rightarrow> (u64 \<times> u64 \<times> u64) result" where
  "SlashingParamsPerVersion cfg v =
     (if v \<ge> Electra then
        Inr (MinSlashingPenaltyQuotientElectra cfg, ProposerRewardQuotient cfg, WhistleBlowerRewardQuotientElectra cfg)
      else if v \<ge> Bellatrix then
        Inr (MinSlashingPenaltyQuotientBellatrix cfg, ProposerRewardQuotient cfg, WhistleBlowerRewardQuotient cfg)
      else if v \<ge> Altair then
        Inr (MinSlashingPenaltyQuotientAltair cfg, ProposerRewardQuotient cfg, WhistleBlowerRewardQuotient cfg)
      else if v \<ge> Phase0 then
        Inr (MinSlashingPenaltyQuotient cfg, ProposerRewardQuotient cfg, WhistleBlowerRewardQuotient cfg)
      else Inl ErrNotSupported)"

text \<open>Marking the validator and adding its balance to the slashings of the epoch.\<close>

definition markSlashed :: "BeaconChainConfig \<Rightarrow> ValidatorIndex \<Rightarrow> BeaconState \<Rightarrow> (Validator \<times> BeaconState) result" where
  "markSlashed cfg slashedIdx s =
     (let currentEpoch = ToEpoch cfg (bs_slot s) in
      rbind (ValidatorAtIndex s slashedIdx) (\<lambda>validator.
        let validator = validator\<lparr>v_Slashed := True,
              v_WithdrawableEpoch := MaxEpoch (v_WithdrawableEpoch validator) (currentEpoch + EpochsPerSlashingsVector cfg)\<rparr> in
        rbind (UpdateValidatorAtIndex slashedIdx validator s) (\<lambda>s.
          let i = currentEpoch mod EpochsPerSlashingsVector cfg in
          if unat i \<ge> length (bs_slashings s) then Inl Panic
          else rbind (UpdateSlashingsAtIndex i (bs_slashings s ! unat i + v_EffectiveBalance validator) s) (\<lambda>s.
            Inr (validator, s)))))"

text \<open>The penalty and the rewards.\<close>

definition settleBalances :: "BeaconChainConfig \<Rightarrow> CoreEnv \<Rightarrow> ValidatorIndex \<Rightarrow> Validator \<Rightarrow> BeaconState \<Rightarrow> BeaconState result" where
  "settleBalances cfg env slashedIdx validator s =
     rbind (SlashingParamsPerVersion cfg (bs_version s)) (\<lambda>(slashingQuotient, proposerRewardQuotient, whistleblowerRewardQuotient).
     rbind (Div64 (v_EffectiveBalance validator) slashingQuotient) (\<lambda>slashingPenalty.
     rbind (DecreaseBalance slashedIdx slashingPenalty s) (\<lambda>s.
     rbind (BeaconProposerIndex env s) (\<lambda>proposerIdx.
       let whistleBlowerIdx = proposerIdx in
     rbind (Div64 (v_EffectiveBalance validator) whistleblowerRewardQuotient) (\<lambda>whistleblowerReward.
     rbind (Div64 whistleblowerReward proposerRewardQuotient) (\<lambda>proposerReward.
     rbind (IncreaseBalance proposerIdx proposerReward s) (\<lambda>s.
       IncreaseBalance whistleBlowerIdx (whistleblowerReward - proposerReward) s)))))))"

definition SlashValidator :: "BeaconChainConfig \<Rightarrow> CoreEnv \<Rightarrow> ValidatorIndex \<Rightarrow> BeaconState \<Rightarrow> ExitInfo
    \<Rightarrow> (BeaconState \<times> ExitInfo) result" where
  "SlashValidator cfg env slashedIdx s info =
     rbind (unlessExited (s, info) (InitiateValidatorExitForTotalBal cfg env slashedIdx (TotalActiveBalance' info) s info))
       (\<lambda>(s, info).
         rbind (markSlashed cfg slashedIdx s) (\<lambda>(validator, s).
         rbind (settleBalances cfg env slashedIdx validator s) (\<lambda>s. Inr (s, info))))"

section \<open>Indices by status\<close>

definition ActivatedValidatorIndices :: "Epoch \<Rightarrow> Validator list \<Rightarrow> ValidatorIndex list" where
  "ActivatedValidatorIndices epoch vs =
     map of_nat (filter (\<lambda>i. v_ActivationEpoch (vs ! i) \<le> epoch \<and> epoch < v_ExitEpoch (vs ! i)) [0..<length vs])"

definition SlashedValidatorIndices :: "BeaconChainConfig \<Rightarrow> Epoch \<Rightarrow> Validator list \<Rightarrow> ValidatorIndex list" where
  "SlashedValidatorIndices cfg epoch vs =
     map of_nat (filter (\<lambda>i.
       v_WithdrawableEpoch (vs ! i) = MaxEpoch (v_WithdrawableEpoch (vs ! i)) (epoch + EpochsPerSlashingsVector cfg)
       \<and> v_Slashed (vs ! i)) [0..<length vs])"

definition ExitedValidatorIndices :: "BeaconChainConfig \<Rightarrow> Epoch \<Rightarrow> Validator list \<Rightarrow> ValidatorIndex list result" where
  "ExitedValidatorIndices cfg epoch vs =
     Inr (map of_nat (filter (\<lambda>i. v_ExitEpoch (vs ! i) = epoch \<and> v_EffectiveBalance (vs ! i) > EjectionBalance cfg) [0..<length vs]))"

definition EjectedValidatorIndices :: "BeaconChainConfig \<Rightarrow> Epoch \<Rightarrow> Validator list \<Rightarrow> ValidatorIndex list result" where
  "EjectedValidatorIndices cfg epoch vs =
     Inr (map of_nat (filter (\<lambda>i. v_ExitEpoch (vs ! i) = epoch \<and> v_EffectiveBalance (vs ! i) \<le> EjectionBalance cfg) [0..<length vs]))"

section \<open>Voluntary exits\<close>

record VoluntaryExit =
  ve_Epoch :: Epoch
  ve_ValidatorIndex :: ValidatorIndex

record SignedVoluntaryExit =
  se_Exit :: "VoluntaryExit option"
  se_Signature :: "u8 list"

definition verifyExitConditions :: "BeaconChainConfig \<Rightarrow> BeaconState \<Rightarrow> Validator \<Rightarrow> VoluntaryExit \<Rightarrow> unit result" where
  "verifyExitConditions cfg st validator exit =
     (let currentEpoch = ToEpoch cfg (bs_slot st) in
      if \<not> IsActiveValidatorUsingTrie validator currentEpoch then Inl ErrNotActive
      else if v_ExitEpoch validator \<noteq> FarFutureEpoch cfg then Inl ErrAlreadyExited
      else if currentEpoch < ve_Epoch exit then Inl ErrExitEpoch
      else if currentEpoch < v_ActivationEpoch validator + ShardCommitteePeriod cfg then Inl ErrTooEarly
      else if bs_version st \<ge> Electra then
        rbind (HasPendingBalanceToWithdraw st (ve_ValidatorIndex exit)) (\<lambda>ok. if ok then Inl ErrPendingBalance else Inr ())
      else Inr ())"

text \<open>The fork the domain of the signature is computed for, and the check of the signature, are an argument.\<close>

definition VerifyExitAndSignature :: "BeaconChainConfig \<Rightarrow> (BeaconState \<Rightarrow> Validator \<Rightarrow> SignedVoluntaryExit \<Rightarrow> unit result)
    \<Rightarrow> Validator \<Rightarrow> BeaconState \<Rightarrow> SignedVoluntaryExit option \<Rightarrow> unit result" where
  "VerifyExitAndSignature cfg verifySignature validator st signedExit =
     (case signedExit of
        None \<Rightarrow> Inl ErrNilExit
      | Some sg \<Rightarrow> (case se_Exit sg of
          None \<Rightarrow> Inl ErrNilExit
        | Some exit \<Rightarrow>
            rbind (verifyExitConditions cfg st validator exit) (\<lambda>_. verifySignature st validator sg)))"

fun ProcessVoluntaryExits :: "BeaconChainConfig \<Rightarrow> CoreEnv \<Rightarrow> (BeaconState \<Rightarrow> Validator \<Rightarrow> SignedVoluntaryExit \<Rightarrow> unit result)
    \<Rightarrow> SignedVoluntaryExit option list \<Rightarrow> BeaconState \<Rightarrow> ExitInfo \<Rightarrow> (BeaconState \<times> ExitInfo) result" where
  "ProcessVoluntaryExits cfg env verifySignature [] s info = Inr (s, info)"
| "ProcessVoluntaryExits cfg env verifySignature (ex # exits) s info =
     (case ex of
        None \<Rightarrow> Inl ErrNilExit
      | Some sg \<Rightarrow> (case se_Exit sg of
          None \<Rightarrow> Inl ErrNilExit
        | Some exit \<Rightarrow>
            rbind (ValidatorAtIndex s (ve_ValidatorIndex exit)) (\<lambda>val.
            rbind (VerifyExitAndSignature cfg verifySignature val s (Some sg)) (\<lambda>_.
            rbind (unlessExited (s, info) (InitiateValidatorExit cfg env (ve_ValidatorIndex exit) s info))
              (\<lambda>(s, info). ProcessVoluntaryExits cfg env verifySignature exits s info)))))"

end
