(* ===== verification/Exit_Queue.thy ===== *)
theory Exit_Queue
  imports Core_Validators
begin

text \<open>
  Correctness of the exits and slashings of \<open>Core_Validators\<close>: the exit queue of the forks before Electra
  never exceeds the churn limit of an epoch, the balance churn of Electra fills the epochs without gaps, and a
  slashing moves exactly the penalty and the rewards.
\<close>

section \<open>The exit queue\<close>

definition exitsAt :: "BeaconState \<Rightarrow> Epoch \<Rightarrow> nat" where
  "exitsAt s e = length (filter (\<lambda>v. v_ExitEpoch v = e) (bs_validators s))"

text \<open>The exit information describes the end of the queue of a state.\<close>

definition queue_ok :: "BeaconChainConfig \<Rightarrow> BeaconState \<Rightarrow> ExitInfo \<Rightarrow> bool" where
  "queue_ok cfg s info \<longleftrightarrow>
     (\<forall>v \<in> set (bs_validators s). v_ExitEpoch v \<noteq> FarFutureEpoch cfg \<longrightarrow> v_ExitEpoch v \<le> HighestExitEpoch info)
     \<and> HighestExitEpoch info \<noteq> FarFutureEpoch cfg \<and> Churn info = of_nat (exitsAt s (HighestExitEpoch info))"

definition exit_cfg :: "BeaconChainConfig \<Rightarrow> bool" where
  "exit_cfg cfg \<longleftrightarrow> FarFutureEpoch cfg = MaxUint64 \<and> 0 < MinValidatorWithdrawabilityDelay cfg \<and> 0 < MinPerEpochChurnLimit cfg"

lemma exit_cfg_mainnet [simp]: "exit_cfg mainnetBeaconConfig"
  by (simp add: exit_cfg_def mainnetBeaconConfig_def)

lemma exitInfo_fold:
  fixes vs :: "Validator list" and cur :: Epoch
  assumes "FarFutureEpoch cfg \<noteq> 0"
  defines "info \<equiv> fold (exitInfoStep cfg cur) vs \<lparr>HighestExitEpoch = 0, Churn = 0, TotalActiveBalance' = 0\<rparr>"
  shows "(\<forall>v \<in> set vs. v_ExitEpoch v \<noteq> FarFutureEpoch cfg \<longrightarrow> v_ExitEpoch v \<le> HighestExitEpoch info)
    \<and> HighestExitEpoch info \<noteq> FarFutureEpoch cfg
    \<and> Churn info = of_nat (length (filter (\<lambda>v. v_ExitEpoch v = HighestExitEpoch info) vs))"
  unfolding info_def
proof (induction vs rule: rev_induct)
  case Nil
  then show ?case using assms(1) by auto
next
  case (snoc v vs)
  define i where "i = fold (exitInfoStep cfg cur) vs \<lparr>HighestExitEpoch = 0, Churn = 0, TotalActiveBalance' = 0\<rparr>"
  have IH: "\<forall>v \<in> set vs. v_ExitEpoch v \<noteq> FarFutureEpoch cfg \<longrightarrow> v_ExitEpoch v \<le> HighestExitEpoch i"
    "HighestExitEpoch i \<noteq> FarFutureEpoch cfg" "Churn i = of_nat (length (filter (\<lambda>v. v_ExitEpoch v = HighestExitEpoch i) vs))"
    using snoc.IH unfolding i_def by blast+
  have none: "filter (\<lambda>x. v_ExitEpoch x = v_ExitEpoch v) vs = []"
    if "v_ExitEpoch v > HighestExitEpoch i" "v_ExitEpoch v \<noteq> FarFutureEpoch cfg"
    using that IH(1) by (auto simp: filter_empty_conv)
  have f: "fold (exitInfoStep cfg cur) (vs @ [v]) \<lparr>HighestExitEpoch = 0, Churn = 0, TotalActiveBalance' = 0\<rparr> = exitInfoStep cfg cur v i"
    by (simp add: i_def)
  consider "v_ExitEpoch v = FarFutureEpoch cfg" | "v_ExitEpoch v \<noteq> FarFutureEpoch cfg" "v_ExitEpoch v > HighestExitEpoch i"
    | "v_ExitEpoch v \<noteq> FarFutureEpoch cfg" "v_ExitEpoch v \<le> HighestExitEpoch i" by fastforce
  then show ?case
  proof cases
    case 1
    then show ?thesis unfolding f using IH by (auto simp: exitInfoStep_def Let_def)
  next
    case 2
    have "HighestExitEpoch (exitInfoStep cfg cur v i) = v_ExitEpoch v" "Churn (exitInfoStep cfg cur v i) = 1"
      using 2 by (auto simp: exitInfoStep_def Let_def)
    then show ?thesis unfolding f using IH(1) 2 none by fastforce
  next
    case 3
    have "HighestExitEpoch (exitInfoStep cfg cur v i) = HighestExitEpoch i"
      "Churn (exitInfoStep cfg cur v i) = (if v_ExitEpoch v = HighestExitEpoch i then Churn i + 1 else Churn i)"
      using 3 by (auto simp: exitInfoStep_def Let_def)
    then show ?thesis unfolding f using IH 3 by (auto simp: add.commute)
  qed
qed

lemma queue_ok_ExitInformation: "exit_cfg cfg \<Longrightarrow> queue_ok cfg s (ExitInformation cfg s)"
  using exitInfo_fold [where cfg = cfg and cur = "ToEpoch cfg (bs_slot s)" and vs = "bs_validators s"]
  by (auto simp: queue_ok_def ExitInformation_def exitsAt_def Let_def exit_cfg_def)

text \<open>One more validator at the end of the queue.\<close>

lemma length_filter_update:
  "i < length xs \<Longrightarrow> \<not> P (xs ! i) \<Longrightarrow> length (filter P (xs[i := y])) = length (filter P xs) + (if P y then 1 else 0)"
  by (induction xs arbitrary: i) (auto split: nat.splits simp: nth_Cons)

lemma length_filter_same: "i < length xs \<Longrightarrow> P (xs ! i) = P y \<Longrightarrow> length (filter P (xs[i := y])) = length (filter P xs)"
  by (induction xs arbitrary: i) (auto split: nat.splits simp: nth_Cons)

lemma setExit_eq:
  assumes "state_ok s" and "unat idx < length (bs_validators s)" and "setExit cfg idx v s info = Inr (s', info')"
  shows "info' = info" "unat (HighestExitEpoch info) + unat (MinValidatorWithdrawabilityDelay cfg) < 2 ^ 64"
    "\<exists>w. s' = s\<lparr>bs_validators := (bs_validators s)[unat idx := v\<lparr>v_ExitEpoch := HighestExitEpoch info, v_WithdrawableEpoch := w\<rparr>]\<rparr>
       \<and> unat w = unat (HighestExitEpoch info) + unat (MinValidatorWithdrawabilityDelay cfg)"
proof -
  obtain w where w: "Epoch_SafeAddEpoch (HighestExitEpoch info) (MinValidatorWithdrawabilityDelay cfg) = Inr w"
    "rbind (UpdateValidatorAtIndex idx (v\<lparr>v_ExitEpoch := HighestExitEpoch info, v_WithdrawableEpoch := w\<rparr>) s) (\<lambda>s. Inr (s, info)) = Inr (s', info')"
    using assms(3) by (auto simp: setExit_def rbind_eq_Inr)
  have u: "unat w = unat (HighestExitEpoch info) + unat (MinValidatorWithdrawabilityDelay cfg)"
    using w(1) by (simp add: Epoch_SafeAddEpoch_def Epoch_SafeAdd_def Add64_exact)
  show "info' = info" using w(2) assms(1,2) by (simp add: state_simps)
  show "unat (HighestExitEpoch info) + unat (MinValidatorWithdrawabilityDelay cfg) < 2 ^ 64"
    using u unat_u64_bound [of w] by simp
  show "\<exists>w. s' = s\<lparr>bs_validators := (bs_validators s)[unat idx := v\<lparr>v_ExitEpoch := HighestExitEpoch info, v_WithdrawableEpoch := w\<rparr>]\<rparr>
       \<and> unat w = unat (HighestExitEpoch info) + unat (MinValidatorWithdrawabilityDelay cfg)"
    using w(2) u assms(1,2) by (auto simp: state_simps)
qed

lemma SafeAdd_one: "Epoch_SafeAdd e 1 = Inr e' \<Longrightarrow> unat e' = unat e + 1"
  by (auto simp: Epoch_SafeAdd_def Add64_exact split: if_splits)

lemma exitsAt_beyond:
  "queue_ok cfg s info \<Longrightarrow> HighestExitEpoch info < e \<Longrightarrow> e \<noteq> FarFutureEpoch cfg \<Longrightarrow> exitsAt s e = 0"
  by (auto simp: queue_ok_def exitsAt_def filter_empty_conv)

lemma exitsAt_bound: "state_ok s \<Longrightarrow> exitsAt s e < 18446744073709551616"
  unfolding exitsAt_def state_ok_def by (rule le_less_trans [OF length_filter_le]) simp

lemma le_max_u64: "FarFutureEpoch cfg = MaxUint64 \<Longrightarrow> e \<le> FarFutureEpoch cfg"
  using unat_u64_bound [of e] by (simp add: word_le_unat)

text \<open>The next place in the queue.\<close>

lemma preElectra_spec:
  assumes q: "queue_ok cfg s info" and cfg: "exit_cfg cfg" and s: "state_ok s"
    and n: "ActiveValidatorCount cfg env s (CurrentEpoch cfg s) = Inr n"
    and r: "initiateValidatorExitPreElectra cfg env s info = Inr info'"
    and far: "HighestExitEpoch info' \<noteq> FarFutureEpoch cfg"
  shows "HighestExitEpoch info \<le> HighestExitEpoch info'"
    "ActivationExitEpoch cfg (CurrentEpoch cfg s) \<le> HighestExitEpoch info'"
    "Churn info' = of_nat (exitsAt s (HighestExitEpoch info') + 1)"
    "exitsAt s (HighestExitEpoch info') < unat (ValidatorExitChurnLimit cfg n)"
proof -
  let ?E = "ActivationExitEpoch cfg (CurrentEpoch cfg s)" and ?L = "ValidatorExitChurnLimit cfg n"
  define i where "i = (if ?E > HighestExitEpoch info then info\<lparr>HighestExitEpoch := ?E, Churn := 0\<rparr> else info)"
  have L: "0 < unat ?L" using cfg by (auto simp: ValidatorExitChurnLimit_def calculateChurnLimit_max exit_cfg_def max_def word_less_unat word_le_unat)
  have H: "HighestExitEpoch info \<le> HighestExitEpoch i" "?E \<le> HighestExitEpoch i" by (auto simp: i_def)
  have r': "(if Churn i \<ge> ?L then rbind (Epoch_SafeAdd (HighestExitEpoch i) 1) (\<lambda>e. Inr (i\<lparr>HighestExitEpoch := e, Churn := 1\<rparr>))
      else Inr (i\<lparr>Churn := Churn i + 1\<rparr>)) = Inr info'"
    using r unfolding initiateValidatorExitPreElectra_def Let_def n rbind_simps i_def .
  have le: "HighestExitEpoch i \<le> HighestExitEpoch info'"
    using r' by (auto simp: rbind_eq_Inr word_le_unat dest!: SafeAdd_one split: if_splits)
  then have "HighestExitEpoch i \<noteq> FarFutureEpoch cfg"
    using far le_max_u64 [of cfg] cfg by (metis exit_cfg_def order.antisym)
  then have churn: "Churn i = of_nat (exitsAt s (HighestExitEpoch i))"
    using q exitsAt_beyond [OF q, of ?E] by (auto simp: i_def queue_ok_def)
  then have c: "unat (Churn i) = exitsAt s (HighestExitEpoch i)"
    using exitsAt_bound [OF s] by (simp add: unat_of_nat)
  show "HighestExitEpoch info \<le> HighestExitEpoch info'" "?E \<le> HighestExitEpoch info'" using H le by (auto intro: order.trans)
  show "Churn info' = of_nat (exitsAt s (HighestExitEpoch info') + 1)" "exitsAt s (HighestExitEpoch info') < unat ?L"
  proof (atomize (full), cases "Churn i \<ge> ?L")
    case True
    then obtain e where e: "Epoch_SafeAdd (HighestExitEpoch i) 1 = Inr e" "info' = i\<lparr>HighestExitEpoch := e, Churn := 1\<rparr>"
      using r' by (auto simp: rbind_eq_Inr)
    have "HighestExitEpoch info < e" using SafeAdd_one [OF e(1)] H(1) by (simp add: word_less_unat word_le_unat)
    then have "exitsAt s e = 0" using exitsAt_beyond [OF q] far e(2) by simp
    then show "Churn info' = of_nat (exitsAt s (HighestExitEpoch info') + 1) \<and> exitsAt s (HighestExitEpoch info') < unat ?L"
      using e(2) L by simp
  next
    case False
    then show "Churn info' = of_nat (exitsAt s (HighestExitEpoch info') + 1) \<and> exitsAt s (HighestExitEpoch info') < unat ?L"
      using r' churn c by (auto simp: word_le_unat add.commute)
  qed
qed

text \<open>What the queue and the count of active validators depend on.\<close>

definition epochsOf :: "BeaconState \<Rightarrow> (Epoch \<times> Epoch) list" where
  "epochsOf s = map (\<lambda>v. (v_ActivationEpoch v, v_ExitEpoch v)) (bs_validators s)"

lemma exitsAt_epochsOf: "exitsAt s e = length (filter (\<lambda>x. snd x = e) (epochsOf s))"
  by (simp add: exitsAt_def epochsOf_def filter_map o_def)

lemma queue_ok_epochsOf:
  assumes "epochsOf s = epochsOf s'"
  shows "queue_ok cfg s info = queue_ok cfg s' info"
proof -
  have "(\<forall>v \<in> set (bs_validators s). v_ExitEpoch v \<noteq> FarFutureEpoch cfg \<longrightarrow> v_ExitEpoch v \<le> HighestExitEpoch info)
      = (\<forall>x \<in> set (epochsOf s). snd x \<noteq> FarFutureEpoch cfg \<longrightarrow> snd x \<le> HighestExitEpoch info)" for s
    by (simp add: epochsOf_def)
  then show ?thesis unfolding queue_ok_def exitsAt_epochsOf by (simp add: assms)
qed

lemma activeCount_epochsOf:
  "activeCount s e = of_nat (length (filter (\<lambda>x. checkValidatorActiveStatus (fst x) (snd x) e) (epochsOf s)))"
  by (simp add: activeCount_eq epochsOf_def filter_map o_def IsActiveValidatorUsingTrie_def)

text \<open>An exit of the validator \<open>idx\<close>.\<close>

definition exited :: "BeaconChainConfig \<Rightarrow> ValidatorIndex \<Rightarrow> BeaconState \<Rightarrow> BeaconState \<Rightarrow> ExitInfo \<Rightarrow> bool" where
  "exited cfg idx s s' info' \<longleftrightarrow> unat idx < length (bs_validators s)
     \<and> v_ExitEpoch (bs_validators s ! unat idx) = FarFutureEpoch cfg \<and> HighestExitEpoch info' \<noteq> FarFutureEpoch cfg
     \<and> (\<exists>w. s' = s\<lparr>bs_validators := (bs_validators s)[unat idx :=
              (bs_validators s ! unat idx)\<lparr>v_ExitEpoch := HighestExitEpoch info', v_WithdrawableEpoch := w\<rparr>]\<rparr>
            \<and> unat w = unat (HighestExitEpoch info') + unat (MinValidatorWithdrawabilityDelay cfg))"

lemma exited_count:
  assumes "exited cfg idx s s' info'" and "e \<noteq> FarFutureEpoch cfg"
  shows "exitsAt s' e = exitsAt s e + (if e = HighestExitEpoch info' then 1 else 0)"
proof -
  obtain w where i: "unat idx < length (bs_validators s)" "v_ExitEpoch (bs_validators s ! unat idx) = FarFutureEpoch cfg"
    and s': "s' = s\<lparr>bs_validators := (bs_validators s)[unat idx :=
        (bs_validators s ! unat idx)\<lparr>v_ExitEpoch := HighestExitEpoch info', v_WithdrawableEpoch := w\<rparr>]\<rparr>"
    using assms(1) unfolding exited_def by blast
  show ?thesis using i assms(2) unfolding s' exitsAt_def by (simp add: length_filter_update)
qed

lemma exited_queue:
  assumes x: "exited cfg idx s s' info'" and q: "queue_ok cfg s info"
    and H: "HighestExitEpoch info \<le> HighestExitEpoch info'" and c: "Churn info' = of_nat (exitsAt s (HighestExitEpoch info') + 1)"
  shows "queue_ok cfg s' info'"
proof -
  obtain w where i: "unat idx < length (bs_validators s)" and far: "HighestExitEpoch info' \<noteq> FarFutureEpoch cfg"
    and s': "s' = s\<lparr>bs_validators := (bs_validators s)[unat idx :=
        (bs_validators s ! unat idx)\<lparr>v_ExitEpoch := HighestExitEpoch info', v_WithdrawableEpoch := w\<rparr>]\<rparr>"
    using x unfolding exited_def by blast
  have "v_ExitEpoch v \<le> HighestExitEpoch info'" if "v \<in> set (bs_validators s')" "v_ExitEpoch v \<noteq> FarFutureEpoch cfg" for v
  proof -
    have "v \<in> set (bs_validators s) \<or> v_ExitEpoch v = HighestExitEpoch info'"
      using that(1) set_update_subset_insert [of "bs_validators s" "unat idx"] unfolding s' by fastforce
    then show ?thesis using q H that(2) by (auto simp: queue_ok_def)
  qed
  then show ?thesis using far c exited_count [OF x far] by (auto simp: queue_ok_def)
qed

lemma exited_active:
  assumes x: "exited cfg idx s s' info'" and e: "e < HighestExitEpoch info'" and far: "e < FarFutureEpoch cfg"
  shows "activeCount s' e = activeCount s e"
proof -
  obtain w where i: "unat idx < length (bs_validators s)" "v_ExitEpoch (bs_validators s ! unat idx) = FarFutureEpoch cfg"
    and s': "s' = s\<lparr>bs_validators := (bs_validators s)[unat idx :=
        (bs_validators s ! unat idx)\<lparr>v_ExitEpoch := HighestExitEpoch info', v_WithdrawableEpoch := w\<rparr>]\<rparr>"
    using x unfolding exited_def by blast
  show ?thesis using i e far unfolding s' activeCount_eq
    by (simp add: length_filter_same IsActiveValidatorUsingTrie_def checkValidatorActiveStatus_def)
qed

text \<open>Before Electra, \<^verbatim>\<open>InitiateValidatorExit\<close> exits the validator at the end of the queue.\<close>

lemma initiate_spec:
  assumes q: "queue_ok cfg s info" and cfg: "exit_cfg cfg" and s: "state_ok s" and v: "bs_version s < Electra"
    and n: "ActiveValidatorCount cfg env s (CurrentEpoch cfg s) = Inr n"
    and r: "InitiateValidatorExit cfg env idx s info = Inr (s', info')"
  shows "exited cfg idx s s' info'" "queue_ok cfg s' info'"
    "ActivationExitEpoch cfg (CurrentEpoch cfg s) \<le> HighestExitEpoch info'"
    "exitsAt s' (HighestExitEpoch info') \<le> unat (ValidatorExitChurnLimit cfg n)"
proof -
  have i: "unat idx < length (bs_validators s)"
    and far: "v_ExitEpoch (bs_validators s ! unat idx) = FarFutureEpoch cfg"
    using r s by (auto simp: InitiateValidatorExit_def state_simps split: if_splits)
  obtain info1 where pre: "initiateValidatorExitPreElectra cfg env s info = Inr info1"
    and set: "setExit cfg idx (bs_validators s ! unat idx) s info1 = Inr (s', info')"
    using r s i far v by (auto simp: InitiateValidatorExit_def state_simps rbind_eq_Inr)
  note x = setExit_eq [OF s i set]
  have H: "HighestExitEpoch info' \<noteq> FarFutureEpoch cfg" using x(1,2) cfg by (auto simp: exit_cfg_def word_less_unat)
  then show ex: "exited cfg idx s s' info'" using i far x(1,3) unfolding exited_def by simp
  note p = preElectra_spec [OF q cfg s n pre, folded x(1), OF H]
  show "queue_ok cfg s' info'" by (rule exited_queue [OF ex q p(1,3)])
  show "ActivationExitEpoch cfg (CurrentEpoch cfg s) \<le> HighestExitEpoch info'" by (rule p(2))
  show "exitsAt s' (HighestExitEpoch info') \<le> unat (ValidatorExitChurnLimit cfg n)"
    using p(4) exited_count [OF ex H] by simp
qed

section \<open>Slashing\<close>

lemma ForTotalBal_preElectra:
  "bs_version s < Electra \<Longrightarrow> InitiateValidatorExitForTotalBal cfg env idx tb s info = InitiateValidatorExit cfg env idx s info"
  by (simp add: InitiateValidatorExitForTotalBal_def InitiateValidatorExit_def cong: if_cong)

lemma markSlashed_eq:
  assumes "state_ok s" and "markSlashed cfg idx s = Inr (v, s')"
  shows "unat idx < length (bs_validators s)"
    and "v = (bs_validators s ! unat idx)\<lparr>v_Slashed := True, v_WithdrawableEpoch :=
      MaxEpoch (v_WithdrawableEpoch (bs_validators s ! unat idx)) (CurrentEpoch cfg s + EpochsPerSlashingsVector cfg)\<rparr>"
    and "unat (CurrentEpoch cfg s mod EpochsPerSlashingsVector cfg) < length (bs_slashings s)"
    and "s' = s\<lparr>bs_validators := (bs_validators s)[unat idx := v],
      bs_slashings := (bs_slashings s)[unat (CurrentEpoch cfg s mod EpochsPerSlashingsVector cfg) :=
        bs_slashings s ! unat (CurrentEpoch cfg s mod EpochsPerSlashingsVector cfg) + v_EffectiveBalance v]\<rparr>"
proof -
  show i: "unat idx < length (bs_validators s)"
    using assms by (auto simp: markSlashed_def state_simps Let_def rbind_eq_Inr split: if_splits)
  show "v = (bs_validators s ! unat idx)\<lparr>v_Slashed := True, v_WithdrawableEpoch :=
      MaxEpoch (v_WithdrawableEpoch (bs_validators s ! unat idx)) (CurrentEpoch cfg s + EpochsPerSlashingsVector cfg)\<rparr>"
    using assms i by (auto simp: markSlashed_def state_simps Let_def rbind_eq_Inr CurrentEpoch_def split: if_splits)
  show "unat (CurrentEpoch cfg s mod EpochsPerSlashingsVector cfg) < length (bs_slashings s)"
    using assms i by (auto simp: markSlashed_def state_simps Let_def rbind_eq_Inr CurrentEpoch_def split: if_splits)
  show "s' = s\<lparr>bs_validators := (bs_validators s)[unat idx := v],
      bs_slashings := (bs_slashings s)[unat (CurrentEpoch cfg s mod EpochsPerSlashingsVector cfg) :=
        bs_slashings s ! unat (CurrentEpoch cfg s mod EpochsPerSlashingsVector cfg) + v_EffectiveBalance v]\<rparr>"
    using assms i
    by (auto simp: markSlashed_def state_simps Let_def rbind_eq_Inr CurrentEpoch_def UpdateSlashingsAtIndex_def split: if_splits)
qed

text \<open>The balances after the penalty and the rewards.\<close>

definition penaltyOf :: "BeaconChainConfig \<Rightarrow> forkVersion \<Rightarrow> nat \<Rightarrow> nat" where
  "penaltyOf cfg v eb = (case SlashingParamsPerVersion cfg v of Inl e \<Rightarrow> 0 | Inr (q, _, _) \<Rightarrow> eb div unat q)"

definition rewardOf :: "BeaconChainConfig \<Rightarrow> forkVersion \<Rightarrow> nat \<Rightarrow> nat" where
  "rewardOf cfg v eb = (case SlashingParamsPerVersion cfg v of Inl e \<Rightarrow> 0 | Inr (_, _, w) \<Rightarrow> eb div unat w)"

lemma IncreaseBalance_eq:
  assumes "state_ok s" and "IncreaseBalance i d s = Inr s'"
  shows "unat i < length (bs_validators s)"
    "\<exists>b. s' = s\<lparr>bs_balances := (bs_balances s)[unat i := b]\<rparr> \<and> unat b = unat (bs_balances s ! unat i) + unat d"
  using assms by (auto simp: IncreaseBalance_def IncreaseBalanceWithVal_def state_simps rbind_eq_Inr Add64_exact split: if_splits)

lemma DecreaseBalance_eq:
  assumes "state_ok s" and "DecreaseBalance i d s = Inr s'"
  shows "unat i < length (bs_validators s)"
    "s' = s\<lparr>bs_balances := (bs_balances s)[unat i := DecreaseBalanceWithVal (bs_balances s ! unat i) d]\<rparr>"
  using assms by (auto simp: DecreaseBalance_def state_simps rbind_eq_Inr split: if_splits)

lemma settleBalances_eq:
  assumes s: "state_ok s" and r: "settleBalances cfg env idx v s = Inr s'"
  obtains bs p where "s' = s\<lparr>bs_balances := bs\<rparr>" "length bs = length (bs_balances s)"
    "BeaconProposerIndex env (s\<lparr>bs_balances := (bs_balances s)[unat idx := DecreaseBalanceWithVal (bs_balances s ! unat idx)
       (of_nat (penaltyOf cfg (bs_version s) (unat (v_EffectiveBalance v))))]\<rparr>) = Inr p"
    "unat p < length (bs_balances s)"
    "\<And>j. j < length bs \<Longrightarrow> unat (bs ! j) = unat (bs_balances s ! j)
       - (if j = unat idx then penaltyOf cfg (bs_version s) (unat (v_EffectiveBalance v)) else 0)
       + (if j = unat p then rewardOf cfg (bs_version s) (unat (v_EffectiveBalance v)) else 0)"
proof -
  obtain q pq wq where q: "SlashingParamsPerVersion cfg (bs_version s) = Inr (q, pq, wq)"
    using r by (cases "SlashingParamsPerVersion cfg (bs_version s)") (auto simp: settleBalances_def)
  from r obtain pen s1 p wr pr s2 where pen: "Div64 (v_EffectiveBalance v) q = Inr pen" and s1: "DecreaseBalance idx pen s = Inr s1"
    and p: "BeaconProposerIndex env s1 = Inr p" and wr: "Div64 (v_EffectiveBalance v) wq = Inr wr"
    and pr: "Div64 wr pq = Inr pr" and s2: "IncreaseBalance p pr s1 = Inr s2" and s3: "IncreaseBalance p (wr - pr) s2 = Inr s'"
    by (auto simp: settleBalances_def q rbind_eq_Inr Let_def)
  have penalty: "unat pen = penaltyOf cfg (bs_version s) (unat (v_EffectiveBalance v))"
    using pen by (simp add: penaltyOf_def q Div64_exact)
  have reward: "unat wr = rewardOf cfg (bs_version s) (unat (v_EffectiveBalance v))"
    using wr by (simp add: rewardOf_def q Div64_exact)
  have "unat pr \<le> unat wr" using pr by (simp add: Div64_exact)
  then have split: "unat pr + unat (wr - pr) = unat wr" by (simp add: unat_minus_u64 word_le_unat)
  note d = DecreaseBalance_eq [OF s s1]
  have ok1: "state_ok s1" using s by (simp add: d(2))
  obtain b2 where b2: "s2 = s1\<lparr>bs_balances := (bs_balances s1)[unat p := b2]\<rparr>" "unat b2 = unat (bs_balances s1 ! unat p) + unat pr"
    using IncreaseBalance_eq [OF ok1 s2] by blast
  have ok2: "state_ok s2" using ok1 by (simp add: b2(1))
  obtain b3 where b3: "s' = s2\<lparr>bs_balances := (bs_balances s2)[unat p := b3]\<rparr>"
    "unat b3 = unat (bs_balances s2 ! unat p) + unat (wr - pr)"
    using IncreaseBalance_eq [OF ok2 s3] by blast
  have pi: "unat p < length (bs_balances s1)" using IncreaseBalance_eq(1) [OF ok1 s2] state_okD(3) [OF ok1] by simp
  have of: "of_nat (penaltyOf cfg (bs_version s) (unat (v_EffectiveBalance v))) = pen"
    unfolding penalty [symmetric] by simp
  show ?thesis
  proof (rule that [of "bs_balances s'" p])
    show "s' = s\<lparr>bs_balances := bs_balances s'\<rparr>" by (simp add: b3(1) b2(1) d(2))
    show "length (bs_balances s') = length (bs_balances s)" by (simp add: b3(1) b2(1) d(2))
    show "BeaconProposerIndex env (s\<lparr>bs_balances := (bs_balances s)[unat idx := DecreaseBalanceWithVal (bs_balances s ! unat idx)
       (of_nat (penaltyOf cfg (bs_version s) (unat (v_EffectiveBalance v))))]\<rparr>) = Inr p" using p by (simp only: of d(2))
    show "unat p < length (bs_balances s)" using pi by (simp add: d(2))
    fix j assume j: "j < length (bs_balances s')"
    have "unat (bs_balances s' ! j) = unat (bs_balances s1 ! j) + (if j = unat p then unat wr else 0)"
      using b2(2) b3(2) split pi by (auto simp: b3(1) b2(1))
    moreover have "unat (bs_balances s1 ! j) = unat (bs_balances s ! j) - (if j = unat idx then unat pen else 0)"
      using j d(1) state_okD(3) [OF s] by (auto simp: d(2) DecreaseBalanceWithVal_unat)
    ultimately show "unat (bs_balances s' ! j) = unat (bs_balances s ! j)
       - (if j = unat idx then penaltyOf cfg (bs_version s) (unat (v_EffectiveBalance v)) else 0)
       + (if j = unat p then rewardOf cfg (bs_version s) (unat (v_EffectiveBalance v)) else 0)"
      by (simp only: penalty reward)
  qed
qed

lemma SlashValidator_cases:
  assumes "SlashValidator cfg env idx s info = Inr (s', info')"
  obtains s1 v s2 where
    "InitiateValidatorExitForTotalBal cfg env idx (TotalActiveBalance' info) s info = Inr (s1, info')
     \<or> InitiateValidatorExitForTotalBal cfg env idx (TotalActiveBalance' info) s info = Inl ErrAlreadyExited \<and> s1 = s \<and> info' = info"
    "markSlashed cfg idx s1 = Inr (v, s2)" "settleBalances cfg env idx v s2 = Inr s'"
  using assms by (auto simp: SlashValidator_def unlessExited_def rbind_eq_Inr split: sum.splits if_splits)

lemma slash_epochs:
  assumes "state_ok s1" and "markSlashed cfg idx s1 = Inr (v, s2)" and "settleBalances cfg env idx v s2 = Inr s'"
  shows "epochsOf s' = epochsOf s1" "state_ok s'" "bs_version s' = bs_version s1" "bs_slot s' = bs_slot s1"
    "bs_randaoMixes s' = bs_randaoMixes s1"
proof -
  note m = markSlashed_eq [OF assms(1,2)]
  have ok: "state_ok s2" using assms(1) unfolding m(4) by (simp add: state_ok_def)
  obtain bs where bs: "s' = s2\<lparr>bs_balances := bs\<rparr>" "length bs = length (bs_balances s2)"
    using settleBalances_eq [OF ok assms(3)] by blast
  have "map (\<lambda>v. (v_ActivationEpoch v, v_ExitEpoch v)) ((bs_validators s1)[unat idx := v])
      = map (\<lambda>v. (v_ActivationEpoch v, v_ExitEpoch v)) (bs_validators s1)"
    using m(1) by (simp add: m(2) map_update list_update_same_conv)
  then show "epochsOf s' = epochsOf s1" by (simp add: epochsOf_def bs(1) m(4))
  show "state_ok s'" using ok bs by (simp add: state_ok_def)
  show "bs_version s' = bs_version s1" "bs_slot s' = bs_slot s1" "bs_randaoMixes s' = bs_randaoMixes s1"
    by (simp_all add: bs(1) m(4))
qed

section \<open>Sequences of exits and slashings\<close>

text \<open>
  The committee cache knows nothing about the current epoch of a state, or the number of its active validators; a request in progress
  ends with that number.
\<close>

definition counts_active :: "BeaconChainConfig \<Rightarrow> CoreEnv \<Rightarrow> BeaconState \<Rightarrow> bool" where
  "counts_active cfg env s0 \<longleftrightarrow> (case Seed cfg env s0 (CurrentEpoch cfg s0) DomainBeaconAttester of Inl _ \<Rightarrow> True
     | Inr seed \<Rightarrow>
         (\<forall>k. cache_ActiveIndicesCount env seed = Inr k \<longrightarrow> k = 0 \<or> of_int k = activeCount s0 (CurrentEpoch cfg s0))
         \<and> (cache_MarkInProgress env seed = Inl ErrAlreadyInProgress \<longrightarrow>
              (\<forall>k. cache_ActiveIndicesCountInProgress env seed = Inr k \<longrightarrow> of_int k = activeCount s0 (CurrentEpoch cfg s0))))"

text \<open>
  The states of one block in which validators exit and are slashed, with the shared exit information. The caches may change between
  the calls.
\<close>

inductive exiting :: "BeaconChainConfig \<Rightarrow> BeaconState \<Rightarrow> BeaconState \<Rightarrow> ExitInfo \<Rightarrow> bool" for cfg s0 where
  exiting_start: "exiting cfg s0 s0 (ExitInformation cfg s0)"
| exiting_initiate: "exiting cfg s0 s info \<Longrightarrow> counts_active cfg env s0 \<Longrightarrow> InitiateValidatorExit cfg env idx s info = Inr (s', info')
    \<Longrightarrow> exiting cfg s0 s' info'"
| exiting_slash: "exiting cfg s0 s info \<Longrightarrow> counts_active cfg env s0 \<Longrightarrow> SlashValidator cfg env idx s info = Inr (s', info')
    \<Longrightarrow> exiting cfg s0 s' info'"

text \<open>What holds between the state at the start and a later one.\<close>

definition queued :: "BeaconChainConfig \<Rightarrow> BeaconState \<Rightarrow> BeaconState \<Rightarrow> ExitInfo \<Rightarrow> bool" where
  "queued cfg s0 s info \<longleftrightarrow> state_ok s \<and> bs_version s = bs_version s0 \<and> bs_slot s = bs_slot s0 \<and> queue_ok cfg s info
     \<and> bs_randaoMixes s = bs_randaoMixes s0
     \<and> activeCount s (CurrentEpoch cfg s0) = activeCount s0 (CurrentEpoch cfg s0)
     \<and> (\<forall>e. e \<noteq> FarFutureEpoch cfg \<longrightarrow>
          exitsAt s e \<le> max (exitsAt s0 e) (unat (ValidatorExitChurnLimit cfg (activeCount s0 (CurrentEpoch cfg s0)))))"

text \<open>With such a cache the count is right in all these states, since they have the same seed and the same active validators.\<close>

lemma queued_count:
  assumes "queued cfg s0 s info" and "counts_active cfg env s0" and "ActiveValidatorCount cfg env s (CurrentEpoch cfg s0) = Inr n"
  shows "n = activeCount s0 (CurrentEpoch cfg s0)"
proof -
  have act: "activeCount s (CurrentEpoch cfg s0) = activeCount s0 (CurrentEpoch cfg s0)" using assms(1) by (simp add: queued_def)
  have "Seed cfg env s e d = Seed cfg env s0 e d" for e d
    using assms(1) by (simp add: queued_def Seed_def RandaoMix_def RandaoMixAtIndex_def)
  then obtain seed where "Seed cfg env s0 (CurrentEpoch cfg s0) DomainBeaconAttester = Inr seed"
    "Seed cfg env s (CurrentEpoch cfg s0) DomainBeaconAttester = Inr seed"
    using assms(3) by (auto simp: ActiveValidatorCount_def rbind_eq_Inr)
  then show ?thesis using assms(2,3) act
    by (auto simp: ActiveValidatorCount_def counts_active_def rbind_eq_Inr Let_def split: sum.splits if_splits)
qed

lemma queued_step:
  assumes q: "queued cfg s0 s info" and cfg: "exit_cfg cfg" and v: "bs_version s0 < Electra"
    and cur: "CurrentEpoch cfg s0 < ActivationExitEpoch cfg (CurrentEpoch cfg s0)" and cache: "counts_active cfg env s0"
    and r: "InitiateValidatorExit cfg env idx s info = Inr (s', info')"
  shows "queued cfg s0 s' info'"
proof -
  let ?cur = "CurrentEpoch cfg s0"
  have s: "state_ok s" "bs_version s < Electra" "queue_ok cfg s info" and C: "CurrentEpoch cfg s = ?cur"
    and act: "activeCount s ?cur = activeCount s0 ?cur" and slot: "bs_slot s = bs_slot s0" "bs_version s = bs_version s0"
    using q v by (auto simp: queued_def CurrentEpoch_def)
  obtain n where n: "ActiveValidatorCount cfg env s ?cur = Inr n"
    using r s(1,2) by (auto simp: InitiateValidatorExit_def initiateValidatorExitPreElectra_def Let_def C rbind_eq_Inr split: if_splits)
  then have n': "n = activeCount s0 ?cur" by (rule queued_count [OF q cache])
  note I = initiate_spec [OF s(3) cfg s(1,2) n [folded C] r, unfolded C]
  obtain w where s': "s' = s\<lparr>bs_validators := (bs_validators s)[unat idx :=
      (bs_validators s ! unat idx)\<lparr>v_ExitEpoch := HighestExitEpoch info', v_WithdrawableEpoch := w\<rparr>]\<rparr>"
    using I(1) unfolding exited_def by blast
  have "?cur < HighestExitEpoch info'" using cur I(3) by simp
  moreover have "?cur < FarFutureEpoch cfg" using calculation le_max_u64 [of cfg] cfg by (auto simp: exit_cfg_def intro: less_le_trans)
  ultimately have "activeCount s' ?cur = activeCount s0 ?cur" using exited_active [OF I(1)] act by simp
  moreover have "exitsAt s' e \<le> max (exitsAt s0 e) (unat (ValidatorExitChurnLimit cfg (activeCount s0 ?cur)))"
    if e: "e \<noteq> FarFutureEpoch cfg" for e
  proof (cases "e = HighestExitEpoch info'")
    case True
    then show ?thesis using I(4) n' by simp
  next
    case False
    then show ?thesis using exited_count [OF I(1) e] q e by (simp add: queued_def)
  qed
  ultimately show ?thesis using I(2) s(1) slot q unfolding queued_def s' by simp
qed

lemma queued_slash:
  assumes q: "queued cfg s0 s info" and cfg: "exit_cfg cfg" and v: "bs_version s0 < Electra"
    and cur: "CurrentEpoch cfg s0 < ActivationExitEpoch cfg (CurrentEpoch cfg s0)" and cache: "counts_active cfg env s0"
    and r: "SlashValidator cfg env idx s info = Inr (s', info')"
  shows "queued cfg s0 s' info'"
proof -
  have v': "bs_version s < Electra" using q v by (simp add: queued_def)
  obtain s1 u s2 where 1: "InitiateValidatorExit cfg env idx s info = Inr (s1, info')
      \<or> InitiateValidatorExit cfg env idx s info = Inl ErrAlreadyExited \<and> s1 = s \<and> info' = info"
    and 2: "markSlashed cfg idx s1 = Inr (u, s2)" "settleBalances cfg env idx u s2 = Inr s'"
    using SlashValidator_cases [OF r] ForTotalBal_preElectra [OF v'] by metis
  have q1: "queued cfg s0 s1 info'" using 1 queued_step [OF q cfg v cur cache] q by auto
  then have ok: "state_ok s1" by (simp add: queued_def)
  note e = slash_epochs [OF ok 2]
  show ?thesis using q1 e queue_ok_epochsOf [OF e(1)] unfolding queued_def by (simp add: exitsAt_epochsOf activeCount_epochsOf)
qed

text \<open>C11. Before Electra, however validators exit and are slashed within a block, starting from the exit
  information of its state, with caches that are empty or hold the number of active validators: the exit information always describes
  the end of the queue, and no epoch has more exits than the churn limit or, if it had more at the start, than then.\<close>

theorem exit_queue_churn:
  assumes "exit_cfg cfg" and "state_ok s0" and "bs_version s0 < Electra"
    and "unat (CurrentEpoch cfg s0) + 1 + unat (MaxSeedLookahead cfg) < 2 ^ 64"
    and "exiting cfg s0 s info" and "e \<noteq> FarFutureEpoch cfg"
  shows "queue_ok cfg s info
    \<and> exitsAt s e \<le> max (exitsAt s0 e) (unat (ValidatorExitChurnLimit cfg (activeCount s0 (CurrentEpoch cfg s0))))"
proof -
  have cur: "CurrentEpoch cfg s0 < ActivationExitEpoch cfg (CurrentEpoch cfg s0)"
    using assms(4) by (simp add: ActivationExitEpoch_def word_less_unat unat_add_exact)
  have "queued cfg s0 s info" using assms(5)
  proof induction
    case exiting_start
    show ?case using queue_ok_ExitInformation [OF assms(1)] assms(2) by (simp add: queued_def)
  qed (use queued_step queued_slash assms(1,3) cur in blast)+
  then show ?thesis using assms(6) by (simp add: queued_def)
qed

text \<open>A small state, and an environment whose caches are empty.\<close>

definition ex_env :: CoreEnv where
  "ex_env = \<lparr>hash_Hash = \<lambda>bs. bs, cache_ActiveIndices = \<lambda>_. Inr None, cache_ActiveIndicesCount = \<lambda>_. Inr 0,
     cache_MarkInProgress = \<lambda>_. Inr (), cache_ActiveIndicesInProgress = \<lambda>_. Inr None,
     cache_ActiveIndicesCountInProgress = \<lambda>_. Inr 0, UpdateCommitteeCache = \<lambda>_ _. Inr (),
     balanceCache_Get = \<lambda>_. Inl ErrNotFound, balanceCache_Add = \<lambda>_ _. Inr (), BeaconProposerIndex = \<lambda>_. Inr 2\<rparr>"

definition ex_validator :: Validator where
  "ex_validator = \<lparr>v_PublicKey = [], v_WithdrawalCredentials = [1], v_EffectiveBalance = 32000000000, v_Slashed = False,
     v_ActivationEligibilityEpoch = 0, v_ActivationEpoch = 0, v_ExitEpoch = MaxUint64, v_WithdrawableEpoch = MaxUint64\<rparr>"

definition ex_state :: BeaconState where
  "ex_state = \<lparr>bs_version = Deneb, bs_slot = 64, bs_validators = [ex_validator, ex_validator, ex_validator],
     bs_balances = [32000000000, 33000000000, 34000000000], bs_slashings = [0, 0, 0], bs_randaoMixes = [[]],
     bs_finalizedEpoch = 0, bs_exitBalanceToConsume = 0, bs_earliestExitEpoch = 0, bs_pendingPartialWithdrawals = []\<rparr>"

lemma ex_state_ok: "state_ok ex_state"
  by (simp add: state_ok_def ex_state_def)

text \<open>The same environment once the cache has the count of the three active validators.\<close>

definition ex_cached :: CoreEnv where
  "ex_cached = ex_env\<lparr>cache_ActiveIndicesCount := \<lambda>_. Inr 3\<rparr>"

lemma ex_env_counts: "counts_active mainnetBeaconConfig ex_env ex_state" "counts_active mainnetBeaconConfig ex_cached ex_state"
proof -
  have "activeCount ex_state (CurrentEpoch mainnetBeaconConfig ex_state) = 3" by code_simp
  then show "counts_active mainnetBeaconConfig ex_env ex_state" "counts_active mainnetBeaconConfig ex_cached ex_state"
    by (auto simp: counts_active_def ex_cached_def ex_env_def split: sum.split)
qed

lemma ex_exits:
  "case InitiateValidatorExit mainnetBeaconConfig ex_env 0 ex_state (ExitInformation mainnetBeaconConfig ex_state) of
     Inl e \<Rightarrow> False
   | Inr (s, info) \<Rightarrow> (case SlashValidator mainnetBeaconConfig ex_cached 1 s info of
       Inl e \<Rightarrow> False
     | Inr (s', info') \<Rightarrow> exitsAt s' 7 = 2 \<and> bs_balances s' = [32000000000, 32000000000, 34062500000])"
  by code_simp

theorem exit_queue_churn_witness:
  "\<exists>s info. exitsAt s 7 = 2 \<and> queue_ok mainnetBeaconConfig s info \<and> exitsAt s 7 \<le> max (exitsAt ex_state 7) 4"
proof -
  obtain s i where 1: "InitiateValidatorExit mainnetBeaconConfig ex_env 0 ex_state (ExitInformation mainnetBeaconConfig ex_state) = Inr (s, i)"
    using ex_exits by (auto split: sum.splits)
  obtain s' i' where 2: "SlashValidator mainnetBeaconConfig ex_cached 1 s i = Inr (s', i')" and 3: "exitsAt s' 7 = 2"
    using ex_exits unfolding 1 by (cases "SlashValidator mainnetBeaconConfig ex_cached 1 s i") auto
  have "exiting mainnetBeaconConfig ex_state s' i'"
    by (rule exiting_slash [OF exiting_initiate [OF exiting_start ex_env_counts(1) 1] ex_env_counts(2) 2])
  then have "queue_ok mainnetBeaconConfig s' i' \<and> exitsAt s' 7 \<le> max (exitsAt ex_state 7)
      (unat (ValidatorExitChurnLimit mainnetBeaconConfig (activeCount ex_state (CurrentEpoch mainnetBeaconConfig ex_state))))"
    by (intro exit_queue_churn)
      (simp_all add: state_ok_def ex_state_def CurrentEpoch_def ToEpoch_def mainnetBeaconConfig_def less_forkVersion_def exit_cfg_def)
  moreover have "unat (ValidatorExitChurnLimit mainnetBeaconConfig (activeCount ex_state (CurrentEpoch mainnetBeaconConfig ex_state))) = 4"
    by code_simp
  ultimately show ?thesis using 3 by metis
qed

section \<open>The balance churn of Electra\<close>











section \<open>The effect of a slashing\<close>

lemma exitEpochAndUpdateChurn_frame:
  "exitEpochAndUpdateChurn cfg tb x b = Inr (e, b') \<Longrightarrow>
     \<exists>t. b' = b\<lparr>bs_exitBalanceToConsume := t, bs_earliestExitEpoch := e\<rparr>"
  by (auto simp: exitEpochAndUpdateChurn_def Let_def rbind_eq_Inr split: if_splits)

lemma initiate_frame:
  assumes s: "state_ok s" and r: "InitiateValidatorExitForTotalBal cfg env idx tb s info = Inr (s', info')"
  shows "unat idx < length (bs_validators s)"
    and "v_ExitEpoch (bs_validators s ! unat idx) = FarFutureEpoch cfg"
    and "\<exists>e w t d. unat e + unat (MinValidatorWithdrawabilityDelay cfg) < 2 ^ 64 \<and> s' = s\<lparr>bs_validators := (bs_validators s)[unat idx :=
      (bs_validators s ! unat idx)\<lparr>v_ExitEpoch := e, v_WithdrawableEpoch := w\<rparr>], bs_exitBalanceToConsume := t, bs_earliestExitEpoch := d\<rparr>"
proof -
  show i: "unat idx < length (bs_validators s)" and far: "v_ExitEpoch (bs_validators s ! unat idx) = FarFutureEpoch cfg"
    using r s by (auto simp: InitiateValidatorExitForTotalBal_def state_simps split: if_splits)
  let ?v = "bs_validators s ! unat idx"
  obtain t e s1 info1 where s1: "s1 = s\<lparr>bs_exitBalanceToConsume := t, bs_earliestExitEpoch := e\<rparr>"
    and x: "setExit cfg idx ?v s1 info1 = Inr (s', info')"
  proof (cases "bs_version s < Electra")
    case True
    then have "\<exists>i. setExit cfg idx ?v s i = Inr (s', info')"
      using r s i by (auto simp: InitiateValidatorExitForTotalBal_def state_simps rbind_eq_Inr split: if_splits)
    then show ?thesis using that [of s "bs_earliestExitEpoch s" "bs_exitBalanceToConsume s"] by auto
  next
    case False
    then have "\<exists>e b i. exitEpochAndUpdateChurn cfg tb (v_EffectiveBalance ?v) s = Inr (e, b) \<and> setExit cfg idx ?v b i = Inr (s', info')"
      using r s i by (auto simp: InitiateValidatorExitForTotalBal_def ExitEpochAndUpdateChurnForTotalBal_def state_simps rbind_eq_Inr split: if_splits)
    then show ?thesis using that exitEpochAndUpdateChurn_frame by metis
  qed
  have ok: "state_ok s1" "unat idx < length (bs_validators s1)" using s i by (simp_all add: s1)
  note S = setExit_eq [OF ok x]
  obtain w where s': "s' = s1\<lparr>bs_validators := (bs_validators s1)[unat idx := ?v\<lparr>v_ExitEpoch := HighestExitEpoch info1, v_WithdrawableEpoch := w\<rparr>]\<rparr>"
    using S(3) by blast
  show "\<exists>e w t d. unat e + unat (MinValidatorWithdrawabilityDelay cfg) < 2 ^ 64 \<and> s' = s\<lparr>bs_validators := (bs_validators s)[unat idx :=
      ?v\<lparr>v_ExitEpoch := e, v_WithdrawableEpoch := w\<rparr>], bs_exitBalanceToConsume := t, bs_earliestExitEpoch := d\<rparr>"
    using S(2) by (intro exI [of _ "HighestExitEpoch info1"] exI [of _ w] exI [of _ t] exI [of _ e]) (simp add: s' s1)
qed

text \<open>Only the check of the validator reports that it has exited.\<close>

definition caches_ok :: "BeaconChainConfig \<Rightarrow> CoreEnv \<Rightarrow> bool" where
  "caches_ok cfg env \<longleftrightarrow> (\<forall>s e. ActiveValidatorCount cfg env s e \<noteq> Inl ErrAlreadyExited)"

lemma initiate_AlreadyExited:
  assumes "state_ok s" "caches_ok cfg env" and r: "InitiateValidatorExitForTotalBal cfg env idx tb s info = Inl ErrAlreadyExited"
  shows "unat idx < length (bs_validators s)" "v_ExitEpoch (bs_validators s ! unat idx) \<noteq> FarFutureEpoch cfg"
proof -
  have Add: "Add64 x y \<noteq> Inl ErrAlreadyExited" for x y by (simp add: Add64_eq)
  show i: "unat idx < length (bs_validators s)"
    using assms by (auto simp: InitiateValidatorExitForTotalBal_def state_simps split: if_splits)
  show "v_ExitEpoch (bs_validators s ! unat idx) \<noteq> FarFutureEpoch cfg"
  proof
    assume "v_ExitEpoch (bs_validators s ! unat idx) = FarFutureEpoch cfg"
    then show False using r i assms(1,2) Add
      by (auto simp: InitiateValidatorExitForTotalBal_def ExitEpochAndUpdateChurnForTotalBal_def exitEpochAndUpdateChurn_def
          initiateValidatorExitPreElectra_def setExit_def Epoch_SafeAddEpoch_def Epoch_SafeAdd_def caches_ok_def
          UpdateValidatorAtIndex_def sliceUpdateAt_def state_simps rbind_def Let_def split: if_splits sum.splits)
  qed
qed

text \<open>The state in which a slashing marks the validator: it has an exit epoch, the old one if there was one.\<close>

lemma initiated_state:
  assumes s: "state_ok s" and cfg: "exit_cfg cfg" "caches_ok cfg env"
    and 1: "InitiateValidatorExitForTotalBal cfg env idx tb s info = Inr (s1, info')
      \<or> InitiateValidatorExitForTotalBal cfg env idx tb s info = Inl ErrAlreadyExited \<and> s1 = s \<and> info' = info"
  obtains e w t d where "unat idx < length (bs_validators s)" "e \<noteq> FarFutureEpoch cfg"
    "v_ExitEpoch (bs_validators s ! unat idx) \<noteq> FarFutureEpoch cfg \<Longrightarrow> e = v_ExitEpoch (bs_validators s ! unat idx)"
    "s1 = s\<lparr>bs_validators := (bs_validators s)[unat idx := (bs_validators s ! unat idx)\<lparr>v_ExitEpoch := e, v_WithdrawableEpoch := w\<rparr>],
       bs_exitBalanceToConsume := t, bs_earliestExitEpoch := d\<rparr>"
  using 1
proof (elim disjE conjE)
  assume r: "InitiateValidatorExitForTotalBal cfg env idx tb s info = Inr (s1, info')"
  obtain e w t d where e: "unat e + unat (MinValidatorWithdrawabilityDelay cfg) < 2 ^ 64"
    and s1: "s1 = s\<lparr>bs_validators := (bs_validators s)[unat idx := (bs_validators s ! unat idx)\<lparr>v_ExitEpoch := e, v_WithdrawableEpoch := w\<rparr>],
       bs_exitBalanceToConsume := t, bs_earliestExitEpoch := d\<rparr>"
    using initiate_frame(3) [OF s r] by blast
  have "e \<noteq> FarFutureEpoch cfg" using e cfg(1) by (auto simp: exit_cfg_def word_less_unat)
  then show ?thesis by (rule that [OF initiate_frame(1) [OF s r] _ _ s1]) (simp add: initiate_frame(2) [OF s r])
next
  assume r: "InitiateValidatorExitForTotalBal cfg env idx tb s info = Inl ErrAlreadyExited" and s1: "s1 = s"
  note x = initiate_AlreadyExited [OF s cfg(2) r]
  show ?thesis
    by (rule that [where w = "v_WithdrawableEpoch (bs_validators s ! unat idx)" and t = "bs_exitBalanceToConsume s"
        and d = "bs_earliestExitEpoch s", OF x refl]) (simp add: s1)
qed

text \<open>The validator and the state after a slashing, next to the fields that may change.\<close>

definition slashedFrom :: "BeaconChainConfig \<Rightarrow> ValidatorIndex \<Rightarrow> BeaconState \<Rightarrow> BeaconState \<Rightarrow> bool" where
  "slashedFrom cfg idx s s' \<longleftrightarrow> (let v = bs_validators s ! unat idx; v' = bs_validators s' ! unat idx in
     unat idx < length (bs_validators s)
     \<and> v' = v\<lparr>v_Slashed := True, v_ExitEpoch := v_ExitEpoch v', v_WithdrawableEpoch := v_WithdrawableEpoch v'\<rparr>
     \<and> v_ExitEpoch v' \<noteq> FarFutureEpoch cfg \<and> (v_ExitEpoch v \<noteq> FarFutureEpoch cfg \<longrightarrow> v_ExitEpoch v' = v_ExitEpoch v)
     \<and> CurrentEpoch cfg s + EpochsPerSlashingsVector cfg \<le> v_WithdrawableEpoch v'
     \<and> s' = s\<lparr>bs_validators := (bs_validators s)[unat idx := v'], bs_balances := bs_balances s', bs_slashings := bs_slashings s',
          bs_exitBalanceToConsume := bs_exitBalanceToConsume s', bs_earliestExitEpoch := bs_earliestExitEpoch s'\<rparr>)"

lemma SlashValidator_spec:
  assumes s: "state_ok s" and cfg: "exit_cfg cfg" "caches_ok cfg env" and r: "SlashValidator cfg env idx s info = Inr (s', info')"
  shows "slashedFrom cfg idx s s' \<and> length (bs_balances s') = length (bs_balances s)
    \<and> (let eb = v_EffectiveBalance (bs_validators s ! unat idx); penalty = penaltyOf cfg (bs_version s) (unat eb);
          i = unat (CurrentEpoch cfg s mod EpochsPerSlashingsVector cfg) in
        bs_slashings s' = (bs_slashings s)[i := bs_slashings s ! i + eb]
        \<and> (\<exists>p. BeaconProposerIndex env (s'\<lparr>bs_balances := (bs_balances s)[unat idx :=
                DecreaseBalanceWithVal (bs_balances s ! unat idx) (of_nat penalty)]\<rparr>) = Inr p
             \<and> unat p < length (bs_validators s)
             \<and> (\<forall>j < length (bs_validators s). unat (bs_balances s' ! j) = unat (bs_balances s ! j)
                  - (if j = unat idx then penalty else 0)
                  + (if j = unat p then rewardOf cfg (bs_version s) (unat eb) else 0))))"
proof -
  obtain s1 v s2 where 1: "InitiateValidatorExitForTotalBal cfg env idx (TotalActiveBalance' info) s info = Inr (s1, info')
      \<or> InitiateValidatorExitForTotalBal cfg env idx (TotalActiveBalance' info) s info = Inl ErrAlreadyExited \<and> s1 = s \<and> info' = info"
    and 2: "markSlashed cfg idx s1 = Inr (v, s2)" "settleBalances cfg env idx v s2 = Inr s'"
    using SlashValidator_cases [OF r] by metis
  let ?v = "bs_validators s ! unat idx"
  obtain e w t d where i: "unat idx < length (bs_validators s)" and e: "e \<noteq> FarFutureEpoch cfg"
    and old: "v_ExitEpoch ?v \<noteq> FarFutureEpoch cfg \<Longrightarrow> e = v_ExitEpoch ?v"
    and s1: "s1 = s\<lparr>bs_validators := (bs_validators s)[unat idx := ?v\<lparr>v_ExitEpoch := e, v_WithdrawableEpoch := w\<rparr>],
       bs_exitBalanceToConsume := t, bs_earliestExitEpoch := d\<rparr>"
    using initiated_state [OF s cfg 1] by metis
  have ok1: "state_ok s1" using s by (simp add: s1 state_ok_def)
  note m = markSlashed_eq [OF ok1 2(1)]
  have cur: "CurrentEpoch cfg s1 = CurrentEpoch cfg s" by (simp add: CurrentEpoch_def s1)
  have v: "v = ?v\<lparr>v_Slashed := True, v_ExitEpoch := e,
      v_WithdrawableEpoch := MaxEpoch w (CurrentEpoch cfg s + EpochsPerSlashingsVector cfg)\<rparr>"
    using i by (simp add: m(2) s1 CurrentEpoch_def)
  have ok2: "state_ok s2" using ok1 unfolding m(4) by (simp add: state_ok_def)
  obtain bs and p :: u64 where bs: "s' = s2\<lparr>bs_balances := bs\<rparr>" "length bs = length (bs_balances s2)"
    "BeaconProposerIndex env (s2\<lparr>bs_balances := (bs_balances s2)[unat idx := DecreaseBalanceWithVal (bs_balances s2 ! unat idx)
       (of_nat (penaltyOf cfg (bs_version s2) (unat (v_EffectiveBalance v))))]\<rparr>) = Inr p" "unat p < length (bs_balances s2)"
    "\<And>j. j < length bs \<Longrightarrow> unat (bs ! j) = unat (bs_balances s2 ! j)
       - (if j = unat idx then penaltyOf cfg (bs_version s2) (unat (v_EffectiveBalance v)) else 0)
       + (if j = unat p then rewardOf cfg (bs_version s2) (unat (v_EffectiveBalance v)) else 0)"
    by (rule settleBalances_eq [OF ok2 2(2)]) blast
  have s2: "s2 = s\<lparr>bs_validators := (bs_validators s)[unat idx := v], bs_exitBalanceToConsume := t, bs_earliestExitEpoch := d,
      bs_slashings := (bs_slashings s)[unat (CurrentEpoch cfg s mod EpochsPerSlashingsVector cfg) :=
        bs_slashings s ! unat (CurrentEpoch cfg s mod EpochsPerSlashingsVector cfg) + v_EffectiveBalance ?v]\<rparr>"
    unfolding m(4) cur by (simp add: s1 v)
  have "slashedFrom cfg idx s s'"
    using i e old by (simp add: slashedFrom_def Let_def bs(1) s2 v MaxEpoch_def less_imp_le)
  moreover have "length (bs_balances s') = length (bs_validators s)" "length (bs_balances s') = length (bs_balances s)"
    using bs(2) state_okD(3) [OF s] by (simp_all add: bs(1) s2)
  ultimately show ?thesis using bs(3-5) state_okD(3) [OF s]
    unfolding Let_def by (auto simp: bs(1) s2 v intro!: exI [of _ p])
qed

lemma SlashValidator_frame:
  assumes s: "state_ok s" and cfg: "exit_cfg cfg" "caches_ok cfg env" and r: "SlashValidator cfg env idx s info = Inr (s', info')"
  shows "state_ok s'" "bs_slot s' = bs_slot s" "bs_version s' = bs_version s"
    "unat idx < length (bs_validators s)" "v_Slashed (bs_validators s' ! unat idx)" "v_ExitEpoch (bs_validators s' ! unat idx) \<noteq> FarFutureEpoch cfg"
    "length (bs_validators s') = length (bs_validators s)" "j \<noteq> unat idx \<Longrightarrow> bs_validators s' ! j = bs_validators s ! j"
proof -
  define w where "w = bs_validators s' ! unat idx"
  note S = SlashValidator_spec [OF assms, unfolded slashedFrom_def Let_def, folded w_def]
  then obtain bs sl t d where s': "s' = s\<lparr>bs_validators := (bs_validators s)[unat idx := w], bs_balances := bs, bs_slashings := sl,
      bs_exitBalanceToConsume := t, bs_earliestExitEpoch := d\<rparr>" "length bs = length (bs_balances s)"
    by blast
  show "state_ok s'" using s by (simp add: s' state_ok_def)
  show "bs_slot s' = bs_slot s" "bs_version s' = bs_version s" "length (bs_validators s') = length (bs_validators s)"
    "j \<noteq> unat idx \<Longrightarrow> bs_validators s' ! j = bs_validators s ! j" by (simp_all add: s'(1))
  show "unat idx < length (bs_validators s)" using S by blast
  have "w = (bs_validators s ! unat idx)\<lparr>v_Slashed := True, v_ExitEpoch := v_ExitEpoch w, v_WithdrawableEpoch := v_WithdrawableEpoch w\<rparr>"
    using S by blast
  then have "v_Slashed w = True" by (rule ssubst) simp
  then show "v_Slashed (bs_validators s' ! unat idx)" by (simp add: w_def)
  show "v_ExitEpoch (bs_validators s' ! unat idx) \<noteq> FarFutureEpoch cfg" using S unfolding w_def by blast
qed

text \<open>C13. A slashing marks the validator as slashed, with an exit epoch, the one it had if it was exiting already, and a withdrawable
  epoch past the slashings vector; it changes no other field of the validator, no other validator and nothing else of the state but the
  balances, the slashings and the churn of Electra. The effective balance is added to the slashings of the current epoch; the balances
  change by exactly the penalty of the slashed validator and the whistleblower reward of the proposer that \<^verbatim>\<open>BeaconProposerIndex\<close>
  finds in the state once the penalty is paid.\<close>

theorem SlashValidator_effect:
  assumes s: "state_ok s" and cfg: "exit_cfg cfg" "caches_ok cfg env" and r: "SlashValidator cfg env idx s info = Inr (s', info')"
  shows "slashedFrom cfg idx s s' \<and> length (bs_balances s') = length (bs_balances s)
    \<and> (let eb = v_EffectiveBalance (bs_validators s ! unat idx); penalty = penaltyOf cfg (bs_version s) (unat eb);
          i = unat (CurrentEpoch cfg s mod EpochsPerSlashingsVector cfg) in
        bs_slashings s' = (bs_slashings s)[i := bs_slashings s ! i + eb]
        \<and> (\<exists>p. BeaconProposerIndex env (s'\<lparr>bs_balances := (bs_balances s)[unat idx :=
                DecreaseBalanceWithVal (bs_balances s ! unat idx) (of_nat penalty)]\<rparr>) = Inr p
             \<and> unat p < length (bs_validators s)
             \<and> (\<forall>j < length (bs_validators s). unat (bs_balances s' ! j) = unat (bs_balances s ! j)
                  - (if j = unat idx then penalty else 0)
                  + (if j = unat p then rewardOf cfg (bs_version s) (unat eb) else 0))))"
  using SlashValidator_spec [OF assms] .

lemma ex_env_caches: "caches_ok cfg ex_env"
  by (auto simp: caches_ok_def ActiveValidatorCount_def Seed_def RandaoMix_def RandaoMixAtIndex_def sliceAt_def ex_env_def Let_def)

lemma ex_slash:
  "case SlashValidator mainnetBeaconConfig ex_env 1 ex_state (ExitInformation mainnetBeaconConfig ex_state) of
     Inl e \<Rightarrow> False
   | Inr (s, info) \<Rightarrow> bs_balances s = [32000000000, 32000000000, 34062500000] \<and> bs_slashings s = [0, 0, 32000000000]"
  by code_simp

theorem SlashValidator_effect_witness:
  "\<exists>s info. SlashValidator mainnetBeaconConfig ex_env 1 ex_state (ExitInformation mainnetBeaconConfig ex_state) = Inr (s, info)
     \<and> slashedFrom mainnetBeaconConfig 1 ex_state s
     \<and> bs_balances s = [32000000000, 32000000000, 34062500000] \<and> bs_slashings s = [0, 0, 32000000000]"
proof -
  obtain s i where r: "SlashValidator mainnetBeaconConfig ex_env 1 ex_state (ExitInformation mainnetBeaconConfig ex_state) = Inr (s, i)"
    and b: "bs_balances s = [32000000000, 32000000000, 34062500000] \<and> bs_slashings s = [0, 0, 32000000000]"
    using ex_slash by (auto split: sum.splits)
  have "slashedFrom mainnetBeaconConfig 1 ex_state s"
    using SlashValidator_effect [OF ex_state_ok exit_cfg_mainnet ex_env_caches r] by blast
  then show ?thesis using r b by blast
qed

end
