(* ===== verification/Slices.thy ===== *)
theory Slices
  imports Prelude "HOL-Library.Multiset"
begin

text \<open>
  The set operations on slices of \<^verbatim>\<open>container/slice/slice.go\<close>. The file has the same body for
  \<^verbatim>\<open>uint64\<close>, \<^verbatim>\<open>int64\<close>, slots and byte slices; it is written once over an element type here and each
  function is an instance. A Go map is an association list; no operation iterates over one.
\<close>

section \<open>Operations\<close>

text \<open>\<^verbatim>\<open>SubsetUint64\<close>: the occurrences of the second slice, and the loop over the first.\<close>

definition occurrences :: "u64 list \<Rightarrow> (u64 \<times> nat) list" where
  "occurrences b = fold (\<lambda>v m. AList.update v ((case map_of m v of None \<Rightarrow> 0 | Some c \<Rightarrow> c) + 1) m) b []"

fun subsetLoop :: "u64 list \<Rightarrow> (u64 \<times> nat) list \<Rightarrow> bool" where
  "subsetLoop [] m = True"
| "subsetLoop (v # vs) m =
     (case map_of m v of
        None \<Rightarrow> False
      | Some n \<Rightarrow> if n < 1 then False else subsetLoop vs (AList.update v (n - 1) m))"

definition SubsetUint64 :: "u64 list \<Rightarrow> u64 list \<Rightarrow> bool" where
  "SubsetUint64 a b = (if length a > length b then False else subsetLoop a (occurrences b))"

text \<open>The intersections: one element of the list with index \<open>i\<close>, and the loops.\<close>

definition intersectStep :: "nat \<Rightarrow> nat \<Rightarrow> 'a \<Rightarrow> ('a \<times> nat) list \<times> 'a list \<Rightarrow> ('a \<times> nat) list \<times> 'a list" where
  "intersectStep num i k = (\<lambda>(m, intersect).
     case map_of m k of
       None \<Rightarrow> (m, intersect)
     | Some c \<Rightarrow>
         if i = c then (AList.update k (c + 1) m, if c + 1 = num then intersect @ [k] else intersect)
         else (m, intersect))"

definition intersection :: "'a list list \<Rightarrow> 'a list" where
  "intersection s =
     (if length s = 0 then []
      else if length s = 1 then s ! 0
      else snd (fold (\<lambda>i. fold (intersectStep (length s) i) (s ! i)) [1..<length s]
             (fold (\<lambda>k. AList.update k 1) (s ! 0) [], [])))"

definition IntersectionUint64 :: "u64 list list \<Rightarrow> u64 list" where
  "IntersectionUint64 s = intersection s"

definition IntersectionInt64 :: "int list list \<Rightarrow> int list" where
  "IntersectionInt64 s = intersection s"

definition IntersectionSlot :: "Slot list list \<Rightarrow> Slot list" where
  "IntersectionSlot s = intersection s"

definition IntersectionByteSlices :: "u8 list list list \<Rightarrow> u8 list list" where
  "IntersectionByteSlices s = intersection s"

text \<open>The unions; an element repeated in a later slice is appended as often as it occurs there.\<close>

definition unionStep :: "'a list list \<Rightarrow> nat \<Rightarrow> 'a list \<times> ('a \<times> bool) list \<Rightarrow> 'a list \<times> ('a \<times> bool) list" where
  "unionStep s i = (\<lambda>(set', m).
     let m' = fold (\<lambda>k. AList.update k True) (s ! (i - 1)) m
     in (set' @ filter (\<lambda>k. map_of m' k = None) (s ! i), m'))"

definition unionAll :: "'a list list \<Rightarrow> 'a list" where
  "unionAll s =
     (if length s = 0 then []
      else if length s = 1 then s ! 0
      else fst (fold (unionStep s) [1..<length s] (s ! 0, [])))"

definition UnionUint64 :: "u64 list list \<Rightarrow> u64 list" where
  "UnionUint64 s = unionAll s"

definition UnionInt64 :: "int list list \<Rightarrow> int list" where
  "UnionInt64 s = unionAll s"

definition UnionByteSlices :: "u8 list list list \<Rightarrow> u8 list list" where
  "UnionByteSlices s = unionAll s"

definition SetUint64 :: "u64 list \<Rightarrow> u64 list" where
  "SetUint64 a = snd (fold (\<lambda>idx (intMap, cleaned).
     if map_of intMap idx = Some True then (intMap, cleaned)
     else (AList.update idx True intMap, cleaned @ [idx])) a ([], []))"

fun IsUint64Sorted :: "u64 list \<Rightarrow> bool" where
  "IsUint64Sorted (x # y # zs) = (if x > y then False else IsUint64Sorted (y # zs))"
| "IsUint64Sorted a = True"

text \<open>The differences: the elements of the second slice that are not in the first.\<close>

definition notIn :: "'a list \<Rightarrow> 'a list \<Rightarrow> 'a list" where
  "notIn a b =
     (let m = fold (\<lambda>k. AList.update k True) a []
      in fold (\<lambda>k set'. if map_of m k = None then set' @ [k] else set') b [])"

definition NotUint64 :: "u64 list \<Rightarrow> u64 list \<Rightarrow> u64 list" where
  "NotUint64 a b = notIn a b"

definition NotInt64 :: "int list \<Rightarrow> int list \<Rightarrow> int list" where
  "NotInt64 a b = notIn a b"

definition NotSlot :: "Slot list \<Rightarrow> Slot list \<Rightarrow> Slot list" where
  "NotSlot a b = notIn a b"

definition IsInUint64 :: "u64 \<Rightarrow> u64 list \<Rightarrow> bool" where
  "IsInUint64 a b = List.member b a"

definition IsInInt64 :: "int \<Rightarrow> int list \<Rightarrow> bool" where
  "IsInInt64 a b = List.member b a"

definition IsInSlots :: "Slot \<Rightarrow> Slot list \<Rightarrow> bool" where
  "IsInSlots a b = List.member b a"

text \<open>\<^verbatim>\<open>strings.Split(val, ",")\<close> and the concatenation of its results.\<close>

fun splitComma :: "string \<Rightarrow> string list" where
  "splitComma [] = [[]]"
| "splitComma (c # cs) =
     (if c = CHR '','' then [] # splitComma cs
      else case splitComma cs of [] \<Rightarrow> [[c]] | w # ws \<Rightarrow> (c # w) # ws)"

definition SplitCommaSeparated :: "string list \<Rightarrow> string list" where
  "SplitCommaSeparated arr = fold (\<lambda>val result. result @ splitComma val) arr []"

definition SplitOffset :: "u64 \<Rightarrow> u64 \<Rightarrow> u64 \<Rightarrow> u64 result" where
  "SplitOffset listSize chunks index =
     (if chunks = 0 then Inl Panic else Inr ((listSize * index) div chunks))"

definition Unique :: "'a list \<Rightarrow> 'a list" where
  "Unique a =
     (if length a \<le> 1 then a
      else snd (fold (\<lambda>x (found, result).
        if map_of found x = Some True then (found, result) else (AList.update x True found, result @ [x])) a ([], [])))"

text \<open>\<^verbatim>\<open>Reverse\<close> swaps in place from both ends.\<close>

function reverseLoop :: "nat \<Rightarrow> int \<Rightarrow> 'a list \<Rightarrow> 'a list" where
  "reverseLoop i j s =
     (if int i < j then reverseLoop (i + 1) (j - 1) (s[i := s ! nat j, nat j := s ! i]) else s)"
  by pat_completeness auto

termination reverseLoop
  by (relation "measure (\<lambda>(i, j, s). nat (j - int i))") auto

definition Reverse :: "'a list \<Rightarrow> 'a list" where
  "Reverse s = reverseLoop 0 (int (length s) - 1) s"

definition VerifyMaxLength :: "'a list \<Rightarrow> u64 \<Rightarrow> unit result" where
  "VerifyMaxLength v maxLen = (if of_nat (length v) > maxLen then Inl ErrMaxLength else Inr ())"

section \<open>Subsets\<close>

definition held :: "('a \<times> nat) list \<Rightarrow> 'a \<Rightarrow> nat" where
  "held m v = (case map_of m v of None \<Rightarrow> 0 | Some n \<Rightarrow> n)"

lemma held_update [simp]: "held (AList.update k n m) v = (if v = k then n else held m v)"
  by (simp add: held_def update_conv')

lemma held_fold:
  "held (fold (\<lambda>v m. AList.update v ((case map_of m v of None \<Rightarrow> 0 | Some c \<Rightarrow> c) + 1) m) b m) v = count (mset b) v + held m v"
  by (induction b arbitrary: m) (auto simp: held_def update_conv')

lemma held_occurrences: "held (occurrences b) v = count (mset b) v"
  by (simp only: occurrences_def held_fold) (simp add: held_def)

lemma subsetLoop_iff: "subsetLoop a m \<longleftrightarrow> (\<forall>v. count (mset a) v \<le> held m v)"
proof (induction a m rule: subsetLoop.induct)
  case (2 v vs m)
  show ?case
  proof (cases "held m v")
    case 0
    then have "\<not> subsetLoop (v # vs) m" by (auto simp: held_def split: option.splits)
    moreover have "\<not> count (mset (v # vs)) v \<le> held m v" using 0 by simp
    ultimately show ?thesis by blast
  next
    case (Suc n)
    then have m: "map_of m v = Some (Suc n)" by (auto simp: held_def split: option.splits)
    then have "subsetLoop (v # vs) m \<longleftrightarrow> (\<forall>x. count (mset vs) x \<le> held (AList.update v n m) x)" using 2 by simp
    also have "\<dots> \<longleftrightarrow> (\<forall>x. count (mset (v # vs)) x \<le> held m x)" using Suc by (simp split: if_splits) (metis Suc_le_mono)
    finally show ?thesis .
  qed
qed simp

text \<open>C39. \<^verbatim>\<open>SubsetUint64\<close> holds exactly if every element occurs in the second slice at least as often
  as in the first: the inclusion of the multisets of their elements.\<close>

theorem SubsetUint64_multiset: "SubsetUint64 a b \<longleftrightarrow> mset a \<subseteq># mset b"
proof -
  have "SubsetUint64 a b \<longleftrightarrow> length a \<le> length b \<and> mset a \<subseteq># mset b"
    by (simp add: SubsetUint64_def subsetLoop_iff held_occurrences subseteq_mset_def)
  then show ?thesis using size_mset_mono [of "mset a" "mset b"] by auto
qed

section \<open>Intersections\<close>

text \<open>
  The list with index \<open>i\<close> raises the entries that stand at \<open>i\<close> and occur in it, once each; the last list
  appends the elements it raises.
\<close>

lemma map_of_fold_update: "map_of (fold (\<lambda>k. AList.update k c) xs m) k = (if k \<in> set xs then Some c else map_of m k)"
  by (induction xs arbitrary: m) (auto simp: update_conv')

lemma intersect_list:
  "fold (intersectStep num i) xs (m, out) = (m', out') \<Longrightarrow>
     (\<forall>k. map_of m' k = (if map_of m k = Some i \<and> k \<in> set xs then Some (i + 1) else map_of m k))
     \<and> set out' = set out \<union> (if i + 1 = num then {k \<in> set xs. map_of m k = Some i} else {})
     \<and> (distinct out \<and> (\<forall>k \<in> set out. map_of m k \<noteq> Some i) \<longrightarrow> distinct out')"
proof (induction xs arbitrary: m out)
  case (Cons x xs)
  obtain m1 out1 where step: "intersectStep num i x (m, out) = (m1, out1)" by fastforce
  have m1: "map_of m1 k = (if map_of m x = Some i \<and> k = x then Some (i + 1) else map_of m k)" for k
    using step by (auto simp: intersectStep_def update_conv' split: option.splits if_splits)
  have out1: "out1 = (if map_of m x = Some i \<and> i + 1 = num then out @ [x] else out)"
    using step by (auto simp: intersectStep_def update_conv' split: option.splits if_splits)
  have "fold (intersectStep num i) xs (m1, out1) = (m', out')" using Cons.prems step by simp
  note IH = Cons.IH [OF this]
  show ?case
  proof (intro conjI)
    show "\<forall>k. map_of m' k = (if map_of m k = Some i \<and> k \<in> set (x # xs) then Some (i + 1) else map_of m k)"
      using IH by (auto simp: m1)
    show "set out' = set out \<union> (if i + 1 = num then {k \<in> set (x # xs). map_of m k = Some i} else {})"
      using IH by (auto simp: m1 out1)
    show "distinct out \<and> (\<forall>k \<in> set out. map_of m k \<noteq> Some i) \<longrightarrow> distinct out'"
    proof
      assume *: "distinct out \<and> (\<forall>k \<in> set out. map_of m k \<noteq> Some i)"
      then have "distinct out1 \<and> (\<forall>k \<in> set out1. map_of m1 k \<noteq> Some i)"
        by (cases "map_of m x = Some i"; cases "i + 1 = num") (auto simp: m1 out1)
      with IH show "distinct out'" by blast
    qed
  qed
qed simp

text \<open>After the lists up to \<open>i\<close> the entry of an element is \<open>i + 1\<close> exactly if all of them have it.\<close>

definition intersected :: "'a list list \<Rightarrow> nat \<Rightarrow> ('a \<times> nat) list \<times> 'a list \<Rightarrow> bool" where
  "intersected s i = (\<lambda>(m, out).
     (\<forall>k. map_of m k = Some (i + 1) \<longleftrightarrow> (\<forall>j \<le> i. k \<in> set (s ! j)))
     \<and> (\<forall>k c. map_of m k = Some c \<longrightarrow> c \<le> i + 1)
     \<and> distinct out \<and> set out = (if i + 1 = length s then {k. \<forall>j \<le> i. k \<in> set (s ! j)} else {}))"

lemma intersected_step:
  assumes "intersected s i st" and "i + 1 < length s"
  shows "intersected s (i + 1) (fold (intersectStep (length s) (i + 1)) (s ! (i + 1)) st)"
proof -
  obtain m out where st: "st = (m, out)" by (cases st)
  obtain m' out' where f: "fold (intersectStep (length s) (i + 1)) (s ! (i + 1)) (m, out) = (m', out')" by fastforce
  note L = intersect_list [OF f]
  have I: "map_of m k = Some (i + 1) \<longleftrightarrow> (\<forall>j \<le> i. k \<in> set (s ! j))" "out = []"
    "map_of m k = Some c \<Longrightarrow> c \<le> i + 1" for k c
    using assms by (auto simp: intersected_def st)
  have all: "(\<forall>j \<le> i + 1. k \<in> set (s ! j)) \<longleftrightarrow> (\<forall>j \<le> i. k \<in> set (s ! j)) \<and> k \<in> set (s ! (i + 1))" for k
    by (auto simp: le_Suc_eq)
  have m': "map_of m' k = Some (i + 1 + 1) \<longleftrightarrow> (\<forall>j \<le> i + 1. k \<in> set (s ! j))" for k
  proof -
    have "map_of m k \<noteq> Some (i + 1 + 1)" using I(3) [of k "i + 1 + 1"] by auto
    then show ?thesis unfolding all using conjunct1 [OF L] I(1) [of k] by simp
  qed
  moreover have "c \<le> i + 1 + 1" if "map_of m' k = Some c" for k c
    using conjunct1 [OF L] that I(3) [of k c] by (auto split: if_splits)
  moreover have "distinct out'" using L I(2) by simp
  moreover have "set out' = (if i + 1 + 1 = length s then {k. \<forall>j \<le> i + 1. k \<in> set (s ! j)} else {})"
    using L I(2) unfolding all I(1) [symmetric] by auto
  ultimately show ?thesis unfolding st f intersected_def prod.case by blast
qed

lemma intersection_loops:
  assumes "2 \<le> length s"
  shows "intersected s (length s - 1)
    (fold (\<lambda>i. fold (intersectStep (length s) i) (s ! i)) [1..<length s] (fold (\<lambda>k. AList.update k 1) (s ! 0) [], []))"
proof -
  have I: "intersected s i
    (fold (\<lambda>i. fold (intersectStep (length s) i) (s ! i)) [1..<i + 1] (fold (\<lambda>k. AList.update k 1) (s ! 0) [], []))"
    if "i < length s" for i
    using that
  proof (induction i)
    case 0
    then show ?case using assms by (auto simp: intersected_def map_of_fold_update split: if_splits)
  next
    case (Suc i)
    then show ?case using intersected_step [of s i] by simp
  qed
  have "length s - 1 < length s" and eq: "length s - 1 + 1 = length s" using assms by simp_all
  from I [OF this(1)] show ?thesis unfolding eq .
qed

lemma IntersectionUint64_set:
  assumes "2 \<le> length s"
  shows "set (IntersectionUint64 s) = \<Inter> (set ` set s) \<and> distinct (IntersectionUint64 s)"
proof -
  obtain m out where st: "fold (\<lambda>i. fold (intersectStep (length s) i) (s ! i)) [1..<length s]
      (fold (\<lambda>k. AList.update k 1) (s ! 0) [], []) = (m, out)" by fastforce
  have out: "IntersectionUint64 s = out" using assms st by (auto simp: IntersectionUint64_def intersection_def)
  have n: "length s - 1 + 1 = length s" using assms by simp
  have I: "distinct out" "set out = {k. \<forall>j \<le> length s - 1. k \<in> set (s ! j)}"
    using intersection_loops [OF assms] unfolding st intersected_def n by simp_all
  have "j \<le> length s - 1 \<longleftrightarrow> j < length s" for j using assms by arith
  then have "(\<forall>j \<le> length s - 1. k \<in> set (s ! j)) \<longleftrightarrow> (\<forall>xs \<in> set s. k \<in> set xs)" for k
    by (simp only: all_set_conv_all_nth)
  with I out show ?thesis by auto
qed

text \<open>C40. The intersection of two or more slices has exactly the elements that all of them have, each once.\<close>

theorem IntersectionUint64_exact:
  assumes "2 \<le> length s"
  shows "set (IntersectionUint64 s) = \<Inter> (set ` set s) \<and> distinct (IntersectionUint64 s)"
  using IntersectionUint64_set [OF assms] .

theorem IntersectionUint64_exact_witness:
  "set (IntersectionUint64 [[3, 1, 3], [3, 2, 3], [5, 3]]) = {3}"
  using IntersectionUint64_exact [of "[[3, 1, 3], [3, 2, 3], [5, 3]]"] by simp

section \<open>Splitting and reversing\<close>

lemma slices_concat:
  assumes "\<And>i. i < k \<Longrightarrow> f i \<le> f (i + 1)"
  shows "concat (map (\<lambda>i. take (f (i + 1) - f i) (drop (f i) xs)) [0..<k]) = take (f k - f 0) (drop (f 0) xs)"
  using assms
proof (induction k)
  case (Suc k)
  have mono: "f 0 \<le> f i" if "i \<le> k" for i
    using that Suc.prems by (induction i) (auto intro: order.trans)
  have "f 0 \<le> f k" "f k \<le> f (k + 1)" using mono Suc.prems by auto
  then have split: "f (Suc k) - f 0 = (f k - f 0) + (f (Suc k) - f k)" and fk: "f k - f 0 + f 0 = f k" by simp_all
  have "take (f (Suc k) - f 0) (drop (f 0) xs) = take (f k - f 0) (drop (f 0) xs) @ take (f (Suc k) - f k) (drop (f k) xs)"
    unfolding split take_add drop_drop fk ..
  then show ?case using Suc by simp
qed simp

text \<open>The offset of a chunk where the products fit into 64 bits.\<close>

definition chunkStart :: "nat \<Rightarrow> nat \<Rightarrow> nat \<Rightarrow> nat" where
  "chunkStart n k i = n * i div k"

lemma SplitOffset_exact:
  assumes "0 < unat chunks" and "unat n * unat chunks < 2 ^ 64" and "unat i \<le> unat chunks"
  shows "SplitOffset n chunks i = Inr (of_nat (chunkStart (unat n) (unat chunks) (unat i)))"
    "unat (of_nat (chunkStart (unat n) (unat chunks) (unat i)) :: u64) = chunkStart (unat n) (unat chunks) (unat i)"
proof -
  have "unat n * unat i \<le> unat n * unat chunks" using assms(3) by (rule mult_le_mono2)
  then have fits: "unat n * unat i < 2 ^ 64" using assms(2) by (rule le_less_trans)
  then have prod: "unat (n * i) = unat n * unat i" by (intro unat_mult_exact) simp
  have "chunkStart (unat n) (unat chunks) (unat i) < 2 ^ 64"
    using fits le_less_trans [OF div_le_dividend] by (simp add: chunkStart_def)
  then show u: "unat (of_nat (chunkStart (unat n) (unat chunks) (unat i)) :: u64) = chunkStart (unat n) (unat chunks) (unat i)"
    by (simp add: unat_of_nat)
  then have "unat (n * i div chunks) = unat (of_nat (chunkStart (unat n) (unat chunks) (unat i)) :: u64)"
    by (simp add: unat_div_u64 prod chunkStart_def)
  then show "SplitOffset n chunks i = Inr (of_nat (chunkStart (unat n) (unat chunks) (unat i)))"
    using assms(1) by (auto simp: SplitOffset_def u64_eq_iff)
qed

text \<open>The offsets of a list of \<open>n\<close> elements in \<open>k\<close> chunks cut it into \<open>k\<close> slices in their order, and these slices make up the list,
  none longer than \<open>n div k + 1\<close>.\<close>

lemma chunks_partition:
  assumes "0 < k"
  shows "chunkStart n k i \<le> chunkStart n k (i + 1)" "chunkStart n k (i + 1) - chunkStart n k i \<le> n div k + 1"
    "i \<le> k \<Longrightarrow> chunkStart n k i \<le> n"
    "length xs = n \<Longrightarrow> concat (map (\<lambda>i. take (chunkStart n k (i + 1) - chunkStart n k i) (drop (chunkStart n k i) xs)) [0..<k]) = xs"
proof -
  show step: "chunkStart n k i \<le> chunkStart n k (i + 1)" for i unfolding chunkStart_def by (intro div_le_mono) simp
  have "n * i mod k + n mod k < 2 * k" using mod_less_divisor [OF assms] by (simp add: add_strict_mono mult_2)
  then have "(n * i mod k + n mod k) div k \<le> 1" using assms by (simp add: less_mult_imp_div_less less_Suc_eq_le [symmetric])
  then have "n * (i + 1) div k \<le> n * i div k + n div k + 1"
    using div_add1_eq [of "n * i" n k] by (simp add: add_mult_distrib2 add.commute)
  then show "chunkStart n k (i + 1) - chunkStart n k i \<le> n div k + 1" by (simp add: chunkStart_def)
  show "chunkStart n k i \<le> n" if "i \<le> k"
    using div_le_mono [OF mult_le_mono2 [OF that, of n], of k] assms by (simp add: chunkStart_def)
  show "concat (map (\<lambda>i. take (chunkStart n k (i + 1) - chunkStart n k i) (drop (chunkStart n k i) xs)) [0..<k]) = xs" if "length xs = n"
    using slices_concat [of k "chunkStart n k" xs] step assms that by (simp add: chunkStart_def)
qed

declare reverseLoop.simps [simp del]

lemma reverseLoop_eq:
  "int i + j = int (length s) - 1 \<Longrightarrow>
     reverseLoop i j s = map (\<lambda>x. if i \<le> x \<and> int x \<le> j then s ! (length s - 1 - x) else s ! x) [0..<length s]"
proof (induction i j s rule: reverseLoop.induct)
  case (1 i j s)
  show ?case
  proof (cases "int i < j")
    case True
    let ?s = "s[i := s ! nat j, nat j := s ! i]"
    have j: "nat j = length s - 1 - i" "i < length s" "nat j < length s" using True "1.prems" by arith+
    have "reverseLoop i j s = reverseLoop (i + 1) (j - 1) ?s" using True by (subst reverseLoop.simps) simp
    also have "\<dots> = map (\<lambda>x. if i + 1 \<le> x \<and> int x \<le> j - 1 then ?s ! (length s - 1 - x) else ?s ! x) [0..<length s]"
      using 1 True by simp
    also have "\<dots> = map (\<lambda>x. if i \<le> x \<and> int x \<le> j then s ! (length s - 1 - x) else s ! x) [0..<length s]"
    proof (rule map_cong [OF refl])
      fix x assume "x \<in> set [0..<length s]"
      then consider "x = i" | "x = nat j" | "x \<noteq> i" "x \<noteq> nat j" "x < length s" by auto
      then show "(if i + 1 \<le> x \<and> int x \<le> j - 1 then ?s ! (length s - 1 - x) else ?s ! x)
          = (if i \<le> x \<and> int x \<le> j then s ! (length s - 1 - x) else s ! x)"
        using j True by cases (auto simp: nth_list_update)
    qed
    finally show ?thesis .
  next
    case False
    have same: "(if i \<le> x \<and> int x \<le> j then s ! (length s - 1 - x) else s ! x) = s ! x" for x
    proof (cases "i \<le> x \<and> int x \<le> j")
      case True
      then have "x = length s - 1 - x" using False "1.prems" by arith
      then show ?thesis using True by simp
    next
      case other: False
      then show ?thesis by (rule if_not_P)
    qed
    have "reverseLoop i j s = s" using False by (subst reverseLoop.simps) simp
    then show ?thesis by (simp only: same map_nth)
  qed
qed

text \<open>\<^verbatim>\<open>Reverse\<close>, which swaps the elements in place from both ends, leaves the reversed slice.\<close>

theorem Reverse_correct: "Reverse s = rev s"
proof (rule nth_equalityI)
  have eq: "Reverse s = map (\<lambda>x. if 0 \<le> x \<and> int x \<le> int (length s) - 1 then s ! (length s - 1 - x) else s ! x) [0..<length s]"
    unfolding Reverse_def by (rule reverseLoop_eq) simp
  show "length (Reverse s) = length (rev s)" by (simp add: eq)
  show "Reverse s ! x = rev s ! x" if "x < length (Reverse s)" for x
    using that by (simp add: eq rev_nth)
qed

section \<open>Differences, unions and duplicates\<close>

lemma fold_filter: "fold (\<lambda>k acc. if P k then acc @ [k] else acc) b acc = acc @ filter P b"
  by (induction b arbitrary: acc) auto

lemma notIn_eq: "notIn a b = filter (\<lambda>k. k \<notin> set a) b"
  by (simp add: notIn_def fold_filter map_of_fold_update)

text \<open>\<^verbatim>\<open>NotInt64\<close> returns the elements of its second argument that its first one does not have.\<close>

theorem NotInt64_second: "NotInt64 a b = filter (\<lambda>k. k \<notin> set a) b"
  by (simp add: NotInt64_def notIn_eq)

lemma unionStep_set:
  assumes "set (fst st) = (\<Union>j \<le> i. set (s ! j))" and "\<And>k. map_of (snd st) k \<noteq> None \<longleftrightarrow> (\<exists>j < i. k \<in> set (s ! j))"
  shows "set (fst (unionStep s (i + 1) st)) = (\<Union>j \<le> i + 1. set (s ! j))"
    and "map_of (snd (unionStep s (i + 1) st)) k \<noteq> None \<longleftrightarrow> (\<exists>j < i + 1. k \<in> set (s ! j))"
proof -
  obtain out m where st: "st = (out, m)" by (cases st)
  have m: "map_of (fold (\<lambda>k. AList.update k True) (s ! i) m) k = None \<longleftrightarrow> (\<forall>j \<le> i. k \<notin> set (s ! j))" for k
    using assms(2) [of k] by (auto simp: st map_of_fold_update le_less)
  show "set (fst (unionStep s (i + 1) st)) = (\<Union>j \<le> i + 1. set (s ! j))"
    using assms(1) m by (auto simp: st unionStep_def Let_def le_Suc_eq)
  show "map_of (snd (unionStep s (i + 1) st)) k \<noteq> None \<longleftrightarrow> (\<exists>j < i + 1. k \<in> set (s ! j))"
    using m [of k] by (auto simp: st unionStep_def Let_def less_Suc_eq_le)
qed

lemma unionAll_loop:
  assumes "i < length s"
  shows "set (fst (fold (unionStep s) [1..<i + 1] (s ! 0, []))) = (\<Union>j \<le> i. set (s ! j))
    \<and> (\<forall>k. map_of (snd (fold (unionStep s) [1..<i + 1] (s ! 0, []))) k \<noteq> None \<longleftrightarrow> (\<exists>j < i. k \<in> set (s ! j)))"
  using assms
proof (induction i)
  case (Suc i)
  then have "set (fst (fold (unionStep s) [1..<i + 1] (s ! 0, []))) = (\<Union>j \<le> i. set (s ! j))"
    "\<And>k. map_of (snd (fold (unionStep s) [1..<i + 1] (s ! 0, []))) k \<noteq> None \<longleftrightarrow> (\<exists>j < i. k \<in> set (s ! j))" by auto
  note step = unionStep_set [OF this]
  have "fold (unionStep s) [1..<Suc i + 1] (s ! 0, []) = unionStep s (i + 1) (fold (unionStep s) [1..<i + 1] (s ! 0, []))"
    by simp
  then show ?case using step by (simp only: Suc_eq_plus1) simp
qed simp

lemma UnionUint64_set: "set (UnionUint64 s) = \<Union> (set ` set s)"
proof (cases "length s \<le> 1")
  case True
  then show ?thesis by (cases s; cases "tl s") (auto simp: UnionUint64_def unionAll_def)
next
  case False
  then have "length s - 1 < length s" and n: "length s - 1 + 1 = length s" by simp_all
  from conjunct1 [OF unionAll_loop [OF this(1)]] have "set (UnionUint64 s) = (\<Union>j \<le> length s - 1. set (s ! j))"
    unfolding n using False by (auto simp: UnionUint64_def unionAll_def)
  moreover have "j \<le> length s - 1 \<longleftrightarrow> j < length s" for j using False by arith
  ultimately show ?thesis by (auto simp: set_conv_nth [of s])
qed

text \<open>\<^verbatim>\<open>SetUint64\<close> and \<^verbatim>\<open>Unique\<close> keep the first occurrence of every element.\<close>

lemma fold_seen:
  "(\<And>k. map_of m k = Some True \<longleftrightarrow> k \<in> set out) \<Longrightarrow> distinct out \<Longrightarrow>
   fold (\<lambda>x (found, result). if map_of found x = Some True then (found, result)
     else (AList.update x True found, result @ [x])) a (m, out) = (m', out') \<Longrightarrow>
   distinct out' \<and> set out' = set out \<union> set a"
proof (induction a arbitrary: m out)
  case (Cons x a)
  show ?case
  proof (cases "map_of m x = Some True")
    case True
    then show ?thesis using Cons.IH [OF Cons.prems(1,2)] Cons.prems(1,3) by auto
  next
    case False
    then have "distinct out' \<and> set out' = set (out @ [x]) \<union> set a"
      using Cons.prems by (intro Cons.IH [of "AList.update x True m"]) (auto simp: update_conv')
    then show ?thesis by auto
  qed
qed simp

lemma Unique_distinct: "distinct (Unique a) \<and> set (Unique a) = set a"
proof (cases "length a \<le> 1")
  case True
  then show ?thesis by (cases a; cases "tl a") (auto simp: Unique_def)
next
  case False
  obtain m out where "fold (\<lambda>x (found, result). if map_of found x = Some True then (found, result)
     else (AList.update x True found, result @ [x])) a ([], []) = (m, out)" by fastforce
  with fold_seen [OF _ _ this] False show ?thesis by (auto simp: Unique_def)
qed

end
