(* ===== verification/Slashing_Verify.thy ===== *)
theory Slashing_Verify
  imports Exit_Queue Slasher_Service Slices
begin

text \<open>
  Slashings in blocks: their verification and processing (\<^verbatim>\<open>core/blocks/attester_slashing.go\<close>,
  \<^verbatim>\<open>proposer_slashing.go\<close>, \<^verbatim>\<open>attestation.go\<close>), with the helpers on attestations
  (\<^verbatim>\<open>proto/prysm/v1alpha1/attestation\<close> and \<^verbatim>\<open>slashings\<close>).

  The BLS signature checks, with the domains they compute, are the fields of \<open>SigEnv\<close>. The two attestations of an
  attester slashing and the two headers of a proposer slashing are never nil; their contents may be.
\<close>

section \<open>Attestations\<close>

record SigEnv =
  sig_IndexedAtt :: "BeaconState \<Rightarrow> IndexedAtt \<Rightarrow> unit result"
  sig_Header :: "BeaconState \<Rightarrow> ValidatorIndex \<Rightarrow> Epoch \<Rightarrow> SignedBeaconBlockHeader \<Rightarrow> unit result"

definition CheckPointIsEqual :: "AttCheckpoint \<Rightarrow> AttCheckpoint \<Rightarrow> bool" where
  "CheckPointIsEqual c1 c2 =
     (if ac_Epoch c1 \<noteq> ac_Epoch c2 then False else if ac_Root c1 \<noteq> ac_Root c2 then False else True)"

definition AttDataIsEqual :: "AttestationData \<Rightarrow> AttestationData \<Rightarrow> bool result" where
  "AttDataIsEqual d1 d2 =
     (if ad_Slot d1 \<noteq> ad_Slot d2 then Inr False
      else if ad_CommitteeIndex d1 \<noteq> ad_CommitteeIndex d2 then Inr False
      else if ad_BeaconBlockRoot d1 \<noteq> ad_BeaconBlockRoot d2 then Inr False
      else case (ad_Source d1, ad_Source d2) of
          (Some s1, Some s2) \<Rightarrow>
            if ac_Epoch s1 \<noteq> ac_Epoch s2 then Inr False
            else if ac_Root s1 \<noteq> ac_Root s2 then Inr False
            else (case (ad_Target d1, ad_Target d2) of
                (Some t1, Some t2) \<Rightarrow>
                  if ac_Epoch t1 \<noteq> ac_Epoch t2 then Inr False
                  else if ac_Root t1 \<noteq> ac_Root t2 then Inr False
                  else Inr True
              | _ \<Rightarrow> Inl Panic)
        | _ \<Rightarrow> Inl Panic)"

definition IsSurround :: "IndexedAtt \<Rightarrow> IndexedAtt \<Rightarrow> bool result" where
  "IsSurround a b =
     (case (att_Data (attFields a), att_Data (attFields b)) of
        (Some da, Some db) \<Rightarrow> (case (ad_Source da, ad_Source db, ad_Target da, ad_Target db) of
            (Some sa, Some sb, Some ta, Some tb) \<Rightarrow> Inr (ac_Epoch sa < ac_Epoch sb \<and> ac_Epoch tb < ac_Epoch ta)
          | _ \<Rightarrow> Inl Panic)
      | _ \<Rightarrow> Inl Panic)"

definition SigningRootsDiffer :: "u8 list \<Rightarrow> u8 list \<Rightarrow> bool" where
  "SigningRootsDiffer existing incoming = (if length existing = 0 then True else existing \<noteq> incoming)"

fun uniquelySorted :: "u64 list \<Rightarrow> bool" where
  "uniquelySorted (x # y # zs) = (if x \<ge> y then False else uniquelySorted (y # zs))"
| "uniquelySorted is = True"

definition IsValidAttestationIndices :: "IndexedAtt \<Rightarrow> u64 \<Rightarrow> u64 \<Rightarrow> unit result" where
  "IsValidAttestationIndices att committeeValMax maxCommittees =
     (case att_Data (attFields att) of
        None \<Rightarrow> Inl ErrNilData
      | Some d \<Rightarrow>
          if ad_Target d = None \<or> ad_Source d = None then Inl ErrNilData
          else let indices = att_AttestingIndices (attFields att) in
            if length indices = 0 then Inl ErrEmptyIndices
            else if IndexedAtt_Version att < Electra \<and> of_nat (length indices) > committeeValMax then Inl ErrTooManyIndices
            else if \<not> IndexedAtt_Version att < Electra \<and> of_nat (length indices) > committeeValMax * maxCommittees
              then Inl ErrTooManyIndices
            else if \<not> uniquelySorted indices then Inl ErrUnsortedIndices
            else Inr ())"

definition VerifyIndexedAttestation :: "BeaconChainConfig \<Rightarrow> SigEnv \<Rightarrow> BeaconState \<Rightarrow> IndexedAtt \<Rightarrow> unit result" where
  "VerifyIndexedAttestation cfg sig s att =
     rbind (IsValidAttestationIndices att (MaxValidatorsPerCommittee cfg) (MaxCommitteesPerSlot cfg)) (\<lambda>_.
       sig_IndexedAtt sig s att)"

section \<open>Attester slashings\<close>

definition IsSlashableAttestationData :: "AttestationData option \<Rightarrow> AttestationData option \<Rightarrow> bool result" where
  "IsSlashableAttestationData data1 data2 =
     (case (data1, data2) of
        (Some d1, Some d2) \<Rightarrow> (case (ad_Target d1, ad_Target d2) of
            (Some t1, Some t2) \<Rightarrow>
              if ad_Source d1 = None \<or> ad_Source d2 = None then Inr False
              else rbind (AttDataIsEqual d1 d2) (\<lambda>eq.
                let isDoubleVote = \<not> eq \<and> ac_Epoch t1 = ac_Epoch t2;
                    att1 = IndexedAttestation \<lparr>att_AttestingIndices = [], att_Data = Some d1, att_Signature = []\<rparr>;
                    att2 = IndexedAttestation \<lparr>att_AttestingIndices = [], att_Data = Some d2, att_Signature = []\<rparr> in
                rbind (IsSurround att1 att2) (\<lambda>isSurroundVote. Inr (isDoubleVote \<or> isSurroundVote)))
          | _ \<Rightarrow> Inr False)
      | _ \<Rightarrow> Inr False)"

definition SlashableAttesterIndices :: "AttSlashing option \<Rightarrow> u64 list" where
  "SlashableAttesterIndices slashing =
     (case slashing of
        None \<Rightarrow> []
      | Some sl \<Rightarrow> IntersectionUint64 [att_AttestingIndices (attFields (FirstAttestation sl)),
                                     att_AttestingIndices (attFields (SecondAttestation sl))])"

definition VerifyAttesterSlashing :: "BeaconChainConfig \<Rightarrow> SigEnv \<Rightarrow> BeaconState \<Rightarrow> AttSlashing option \<Rightarrow> unit result" where
  "VerifyAttesterSlashing cfg sig s slashing =
     (case slashing of
        None \<Rightarrow> Inl ErrNilSlashing
      | Some sl \<Rightarrow>
          let att1 = FirstAttestation sl; att2 = SecondAttestation sl;
              data1 = att_Data (attFields att1); data2 = att_Data (attFields att2) in
          if data1 = None \<or> data2 = None then Inl ErrNilData
          else rbind (IsSlashableAttestationData data1 data2) (\<lambda>ok.
            if \<not> ok then Inl ErrNotSlashable
            else rbind (VerifyIndexedAttestation cfg sig s att1) (\<lambda>_. VerifyIndexedAttestation cfg sig s att2)))"

text \<open>The loop over the sorted indices; the flag tells whether a validator has been slashed.\<close>

fun slashLoop :: "BeaconChainConfig \<Rightarrow> CoreEnv \<Rightarrow> Epoch \<Rightarrow> u64 list \<Rightarrow> BeaconState \<times> ExitInfo \<times> bool
    \<Rightarrow> (BeaconState \<times> ExitInfo \<times> bool) result" where
  "slashLoop cfg env currentEpoch [] st = Inr st"
| "slashLoop cfg env currentEpoch (i # is) (s, info, slashedAny) =
     rbind (ValidatorAtIndex s i) (\<lambda>val.
       if IsSlashableValidator (v_ActivationEpoch val) (v_WithdrawableEpoch val) (v_Slashed val) currentEpoch
       then rbind (SlashValidator cfg env i s info) (\<lambda>(s, info). slashLoop cfg env currentEpoch is (s, info, True))
       else slashLoop cfg env currentEpoch is (s, info, slashedAny))"

definition ProcessAttesterSlashing :: "BeaconChainConfig \<Rightarrow> CoreEnv \<Rightarrow> SigEnv \<Rightarrow> AttSlashing option
    \<Rightarrow> BeaconState \<times> ExitInfo \<Rightarrow> (BeaconState \<times> ExitInfo) result" where
  "ProcessAttesterSlashing cfg env sig slashing = (\<lambda>(s, info).
     rbind (VerifyAttesterSlashing cfg sig s slashing) (\<lambda>_.
       let slashableIndices = sort (SlashableAttesterIndices slashing);
           currentEpoch = ToEpoch cfg (bs_slot s) in
       rbind (slashLoop cfg env currentEpoch slashableIndices (s, info, False)) (\<lambda>(s, info, slashedAny).
         if \<not> slashedAny then Inl ErrNoneSlashed else Inr (s, info))))"

definition ProcessAttesterSlashings :: "BeaconChainConfig \<Rightarrow> CoreEnv \<Rightarrow> SigEnv \<Rightarrow> AttSlashing option list
    \<Rightarrow> BeaconState \<times> ExitInfo \<Rightarrow> (BeaconState \<times> ExitInfo) result" where
  "ProcessAttesterSlashings cfg env sig slashings = rfold (ProcessAttesterSlashing cfg env sig) slashings"

section \<open>Proposer slashings\<close>

definition VerifyProposerSlashing :: "BeaconChainConfig \<Rightarrow> SigEnv \<Rightarrow> BeaconState \<Rightarrow> ProposerSlashing \<Rightarrow> unit result" where
  "VerifyProposerSlashing cfg sig s slashing =
     (case (sh_Header (ps_Header_1 slashing), sh_Header (ps_Header_2 slashing)) of
        (Some h1, Some h2) \<Rightarrow>
          let hSlot = bh_Slot h1; pIdx = bh_ProposerIndex h1 in
          if hSlot \<noteq> bh_Slot h2 then Inl ErrMismatch
          else if pIdx \<noteq> bh_ProposerIndex h2 then Inl ErrMismatch
          else if h1 = h2 then Inl ErrSameHeader
          else rbind (ValidatorAtIndex s pIdx) (\<lambda>proposer.
            if \<not> IsSlashableValidatorUsingTrie proposer (CurrentEpoch cfg s) then Inl ErrValidatorNotSlashable
            else rfold (\<lambda>header _. case sig_Header sig s pIdx (ToEpoch cfg hSlot) header of Inl e \<Rightarrow> Inl ErrSignature | Inr _ \<Rightarrow> Inr ()) [ps_Header_1 slashing, ps_Header_2 slashing] ())
      | _ \<Rightarrow> Inl ErrNilHeader)"

text \<open>The index read from a header after its verification; a nil header panics.\<close>

definition proposerIndexOf :: "ProposerSlashing \<Rightarrow> ValidatorIndex result" where
  "proposerIndexOf slashing = (case sh_Header (ps_Header_1 slashing) of None \<Rightarrow> Inl Panic | Some h \<Rightarrow> Inr (bh_ProposerIndex h))"

definition ProcessProposerSlashing :: "BeaconChainConfig \<Rightarrow> CoreEnv \<Rightarrow> SigEnv \<Rightarrow> ProposerSlashing option
    \<Rightarrow> BeaconState \<times> ExitInfo \<Rightarrow> (BeaconState \<times> ExitInfo) result" where
  "ProcessProposerSlashing cfg env sig slashing = (\<lambda>(s, info).
     case slashing of
       None \<Rightarrow> Inl ErrNilSlashing
     | Some sl \<Rightarrow>
         rbind (VerifyProposerSlashing cfg sig s sl) (\<lambda>_.
         rbind (proposerIndexOf sl) (\<lambda>i. SlashValidator cfg env i s info)))"

definition ProcessProposerSlashings :: "BeaconChainConfig \<Rightarrow> CoreEnv \<Rightarrow> SigEnv \<Rightarrow> ProposerSlashing option list
    \<Rightarrow> BeaconState \<times> ExitInfo \<Rightarrow> (BeaconState \<times> ExitInfo) result" where
  "ProcessProposerSlashings cfg env sig slashings = rfold (ProcessProposerSlashing cfg env sig) slashings"

section \<open>Slashable data\<close>

text \<open>The conditions of Casper FFG on two votes whose checkpoints are present.\<close>

definition dataSource :: "AttestationData \<Rightarrow> Epoch" where "dataSource d = ac_Epoch (the (ad_Source d))"
definition dataTarget :: "AttestationData \<Rightarrow> Epoch" where "dataTarget d = ac_Epoch (the (ad_Target d))"

definition hasCheckpoints :: "AttestationData \<Rightarrow> bool" where
  "hasCheckpoints d \<longleftrightarrow> ad_Source d \<noteq> None \<and> ad_Target d \<noteq> None"

definition surrounds :: "AttestationData \<Rightarrow> AttestationData \<Rightarrow> bool" where
  "surrounds d1 d2 \<longleftrightarrow> dataSource d1 < dataSource d2 \<and> dataTarget d2 < dataTarget d1"

definition doubleVotes :: "AttestationData \<Rightarrow> AttestationData \<Rightarrow> bool" where
  "doubleVotes d1 d2 \<longleftrightarrow> d1 \<noteq> d2 \<and> dataTarget d1 = dataTarget d2"

lemma AttDataIsEqual_eq:
  assumes "hasCheckpoints d1" and "hasCheckpoints d2"
  shows "AttDataIsEqual d1 d2 = Inr (d1 = d2)"
proof -
  obtain s1 t1 s2 t2 where "ad_Source d1 = Some s1" "ad_Target d1 = Some t1" "ad_Source d2 = Some s2" "ad_Target d2 = Some t2"
    using assms by (auto simp: hasCheckpoints_def)
  then show ?thesis by (auto simp: AttDataIsEqual_def intro: AttestationData.equality AttCheckpoint.equality)
qed

lemma IsSlashableAttestationData_eq:
  "IsSlashableAttestationData (Some d1) (Some d2)
     = Inr (hasCheckpoints d1 \<and> hasCheckpoints d2 \<and> (doubleVotes d1 d2 \<or> surrounds d1 d2))"
proof (cases "hasCheckpoints d1 \<and> hasCheckpoints d2")
  case True
  then obtain s1 t1 s2 t2 where "ad_Source d1 = Some s1" "ad_Target d1 = Some t1" "ad_Source d2 = Some s2" "ad_Target d2 = Some t2"
    by (auto simp: hasCheckpoints_def)
  then show ?thesis using True
    by (simp add: IsSlashableAttestationData_def AttDataIsEqual_eq IsSurround_def Let_def doubleVotes_def surrounds_def
        dataSource_def dataTarget_def)
next
  case False
  then show ?thesis by (auto simp: IsSlashableAttestationData_def hasCheckpoints_def split: option.splits)
qed

lemma uniquelySorted_iff: "uniquelySorted is \<longleftrightarrow> sorted_wrt (<) is"
proof (induction "is" rule: uniquelySorted.induct)
  case (1 x y zs)
  then show ?case by (auto intro: less_trans)
qed simp_all

text \<open>What the verification checks of an indexed attestation besides its signature.\<close>

definition indices_ok :: "BeaconChainConfig \<Rightarrow> IndexedAtt \<Rightarrow> bool" where
  "indices_ok cfg att \<longleftrightarrow>
     (let is = att_AttestingIndices (attFields att) in is \<noteq> [] \<and> sorted_wrt (<) is
        \<and> (if IndexedAtt_Version att < Electra then of_nat (length is) \<le> MaxValidatorsPerCommittee cfg
           else of_nat (length is) \<le> MaxValidatorsPerCommittee cfg * MaxCommitteesPerSlot cfg))"

lemma VerifyIndexedAttestation_iff:
  assumes "att_Data (attFields att) = Some d" and "hasCheckpoints d"
  shows "VerifyIndexedAttestation cfg sig s att = Inr () \<longleftrightarrow> indices_ok cfg att \<and> sig_IndexedAtt sig s att = Inr ()"
  using assms by (auto simp: VerifyIndexedAttestation_def IsValidAttestationIndices_def hasCheckpoints_def indices_ok_def Let_def
      uniquelySorted_iff rbind_eq_Inr not_less not_le split: if_splits)

text \<open>C14. An attester slashing is accepted exactly if both attestations carry data with checkpoints, the two votes
  have the same target and differ or the first surrounds the second, the indices of both are strictly increasing, not
  empty and within the limit of their fork, and both signatures are valid.\<close>

theorem VerifyAttesterSlashing_exact:
  "VerifyAttesterSlashing cfg sig s (Some sl) = Inr () \<longleftrightarrow>
     (\<exists>d1 d2. att_Data (attFields (FirstAttestation sl)) = Some d1 \<and> att_Data (attFields (SecondAttestation sl)) = Some d2
        \<and> hasCheckpoints d1 \<and> hasCheckpoints d2 \<and> (doubleVotes d1 d2 \<or> surrounds d1 d2))
     \<and> indices_ok cfg (FirstAttestation sl) \<and> indices_ok cfg (SecondAttestation sl)
     \<and> sig_IndexedAtt sig s (FirstAttestation sl) = Inr () \<and> sig_IndexedAtt sig s (SecondAttestation sl) = Inr ()"
proof -
  obtain o1 o2 where o: "att_Data (attFields (FirstAttestation sl)) = o1" "att_Data (attFields (SecondAttestation sl)) = o2" by simp
  show ?thesis
  proof (cases "\<exists>d1 d2. o1 = Some d1 \<and> o2 = Some d2 \<and> hasCheckpoints d1 \<and> hasCheckpoints d2 \<and> (doubleVotes d1 d2 \<or> surrounds d1 d2)")
    case True
    then obtain d1 d2 where d: "o1 = Some d1" "o2 = Some d2" "hasCheckpoints d1" "hasCheckpoints d2" "doubleVotes d1 d2 \<or> surrounds d1 d2"
      by blast
    note V = VerifyIndexedAttestation_iff [OF o(1) [unfolded d(1)] d(3)] VerifyIndexedAttestation_iff [OF o(2) [unfolded d(2)] d(4)]
    have "VerifyAttesterSlashing cfg sig s (Some sl) = Inr () \<longleftrightarrow> VerifyIndexedAttestation cfg sig s (FirstAttestation sl) = Inr ()
        \<and> VerifyIndexedAttestation cfg sig s (SecondAttestation sl) = Inr ()"
      using d by (auto simp: VerifyAttesterSlashing_def o Let_def IsSlashableAttestationData_eq rbind_eq_Inr)
    then show ?thesis unfolding o V using d by blast
  next
    case False
    then have "VerifyAttesterSlashing cfg sig s (Some sl) \<noteq> Inr ()"
      by (cases o1; cases o2) (auto simp: VerifyAttesterSlashing_def o Let_def IsSlashableAttestationData_eq)
    then show ?thesis unfolding o using False by blast
  qed
qed

section \<open>Processing\<close>

definition slashableAt :: "BeaconState \<Rightarrow> Epoch \<Rightarrow> nat \<Rightarrow> bool" where
  "slashableAt s e j \<longleftrightarrow> IsSlashableValidatorUsingTrie (bs_validators s ! j) e"

text \<open>The validators \<open>I\<close> that were slashable are slashed, and no other validator has changed.\<close>

definition slashedExactly :: "BeaconState \<Rightarrow> Epoch \<Rightarrow> nat set \<Rightarrow> BeaconState \<Rightarrow> bool" where
  "slashedExactly s e I s' \<longleftrightarrow> state_ok s' \<and> bs_slot s' = bs_slot s \<and> length (bs_validators s') = length (bs_validators s)
     \<and> (\<forall>j < length (bs_validators s). if j \<in> I \<and> slashableAt s e j then v_Slashed (bs_validators s' ! j)
          else bs_validators s' ! j = bs_validators s ! j)"

lemma slashedExactly_compose:
  assumes "slashedExactly s e I s1" and "slashedExactly s1 e J s2"
  shows "slashedExactly s e (I \<union> J) s2"
proof -
  have "if j \<in> I \<union> J \<and> slashableAt s e j then v_Slashed (bs_validators s2 ! j) else bs_validators s2 ! j = bs_validators s ! j"
    if j: "j < length (bs_validators s)" for j
  proof (cases "j \<in> I \<and> slashableAt s e j")
    case True
    then have sl: "v_Slashed (bs_validators s1 ! j)" using assms(1) j by (auto simp: slashedExactly_def)
    then have "\<not> slashableAt s1 e j" by (simp add: slashableAt_def IsSlashableValidatorUsingTrie_def checkValidatorSlashable_def)
    then have "bs_validators s2 ! j = bs_validators s1 ! j" using assms(1,2) j by (auto simp: slashedExactly_def)
    then show ?thesis using True sl by simp
  next
    case False
    then have same: "bs_validators s1 ! j = bs_validators s ! j" using assms(1) j by (auto simp: slashedExactly_def)
    then have "slashableAt s1 e j = slashableAt s e j" by (simp add: slashableAt_def)
    moreover have "if j \<in> J \<and> slashableAt s1 e j then v_Slashed (bs_validators s2 ! j) else bs_validators s2 ! j = bs_validators s1 ! j"
      using assms(1,2) j by (simp add: slashedExactly_def)
    ultimately show ?thesis using same False by auto
  qed
  then show ?thesis using assms(1,2) by (simp add: slashedExactly_def)
qed

lemma slashedExactly_none: "state_ok s \<Longrightarrow> \<forall>j \<in> I. \<not> slashableAt s e j \<Longrightarrow> slashedExactly s e I s"
  by (auto simp: slashedExactly_def)

lemma slashableAt_eq:
  "IsSlashableValidator (v_ActivationEpoch v) (v_WithdrawableEpoch v) (v_Slashed v) e = IsSlashableValidatorUsingTrie v e"
  by (simp add: IsSlashableValidator_def IsSlashableValidatorUsingTrie_def)

lemma SlashValidator_exactly:
  assumes "state_ok s" "exit_cfg cfg" "caches_ok cfg env" and r: "SlashValidator cfg env i s info = Inr (s', info')"
    and "slashableAt s e (unat i)"
  shows "slashedExactly s e {unat i} s'"
  using SlashValidator_frame [OF assms(1-4)] assms(5) unfolding slashedExactly_def by auto

lemma slashLoop_spec:
  assumes cfg: "exit_cfg cfg" "caches_ok cfg env"
  shows "state_ok s \<Longrightarrow> distinct is \<Longrightarrow> slashLoop cfg env e is (s, info, any) = Inr (s', info', any') \<Longrightarrow>
    slashedExactly s e (unat ` set is) s' \<and> any' = (any \<or> (\<exists>i \<in> set is. slashableAt s e (unat i)))
    \<and> (\<forall>i \<in> set is. unat i < length (bs_validators s))"
proof (induction "is" arbitrary: s info any)
  case Nil
  then show ?case using slashedExactly_none [of s "{}"] by simp
next
  case (Cons i "is")
  have i: "unat i < length (bs_validators s)" using Cons.prems by (auto simp: state_simps split: if_splits)
  obtain s1 info1 where one: "slashedExactly s e {unat i} s1"
    and rest: "slashLoop cfg env e is (s1, info1, any \<or> slashableAt s e (unat i)) = Inr (s', info', any')"
  proof (cases "slashableAt s e (unat i)")
    case True
    then obtain s1 info1 where "SlashValidator cfg env i s info = Inr (s1, info1)" "slashLoop cfg env e is (s1, info1, True) = Inr (s', info', any')"
      using Cons.prems(1,3) i by (auto simp: state_simps slashableAt_eq slashableAt_def rbind_eq_Inr)
    then show ?thesis using that [OF SlashValidator_exactly [OF Cons.prems(1) cfg _ True]] True by simp
  next
    case False
    then have "slashLoop cfg env e is (s, info, any) = Inr (s', info', any')"
      using Cons.prems(1,3) i by (auto simp: state_simps slashableAt_eq slashableAt_def)
    then show ?thesis using that [of s info] slashedExactly_none [OF Cons.prems(1), of "{unat i}"] False by simp
  qed
  have ok: "state_ok s1" and len: "length (bs_validators s1) = length (bs_validators s)" using one by (simp_all add: slashedExactly_def)
  have IH: "slashedExactly s1 e (unat ` set is) s'"
    "any' = (any \<or> slashableAt s e (unat i) \<or> (\<exists>k \<in> set is. slashableAt s1 e (unat k)))"
    "\<forall>k \<in> set is. unat k < length (bs_validators s)"
    using Cons.IH [OF ok _ rest] Cons.prems(2) len by auto
  have "slashableAt s1 e (unat k) = slashableAt s e (unat k)" if "k \<in> set is" for k
  proof -
    have "unat k \<noteq> unat i" "unat k < length (bs_validators s)" using that Cons.prems(2) IH(3) by (auto simp: u64_eq_iff [symmetric])
    then have "bs_validators s1 ! unat k = bs_validators s ! unat k" using one by (auto simp: slashedExactly_def)
    then show ?thesis by (simp add: slashableAt_def)
  qed
  then show ?case using slashedExactly_compose [OF one IH(1)] IH(2,3) i by auto
qed

definition commonIndices :: "AttSlashing \<Rightarrow> nat set" where
  "commonIndices sl = unat ` (set (att_AttestingIndices (attFields (FirstAttestation sl)))
                             \<inter> set (att_AttestingIndices (attFields (SecondAttestation sl))))"

lemma SlashableAttesterIndices_set:
  "unat ` set (SlashableAttesterIndices (Some sl)) = commonIndices sl" "distinct (SlashableAttesterIndices (Some sl))"
  using IntersectionUint64_set [of "[att_AttestingIndices (attFields (FirstAttestation sl)), att_AttestingIndices (attFields (SecondAttestation sl))]"]
  by (simp_all add: SlashableAttesterIndices_def commonIndices_def)

lemma ProcessAttesterSlashing_spec:
  assumes "state_ok s" "exit_cfg cfg" "caches_ok cfg env"
    and "slashLoop cfg env (CurrentEpoch cfg s) (sort (SlashableAttesterIndices (Some sl))) (s, info, False) = Inr (s', info', any)"
  shows "slashedExactly s (CurrentEpoch cfg s) (commonIndices sl) s'"
    "any \<longleftrightarrow> (\<exists>j \<in> commonIndices sl. slashableAt s (CurrentEpoch cfg s) j)"
    "\<forall>j \<in> commonIndices sl. j < length (bs_validators s)"
  unfolding SlashableAttesterIndices_set(1) [symmetric]
  using slashLoop_spec [OF assms(2,3,1) _ assms(4)] SlashableAttesterIndices_set(2) [of sl] by auto

text \<open>C15. A processed attester slashing has passed the verification; it slashes exactly the validators that signed
  both attestations and were slashable, of which there is at least one, and changes no other validator.\<close>

theorem ProcessAttesterSlashing_exact:
  assumes "state_ok s" "exit_cfg cfg" "caches_ok cfg env"
    and "ProcessAttesterSlashing cfg env sig (Some sl) (s, info) = Inr (s', info')"
  shows "VerifyAttesterSlashing cfg sig s (Some sl) = Inr () \<and> slashedExactly s (CurrentEpoch cfg s) (commonIndices sl) s'
    \<and> (\<exists>j \<in> commonIndices sl. j < length (bs_validators s) \<and> slashableAt s (CurrentEpoch cfg s) j)"
proof -
  obtain any where "VerifyAttesterSlashing cfg sig s (Some sl) = Inr ()" and any: any
    and "slashLoop cfg env (CurrentEpoch cfg s) (sort (SlashableAttesterIndices (Some sl))) (s, info, False) = Inr (s', info', any)"
    using assms(4) by (auto simp: ProcessAttesterSlashing_def rbind_eq_Inr Let_def CurrentEpoch_def split: if_splits)
  then show ?thesis using ProcessAttesterSlashing_spec [OF assms(1-3)] by blast
qed

definition ex_sig :: SigEnv where
  "ex_sig = \<lparr>sig_IndexedAtt = \<lambda>_ _. Inr (), sig_Header = \<lambda>_ _ _ _. Inr ()\<rparr>"

definition ex_data :: "Epoch \<Rightarrow> Epoch \<Rightarrow> bytes32 \<Rightarrow> AttestationData" where
  "ex_data s t root = \<lparr>ad_Slot = 64, ad_CommitteeIndex = 0, ad_BeaconBlockRoot = root,
     ad_Source = Some \<lparr>ac_Epoch = s, ac_Root = 0\<rparr>, ad_Target = Some \<lparr>ac_Epoch = t, ac_Root = 0\<rparr>\<rparr>"

definition ex_att :: "u64 list \<Rightarrow> AttestationData \<Rightarrow> AttFields" where
  "ex_att is d = \<lparr>att_AttestingIndices = is, att_Data = Some d, att_Signature = []\<rparr>"

definition ex_slashing :: AttSlashing where
  "ex_slashing = AttesterSlashing (ex_att [0, 1] (ex_data 0 1 3)) (ex_att [1, 2] (ex_data 0 1 4))"

lemma ex_processed:
  "case ProcessAttesterSlashing mainnetBeaconConfig ex_env ex_sig (Some ex_slashing) (ex_state, ExitInformation mainnetBeaconConfig ex_state) of
     Inl e \<Rightarrow> False
   | Inr (s, info) \<Rightarrow> map v_Slashed (bs_validators s) = [False, True, False]"
  by code_simp

theorem ProcessAttesterSlashing_exact_witness:
  "\<exists>s. map v_Slashed (bs_validators s) = [False, True, False]
     \<and> VerifyAttesterSlashing mainnetBeaconConfig ex_sig ex_state (Some ex_slashing) = Inr ()
     \<and> slashedExactly ex_state (CurrentEpoch mainnetBeaconConfig ex_state) (commonIndices ex_slashing) s"
proof -
  obtain s i where r: "ProcessAttesterSlashing mainnetBeaconConfig ex_env ex_sig (Some ex_slashing)
      (ex_state, ExitInformation mainnetBeaconConfig ex_state) = Inr (s, i)" and m: "map v_Slashed (bs_validators s) = [False, True, False]"
    using ex_processed by (auto split: sum.splits)
  show ?thesis using ProcessAttesterSlashing_exact [OF ex_state_ok exit_cfg_mainnet ex_env_caches r] m by (intro exI [of _ s]) simp
qed

end
