(* ===== verification/Slashing_Pool.thy ===== *)
theory Slashing_Pool
  imports Slashing_Verify
begin

text \<open>
  The pool of slashings that wait for a block (\<^verbatim>\<open>operations/slashings/pool.go\<close>). Its lock makes every
  operation atomic. A map to \<^verbatim>\<open>true\<close> is the list of its keys. \<^verbatim>\<open>sort.Slice\<close> is not stable; the keys it
  sorts by are distinct, so its result is the sorted list.
\<close>

section \<open>Searching and sorting\<close>

text \<open>\<^verbatim>\<open>sort.Search\<close>: the least index whose predicate holds, by bisection.\<close>

function searchLoop :: "(nat \<Rightarrow> bool result) \<Rightarrow> nat \<Rightarrow> nat \<Rightarrow> nat result" where
  "searchLoop f i j =
     (if i < j then
        let h = (i + j) div 2 in
        rbind (f h) (\<lambda>b. if \<not> b then searchLoop f (h + 1) j else searchLoop f i h)
      else Inr i)"
  by pat_completeness auto

termination searchLoop
  by (relation "measure (\<lambda>(f, i, j). j - i)") auto

declare searchLoop.simps [simp del]

definition sort_Search :: "nat \<Rightarrow> (nat \<Rightarrow> bool result) \<Rightarrow> nat result" where
  "sort_Search n f = searchLoop f 0 n"

definition removeAt :: "nat \<Rightarrow> 'a list \<Rightarrow> 'a list" where
  "removeAt i xs = take i xs @ drop (i + 1) xs"

section \<open>The pool\<close>

record PendingAttesterSlashing =
  pa_attesterSlashing :: AttSlashing
  pa_validatorToSlash :: ValidatorIndex

record Pool =
  pendingProposerSlashing :: "ProposerSlashing list"
  pendingAttesterSlashing :: "PendingAttesterSlashing list"
  included :: "ValidatorIndex list"

definition NewPool :: Pool where
  "NewPool = \<lparr>pendingProposerSlashing = [], pendingAttesterSlashing = [], included = []\<rparr>"

definition validatorSlashingPreconditionCheck :: "BeaconChainConfig \<Rightarrow> BeaconState \<Rightarrow> Pool \<Rightarrow> ValidatorIndex \<Rightarrow> bool result" where
  "validatorSlashingPreconditionCheck cfg s p valIdx =
     (if List.member (included p) valIdx then Inr False
      else rbind (ValidatorAtIndex s valIdx) (\<lambda>validator.
        if \<not> IsSlashableValidatorUsingTrie validator (CurrentEpoch cfg s) then Inr False else Inr True))"

definition slashedValidators :: "AttSlashing \<Rightarrow> u64 list" where
  "slashedValidators sl = IntersectionUint64 [att_AttestingIndices (attFields (FirstAttestation sl)),
                                             att_AttestingIndices (attFields (SecondAttestation sl))]"

text \<open>The loop over the pending list: what stays in it, and what is returned.\<close>

fun pendingAttesterLoop :: "BeaconChainConfig \<Rightarrow> BeaconState \<Rightarrow> Pool \<Rightarrow> u64 \<Rightarrow> PendingAttesterSlashing list \<Rightarrow> ValidatorIndex list
    \<Rightarrow> AttSlashing list \<Rightarrow> PendingAttesterSlashing list \<times> AttSlashing list" where
  "pendingAttesterLoop cfg s p maxSlashings [] inc pending = ([], pending)"
| "pendingAttesterLoop cfg s p maxSlashings (x # xs) inc pending =
     (if of_nat (length pending) \<ge> maxSlashings then (x # xs, pending)
      else case validatorSlashingPreconditionCheck cfg s p (pa_validatorToSlash x) of
          Inl e \<Rightarrow> (case pendingAttesterLoop cfg s p maxSlashings xs inc pending of (kept, out) \<Rightarrow> (x # kept, out))
        | Inr valid \<Rightarrow>
            if List.member inc (pa_validatorToSlash x) \<or> \<not> valid
            then pendingAttesterLoop cfg s p maxSlashings xs inc pending
            else (case pendingAttesterLoop cfg s p maxSlashings xs
                    (inc @ slashedValidators (pa_attesterSlashing x)) (pending @ [pa_attesterSlashing x])
                  of (kept, out) \<Rightarrow> (x # kept, out)))"

definition PendingAttesterSlashings :: "BeaconChainConfig \<Rightarrow> BeaconState \<Rightarrow> bool \<Rightarrow> Pool \<Rightarrow> AttSlashing list \<times> Pool" where
  "PendingAttesterSlashings cfg s noLimit p =
     (let maxSlashings = MaxAttesterSlashings cfg;
          maxSlashings = (if bs_version s \<ge> Electra then MaxAttesterSlashingsElectra cfg else maxSlashings);
          maxSlashings = (if noLimit then of_nat (length (pendingAttesterSlashing p)) else maxSlashings) in
      case pendingAttesterLoop cfg s p maxSlashings (pendingAttesterSlashing p) [] [] of
        (kept, pending) \<Rightarrow> (pending, p\<lparr>pendingAttesterSlashing := kept\<rparr>))"

fun pendingProposerLoop :: "BeaconChainConfig \<Rightarrow> BeaconState \<Rightarrow> Pool \<Rightarrow> u64 \<Rightarrow> ProposerSlashing list
    \<Rightarrow> ProposerSlashing list \<Rightarrow> (ProposerSlashing list \<times> ProposerSlashing list) result" where
  "pendingProposerLoop cfg s p maxSlashings [] pending = Inr ([], pending)"
| "pendingProposerLoop cfg s p maxSlashings (x # xs) pending =
     (if of_nat (length pending) \<ge> maxSlashings then Inr (x # xs, pending)
      else rbind (proposerIndexOf x) (\<lambda>i.
        case validatorSlashingPreconditionCheck cfg s p i of
          Inl e \<Rightarrow> rbind (pendingProposerLoop cfg s p maxSlashings xs pending) (\<lambda>(kept, out). Inr (x # kept, out))
        | Inr valid \<Rightarrow>
            if \<not> valid then pendingProposerLoop cfg s p maxSlashings xs pending
            else rbind (pendingProposerLoop cfg s p maxSlashings xs (pending @ [x])) (\<lambda>(kept, out). Inr (x # kept, out))))"

definition PendingProposerSlashings :: "BeaconChainConfig \<Rightarrow> BeaconState \<Rightarrow> bool \<Rightarrow> Pool \<Rightarrow> (ProposerSlashing list \<times> Pool) result" where
  "PendingProposerSlashings cfg s noLimit p =
     (let maxSlashings = (if noLimit then of_nat (length (pendingProposerSlashing p)) else MaxProposerSlashings cfg) in
      rbind (pendingProposerLoop cfg s p maxSlashings (pendingProposerSlashing p) []) (\<lambda>(kept, pending).
        Inr (pending, p\<lparr>pendingProposerSlashing := kept\<rparr>)))"

section \<open>Insertion\<close>

definition pendingAttesterIndex :: "Pool \<Rightarrow> u64 \<Rightarrow> nat result" where
  "pendingAttesterIndex p val =
     sort_Search (length (pendingAttesterSlashing p)) (\<lambda>i. Inr (pa_validatorToSlash (pendingAttesterSlashing p ! i) \<ge> val))"

definition isPendingAttester :: "Pool \<Rightarrow> nat \<Rightarrow> u64 \<Rightarrow> bool" where
  "isPendingAttester p found val \<longleftrightarrow> found \<noteq> length (pendingAttesterSlashing p)
     \<and> pa_validatorToSlash (pendingAttesterSlashing p ! found) = val"

text \<open>The loop over the common indices; the number counts the validators that cannot be slashed.\<close>

fun insertAttesterLoop :: "BeaconChainConfig \<Rightarrow> BeaconState \<Rightarrow> AttSlashing \<Rightarrow> u64 list \<Rightarrow> nat \<Rightarrow> Pool \<Rightarrow> (Pool, nat) outcome" where
  "insertAttesterLoop cfg s slashing [] cantSlash p = (Inr cantSlash, p)"
| "insertAttesterLoop cfg s slashing (val # vals) cantSlash p =
     (case validatorSlashingPreconditionCheck cfg s p val of
        Inl e \<Rightarrow> (Inl e, p)
      | Inr ok \<Rightarrow>
          if \<not> ok then insertAttesterLoop cfg s slashing vals (cantSlash + 1) p
          else case pendingAttesterIndex p val of
              Inl e \<Rightarrow> (Inl e, p)
            | Inr found \<Rightarrow>
                if isPendingAttester p found val then insertAttesterLoop cfg s slashing vals (cantSlash + 1) p
                else insertAttesterLoop cfg s slashing vals cantSlash
                  (p\<lparr>pendingAttesterSlashing := sort_key pa_validatorToSlash
                     (pendingAttesterSlashing p @ [\<lparr>pa_attesterSlashing = slashing, pa_validatorToSlash = val\<rparr>])\<rparr>))"

definition Pool_InsertAttesterSlashing :: "BeaconChainConfig \<Rightarrow> SigEnv \<Rightarrow> BeaconState \<Rightarrow> AttSlashing option \<Rightarrow> Pool \<Rightarrow> (Pool, unit) outcome" where
  "Pool_InsertAttesterSlashing cfg sig s slashing p =
     (case VerifyAttesterSlashing cfg sig s slashing of
        Inl e \<Rightarrow> (Inl e, p)
      | Inr _ \<Rightarrow> (case slashing of
          None \<Rightarrow> (Inl Panic, p)
        | Some sl \<Rightarrow>
            let slashedVal = slashedValidators sl in
            (case insertAttesterLoop cfg s sl slashedVal 0 p of
               (Inl e, p') \<Rightarrow> (Inl e, p')
             | (Inr cantSlash, p') \<Rightarrow> (if cantSlash = length slashedVal then Inl ErrAlreadyPending else Inr (), p'))))"

text \<open>The index of a proposer slashing; the comparisons of a search or a sort panic on a nil header.\<close>

definition headerIndex :: "ProposerSlashing \<Rightarrow> ValidatorIndex" where
  "headerIndex x = (case proposerIndexOf x of Inl e \<Rightarrow> 0 | Inr i \<Rightarrow> i)"

definition pendingProposerIndex :: "Pool \<Rightarrow> ValidatorIndex \<Rightarrow> nat result" where
  "pendingProposerIndex p i = sort_Search (length (pendingProposerSlashing p)) (\<lambda>k.
     rbind (proposerIndexOf (pendingProposerSlashing p ! k)) (\<lambda>j. Inr (j \<ge> i)))"

definition isPendingProposer :: "Pool \<Rightarrow> nat \<Rightarrow> ValidatorIndex \<Rightarrow> bool result" where
  "isPendingProposer p found i =
     (if found = length (pendingProposerSlashing p) then Inr False
      else rbind (proposerIndexOf (pendingProposerSlashing p ! found)) (\<lambda>j. Inr (j = i)))"

definition Pool_InsertProposerSlashing :: "BeaconChainConfig \<Rightarrow> SigEnv \<Rightarrow> BeaconState \<Rightarrow> ProposerSlashing \<Rightarrow> Pool \<Rightarrow> (Pool, unit) outcome" where
  "Pool_InsertProposerSlashing cfg sig s slashing p =
     (case rbind (VerifyProposerSlashing cfg sig s slashing) (\<lambda>_.
           rbind (proposerIndexOf slashing) (\<lambda>idx.
           rbind (validatorSlashingPreconditionCheck cfg s p idx) (\<lambda>ok.
             if \<not> ok then Inl ErrValidatorNotSlashable
             else rbind (pendingProposerIndex p idx) (\<lambda>found.
               rbind (isPendingProposer p found idx) (\<lambda>pending.
                 if pending then Inl ErrAlreadyPending
                 else if list_all (\<lambda>x. sh_Header (ps_Header_1 x) \<noteq> None) (pendingProposerSlashing p @ [slashing]) then Inr ()
                 else Inl Panic)))))
      of Inl e \<Rightarrow> (Inl e, p)
       | Inr _ \<Rightarrow> (Inr (), p\<lparr>pendingProposerSlashing := sort_key headerIndex (pendingProposerSlashing p @ [slashing])\<rparr>))"

section \<open>Inclusion and conversion\<close>

definition markAttester :: "u64 \<Rightarrow> Pool \<Rightarrow> Pool result" where
  "markAttester val p =
     rbind (pendingAttesterIndex p val) (\<lambda>i.
       let p = (if isPendingAttester p i val
                then p\<lparr>pendingAttesterSlashing := removeAt i (pendingAttesterSlashing p)\<rparr> else p)
       in Inr (p\<lparr>included := val # included p\<rparr>))"

definition MarkIncludedAttesterSlashing :: "AttSlashing \<Rightarrow> Pool \<Rightarrow> Pool result" where
  "MarkIncludedAttesterSlashing sl p = rfold markAttester (slashedValidators sl) p"

definition MarkIncludedProposerSlashing :: "ProposerSlashing \<Rightarrow> Pool \<Rightarrow> Pool result" where
  "MarkIncludedProposerSlashing ps p =
     rbind (proposerIndexOf ps) (\<lambda>idx.
     rbind (pendingProposerIndex p idx) (\<lambda>i.
     rbind (isPendingProposer p i idx) (\<lambda>pending.
       let p = (if pending then p\<lparr>pendingProposerSlashing := removeAt i (pendingProposerSlashing p)\<rparr> else p)
       in Inr (p\<lparr>included := idx # included p\<rparr>))))"

fun slashingToElectra :: "AttSlashing \<Rightarrow> AttSlashing" where
  "slashingToElectra (AttesterSlashing a b) = AttesterSlashingElectra a b"
| "slashingToElectra (AttesterSlashingElectra a b) = AttesterSlashingElectra a b"

definition ConvertToElectra :: "Pool \<Rightarrow> Pool" where
  "ConvertToElectra p = p\<lparr>pendingAttesterSlashing :=
     map (\<lambda>x. x\<lparr>pa_attesterSlashing := slashingToElectra (pa_attesterSlashing x)\<rparr>) (pendingAttesterSlashing p)\<rparr>"

section \<open>Sorted lists of pending slashings\<close>

lemma searchLoop_spec:
  assumes f: "\<And>h. h < n \<Longrightarrow> f h = Inr (P h)" and mono: "\<And>a b. a \<le> b \<Longrightarrow> b < n \<Longrightarrow> P a \<Longrightarrow> P b"
  shows "i \<le> j \<Longrightarrow> j \<le> n \<Longrightarrow> \<forall>h < i. \<not> P h \<Longrightarrow> \<forall>h. j \<le> h \<and> h < n \<longrightarrow> P h \<Longrightarrow>
    \<exists>k \<le> n. searchLoop f i j = Inr k \<and> (\<forall>h < k. \<not> P h) \<and> (\<forall>h. k \<le> h \<and> h < n \<longrightarrow> P h)"
proof (induction "j - i" arbitrary: i j rule: less_induct)
  case less
  show ?case
  proof (cases "i < j")
    case True
    let ?h = "(i + j) div 2"
    have h: "i \<le> ?h" "?h < j" "?h < n" using True less.prems by auto
    show ?thesis
    proof (cases "P ?h")
      case p: True
      have "searchLoop f i j = searchLoop f i ?h" using True p f [OF h(3)] by (subst searchLoop.simps) (simp add: Let_def)
      moreover have "\<forall>x. ?h \<le> x \<and> x < n \<longrightarrow> P x" using mono p by blast
      ultimately show ?thesis using less.hyps [of ?h i] h less.prems by simp
    next
      case p: False
      have "searchLoop f i j = searchLoop f (?h + 1) j" using True p f [OF h(3)] by (subst searchLoop.simps) (simp add: Let_def)
      moreover have "\<forall>x < ?h + 1. \<not> P x" using mono [of _ ?h] p h(3) by (simp add: less_Suc_eq_le) blast
      ultimately show ?thesis using less.hyps [of j "?h + 1"] h less.prems by simp
    qed
  next
    case False
    then show ?thesis using less.prems by (subst searchLoop.simps) auto
  qed
qed

text \<open>In a list sorted by distinct keys the search finds the element with a key, if there is one.\<close>

lemma sort_Search_key:
  assumes s: "sorted_wrt (<) (map key xs)" and f: "\<And>h. h < length xs \<Longrightarrow> f h = Inr (key (xs ! h) \<ge> (v :: u64))"
  shows "\<exists>k \<le> length xs. sort_Search (length xs) f = Inr k
    \<and> (k \<noteq> length xs \<and> key (xs ! k) = v \<longleftrightarrow> v \<in> key ` set xs)"
proof -
  have lt: "key (xs ! a) < key (xs ! b)" if "a < b" "b < length xs" for a b
    using s that by (auto simp: sorted_wrt_iff_nth_less)
  have "\<exists>k \<le> length xs. searchLoop f 0 (length xs) = Inr k \<and> (\<forall>h < k. \<not> key (xs ! h) \<ge> v)
      \<and> (\<forall>h. k \<le> h \<and> h < length xs \<longrightarrow> key (xs ! h) \<ge> v)"
  proof (rule searchLoop_spec [OF f])
    show "key (xs ! b) \<ge> v" if "a \<le> b" "b < length xs" "key (xs ! a) \<ge> v" for a b
      using that lt [of a b] by (cases "a = b") auto
  qed auto
  then obtain k where k: "k \<le> length xs" "sort_Search (length xs) f = Inr k" "\<forall>h < k. \<not> key (xs ! h) \<ge> v"
    "\<forall>h. k \<le> h \<and> h < length xs \<longrightarrow> key (xs ! h) \<ge> v" unfolding sort_Search_def by blast
  have "k \<noteq> length xs \<and> key (xs ! k) = v" if "v \<in> key ` set xs"
  proof -
    obtain h where h: "h < length xs" "key (xs ! h) = v" using \<open>v \<in> key ` set xs\<close> by (auto simp: in_set_conv_nth)
    have "k \<le> h" using k(3) h by (meson leI order.refl)
    moreover have "\<not> k < h"
    proof
      assume "k < h"
      then have "key (xs ! k) < v" "k < length xs" using lt [of k h] h by simp_all
      then show False using k(4) by (simp add: not_le [symmetric])
    qed
    ultimately show ?thesis using h by simp
  qed
  moreover have "v \<in> key ` set xs" if "k \<noteq> length xs" "key (xs ! k) = v"
    using that k(1) nth_mem [of k xs] by auto
  ultimately show ?thesis using k(1,2) by blast
qed

lemma sort_key_insert:
  assumes "sorted_wrt (<) (map key xs)" and "key x \<notin> key ` set xs"
  shows "sorted_wrt (<) (map key (sort_key key (xs @ [x :: 'a])) :: u64 list)"
proof -
  have "distinct (map key (xs @ [x]))" using assms by (auto simp: strict_sorted_iff)
  moreover have "mset (map key (sort_key key (xs @ [x]))) = mset (map key (xs @ [x]))" by simp
  ultimately have "distinct (map key (sort_key key (xs @ [x])))" by (metis mset_eq_imp_distinct_iff)
  then show ?thesis by (simp only: strict_sorted_iff sorted_sort_key simp_thms)
qed

lemma removeAt_keeps:
  assumes "sorted_wrt R (map key xs)"
  shows "sorted_wrt R (map key (removeAt i xs))" "set (removeAt i xs) \<subseteq> set xs"
proof -
  have "map key xs = map key (take i xs) @ map key (drop i xs)" by (metis append_take_drop_id map_append)
  then have "sorted_wrt R (map key (take i xs) @ map key (drop i xs))" using assms by simp
  moreover have "set (drop (i + 1) xs) \<subseteq> set (drop i xs)" by (simp add: set_drop_subset_set_drop)
  moreover have "sorted_wrt R (map key (drop (i + 1) xs))" using sorted_wrt_drop [OF assms, of "i + 1"] by (simp add: drop_map)
  ultimately show "sorted_wrt R (map key (removeAt i xs))" by (auto simp: removeAt_def sorted_wrt_append)
  show "set (removeAt i xs) \<subseteq> set xs" using set_take_subset set_drop_subset by (fastforce simp: removeAt_def)
qed

lemma removeAt_filter:
  fixes key :: "'a \<Rightarrow> u64"
  assumes "sorted_wrt (<) (map key xs)" and "k < length xs"
  shows "removeAt k xs = filter (\<lambda>x. key x \<noteq> key (xs ! k)) xs"
proof -
  have xs: "xs = take k xs @ xs ! k # drop (Suc k) xs" by (rule id_take_nth_drop [OF assms(2)])
  have "sorted_wrt (<) (map key (take k xs @ xs ! k # drop (Suc k) xs))" using assms(1) xs by simp
  then have "\<forall>x \<in> set (take k xs). key x \<noteq> key (xs ! k)" "\<forall>x \<in> set (drop (Suc k) xs). key x \<noteq> key (xs ! k)"
    by (auto simp: sorted_wrt_append)
  then have "filter (\<lambda>x. key x \<noteq> key (xs ! k)) (take k xs @ xs ! k # drop (Suc k) xs) = removeAt k xs"
    by (simp add: removeAt_def filter_id_conv)
  then show ?thesis using xs by simp
qed

text \<open>
  What the two pending lists of the pool have in common: they are sorted by distinct validators and searched by
  bisection, where an element may be readable only under a condition.
\<close>

locale pending_list =
  fixes items :: "'p \<Rightarrow> 'a list" and key :: "'a \<Rightarrow> u64" and readable :: "'a \<Rightarrow> bool" and find :: "'p \<Rightarrow> u64 \<Rightarrow> nat result"
  assumes find_bisects: "list_all readable (items p) \<Longrightarrow>
    \<exists>f. find p v = sort_Search (length (items p)) f \<and> (\<forall>h < length (items p). f h = Inr (key (items p ! h) \<ge> v))"
begin

lemma find_spec:
  assumes "list_all readable (items p)" and "sorted_wrt (<) (map key (items p))"
  obtains k where "k \<le> length (items p)" "find p v = Inr k"
    "k \<noteq> length (items p) \<and> key (items p ! k) = v \<longleftrightarrow> v \<in> key ` set (items p)"
proof -
  obtain f where f: "find p v = sort_Search (length (items p)) f" "\<forall>h < length (items p). f h = Inr (key (items p ! h) \<ge> v)"
    using find_bisects [OF assms(1)] by blast
  from sort_Search_key [OF assms(2), of f v] f(2)
  obtain k where "k \<le> length (items p)" "sort_Search (length (items p)) f = Inr k"
    "k \<noteq> length (items p) \<and> key (items p ! k) = v \<longleftrightarrow> v \<in> key ` set (items p)" by auto
  then show ?thesis using that f(1) by simp
qed

text \<open>Removing what the search finds leaves the elements with other keys.\<close>

lemma find_remove:
  assumes "list_all readable (items p)" and "sorted_wrt (<) (map key (items p))" and "find p v = Inr k"
  shows "(if k \<noteq> length (items p) \<and> key (items p ! k) = v then removeAt k (items p) else items p) = filter (\<lambda>x. key x \<noteq> v) (items p)"
proof -
  obtain i where i: "i \<le> length (items p)" "find p v = Inr i"
    "i \<noteq> length (items p) \<and> key (items p ! i) = v \<longleftrightarrow> v \<in> key ` set (items p)" using find_spec [OF assms(1,2), of v] by blast
  then have "i = k" using assms(3) by simp
  moreover have "removeAt k (items p) = filter (\<lambda>x. key x \<noteq> v) (items p)" if "k < length (items p)" "key (items p ! k) = v"
    using removeAt_filter [OF assms(2) that(1)] that(2) by simp
  moreover have "items p = filter (\<lambda>x. key x \<noteq> v) (items p)" if "v \<notin> key ` set (items p)"
    using that by (intro sym [OF filter_True]) auto
  ultimately show ?thesis using i by auto
qed

lemma insert_sorted_items:
  assumes "sorted_wrt (<) (map key (items p))" and "key x \<notin> key ` set (items p)"
  shows "sorted_wrt (<) (map key (sort_key key (items p @ [x])))"
  by (rule sort_key_insert [OF assms])

lemma remove_sorted_items:
  assumes "sorted_wrt (<) (map key (items p))"
  shows "sorted_wrt (<) (map key (removeAt i (items p)))" "set (removeAt i (items p)) \<subseteq> set (items p)"
  by (rule removeAt_keeps [OF assms])+

end

lemma in_removeAt: "x \<in> set (removeAt i xs) \<Longrightarrow> x \<in> set xs"
  by (auto simp: removeAt_def dest: in_set_takeD in_set_dropD)

definition hasHeader :: "ProposerSlashing \<Rightarrow> bool" where
  "hasHeader x \<longleftrightarrow> sh_Header (ps_Header_1 x) \<noteq> None"

lemma proposerIndexOf_hasHeader: "hasHeader x \<Longrightarrow> proposerIndexOf x = Inr (headerIndex x)"
  by (auto simp: hasHeader_def headerIndex_def proposerIndexOf_def)

interpretation attester_list: pending_list pendingAttesterSlashing pa_validatorToSlash "\<lambda>_. True" pendingAttesterIndex
  by unfold_locales (auto simp: pendingAttesterIndex_def)

interpretation proposer_list: pending_list pendingProposerSlashing headerIndex hasHeader pendingProposerIndex
  by unfold_locales
    (intro exI conjI, rule pendingProposerIndex_def, simp add: list_all_length proposerIndexOf_hasHeader)

section \<open>The invariant\<close>

definition pool_ok :: "Pool \<Rightarrow> bool" where
  "pool_ok p \<longleftrightarrow> sorted_wrt (<) (map pa_validatorToSlash (pendingAttesterSlashing p))
     \<and> (\<forall>x \<in> set (pendingAttesterSlashing p). pa_validatorToSlash x \<in> set (slashedValidators (pa_attesterSlashing x)))
     \<and> sorted_wrt (<) (map headerIndex (pendingProposerSlashing p)) \<and> list_all hasHeader (pendingProposerSlashing p)"

lemma pool_ok_attester:
  assumes "pool_ok p"
  obtains k where "k \<le> length (pendingAttesterSlashing p)" "pendingAttesterIndex p v = Inr k"
    "isPendingAttester p k v \<longleftrightarrow> v \<in> pa_validatorToSlash ` set (pendingAttesterSlashing p)"
  using attester_list.find_spec [of p v] assms by (auto simp: pool_ok_def isPendingAttester_def list_all_iff)

lemma pool_ok_proposer:
  assumes "pool_ok p"
  obtains k where "k \<le> length (pendingProposerSlashing p)" "pendingProposerIndex p v = Inr k"
    "isPendingProposer p k v = Inr (v \<in> headerIndex ` set (pendingProposerSlashing p))"
proof -
  from proposer_list.find_spec [of p v] assms obtain k where k: "k \<le> length (pendingProposerSlashing p)" "pendingProposerIndex p v = Inr k"
    "k \<noteq> length (pendingProposerSlashing p) \<and> headerIndex (pendingProposerSlashing p ! k) = v
      \<longleftrightarrow> v \<in> headerIndex ` set (pendingProposerSlashing p)" by (auto simp: pool_ok_def)
  have "hasHeader (pendingProposerSlashing p ! k)" if "k \<noteq> length (pendingProposerSlashing p)"
    using that k(1) assms by (simp add: pool_ok_def list_all_length)
  then have "isPendingProposer p k v = Inr (v \<in> headerIndex ` set (pendingProposerSlashing p))"
    using k(3) by (auto simp: isPendingProposer_def proposerIndexOf_hasHeader)
  then show ?thesis using that k(1,2) by blast
qed

lemma insertAttesterLoop_ok:
  "pool_ok p \<Longrightarrow> set vals \<subseteq> set (slashedValidators sl) \<Longrightarrow> insertAttesterLoop cfg s sl vals n p = (r, p') \<Longrightarrow> pool_ok p'"
proof (induction vals arbitrary: n p)
  case (Cons v vals)
  let ?ins = "p\<lparr>pendingAttesterSlashing := sort_key pa_validatorToSlash
    (pendingAttesterSlashing p @ [\<lparr>pa_attesterSlashing = sl, pa_validatorToSlash = v\<rparr>])\<rparr>"
  obtain k where k: "pendingAttesterIndex p v = Inr k"
    "isPendingAttester p k v \<longleftrightarrow> v \<in> pa_validatorToSlash ` set (pendingAttesterSlashing p)"
    using pool_ok_attester [OF Cons.prems(1)] by blast
  have ins: "pool_ok ?ins" if "\<not> isPendingAttester p k v"
    using that k(2) attester_list.insert_sorted_items [of p "\<lparr>pa_attesterSlashing = sl, pa_validatorToSlash = v\<rparr>"] Cons.prems(1,2)
    by (auto simp: pool_ok_def)
  show ?case
  proof (cases "validatorSlashingPreconditionCheck cfg s p v")
    case (Inl e)
    then show ?thesis using Cons.prems by simp
  next
    case (Inr ok)
    then show ?thesis using Cons.IH [OF Cons.prems(1)] Cons.IH [OF ins] Cons.prems(2,3) k(1) by (auto split: if_splits)
  qed
qed simp

lemma pendingAttesterLoop_kept:
  "pendingAttesterLoop cfg s p m xs inc pending = (kept, out) \<Longrightarrow>
     set kept \<subseteq> set xs \<and> (sorted_wrt (<) (map pa_validatorToSlash xs) \<longrightarrow> sorted_wrt (<) (map pa_validatorToSlash kept))"
  by (induction xs arbitrary: inc pending kept) (force split: if_splits sum.splits prod.splits)+

lemma pendingProposerLoop_kept:
  "list_all hasHeader xs \<Longrightarrow> \<exists>kept out. pendingProposerLoop cfg s p m xs pending = Inr (kept, out)
     \<and> set kept \<subseteq> set xs \<and> (sorted_wrt (<) (map headerIndex xs) \<longrightarrow> sorted_wrt (<) (map headerIndex kept))"
proof (induction xs arbitrary: pending)
  case (Cons x xs)
  have "list_all hasHeader xs" using Cons.prems by simp
  note IH = Cons.IH [OF this]
  obtain k1 o1 where 1: "pendingProposerLoop cfg s p m xs pending = Inr (k1, o1)" "set k1 \<subseteq> set xs"
      "sorted_wrt (<) (map headerIndex xs) \<longrightarrow> sorted_wrt (<) (map headerIndex k1)"
    using IH by blast
  obtain k2 o2 where 2: "pendingProposerLoop cfg s p m xs (pending @ [x]) = Inr (k2, o2)" "set k2 \<subseteq> set xs"
      "sorted_wrt (<) (map headerIndex xs) \<longrightarrow> sorted_wrt (<) (map headerIndex k2)"
    using IH by blast
  have i: "proposerIndexOf x = Inr (headerIndex x)" using Cons.prems by (simp add: proposerIndexOf_hasHeader)
  show ?case using 1 2 i by (cases "validatorSlashingPreconditionCheck cfg s p (headerIndex x)") auto
qed simp

lemma VerifyProposerSlashing_hasHeader: "VerifyProposerSlashing cfg sig s x = Inr () \<Longrightarrow> hasHeader x"
  by (auto simp: VerifyProposerSlashing_def hasHeader_def split: option.splits)

lemma pool_ok_operations:
  assumes p: "pool_ok p"
  shows "PendingAttesterSlashings cfg s noLimit p = (out, p') \<Longrightarrow> pool_ok p'"
    and "PendingProposerSlashings cfg s noLimit p = Inr (out', p') \<Longrightarrow> pool_ok p'"
    and "Pool_InsertAttesterSlashing cfg sig s slashing p = (r, p') \<Longrightarrow> pool_ok p'"
    and "Pool_InsertProposerSlashing cfg sig s ps p = (r, p') \<Longrightarrow> pool_ok p'"
    and "markAttester v p = Inr p' \<Longrightarrow> pool_ok p'"
    and "MarkIncludedProposerSlashing ps p = Inr p' \<Longrightarrow> pool_ok p'"
    and "pool_ok (ConvertToElectra p)"
proof -
  show "pool_ok p'" if "PendingAttesterSlashings cfg s noLimit p = (out, p')"
    using that p pendingAttesterLoop_kept [of cfg s p] by (fastforce simp: PendingAttesterSlashings_def pool_ok_def Let_def split: prod.splits)
  show "pool_ok p'" if "PendingProposerSlashings cfg s noLimit p = Inr (out', p')"
  proof -
    let ?m = "if noLimit then of_nat (length (pendingProposerSlashing p)) else MaxProposerSlashings cfg"
    obtain kept out where "pendingProposerLoop cfg s p ?m (pendingProposerSlashing p) [] = Inr (kept, out)"
      "set kept \<subseteq> set (pendingProposerSlashing p)" "sorted_wrt (<) (map headerIndex kept)"
      using pendingProposerLoop_kept [of "pendingProposerSlashing p" cfg s p ?m "[]"] p by (auto simp: pool_ok_def)
    then show ?thesis using that p by (auto simp: PendingProposerSlashings_def Let_def pool_ok_def list_all_iff)
  qed
  show "pool_ok p'" if "Pool_InsertAttesterSlashing cfg sig s slashing p = (r, p')"
    using that p insertAttesterLoop_ok [OF p order.refl]
    by (auto simp: Pool_InsertAttesterSlashing_def Let_def split: sum.splits option.splits prod.splits)
  show "pool_ok p'" if r: "Pool_InsertProposerSlashing cfg sig s ps p = (r, p')"
  proof (cases "p' = p")
    case False
    obtain k where k: "pendingProposerIndex p (headerIndex ps) = Inr k"
      "isPendingProposer p k (headerIndex ps) = Inr (headerIndex ps \<in> headerIndex ` set (pendingProposerSlashing p))"
      using pool_ok_proposer [OF p] by blast
    have "hasHeader ps" "headerIndex ps \<notin> headerIndex ` set (pendingProposerSlashing p)"
      "p' = p\<lparr>pendingProposerSlashing := sort_key headerIndex (pendingProposerSlashing p @ [ps])\<rparr>"
      using r False k VerifyProposerSlashing_hasHeader [of cfg sig s ps]
      by (auto simp: Pool_InsertProposerSlashing_def rbind_eq_Inr proposerIndexOf_hasHeader split: sum.splits if_splits)
    then show ?thesis using p proposer_list.insert_sorted_items [of p ps] by (auto simp: pool_ok_def list_all_iff)
  qed (use p in simp)
  show "pool_ok p'" if r: "markAttester v p = Inr p'"
    using r p attester_list.remove_sorted_items(1) [of p]
    by (auto simp: markAttester_def rbind_eq_Inr Let_def pool_ok_def dest!: in_removeAt split: if_splits)
  show "pool_ok p'" if r: "MarkIncludedProposerSlashing ps p = Inr p'"
    using r p proposer_list.remove_sorted_items(1) [of p]
    by (auto simp: MarkIncludedProposerSlashing_def rbind_eq_Inr Let_def pool_ok_def list_all_iff dest!: in_removeAt split: if_splits)
  have "slashedValidators (slashingToElectra x) = slashedValidators x" for x by (cases x) (simp_all add: slashedValidators_def)
  then show "pool_ok (ConvertToElectra p)" using p by (auto simp: ConvertToElectra_def pool_ok_def o_def)
qed

text \<open>Marking removes exactly the pending slashings of the validators and remembers the validators.\<close>

lemma markAttester_eq:
  assumes "pool_ok p"
  shows "markAttester v p = Inr (p\<lparr>pendingAttesterSlashing := filter (\<lambda>x. pa_validatorToSlash x \<noteq> v) (pendingAttesterSlashing p),
    included := v # included p\<rparr>)"
proof -
  obtain k where k: "pendingAttesterIndex p v = Inr k" using pool_ok_attester [OF assms] by blast
  have "(if isPendingAttester p k v then removeAt k (pendingAttesterSlashing p) else pendingAttesterSlashing p)
      = filter (\<lambda>x. pa_validatorToSlash x \<noteq> v) (pendingAttesterSlashing p)"
    unfolding isPendingAttester_def by (rule attester_list.find_remove [OF _ _ k]) (use assms in \<open>simp_all add: pool_ok_def list_all_iff\<close>)
  then show ?thesis using k by (auto simp: markAttester_def Let_def)
qed

lemma markAttesters_eq:
  "pool_ok p \<Longrightarrow> rfold markAttester vals p = Inr (p\<lparr>pendingAttesterSlashing :=
     filter (\<lambda>x. pa_validatorToSlash x \<notin> set vals) (pendingAttesterSlashing p), included := rev vals @ included p\<rparr>)"
proof (induction vals arbitrary: p)
  case (Cons v vals)
  note m = markAttester_eq [OF Cons.prems, of v]
  show ?case using Cons.IH [OF pool_ok_operations(5) [OF Cons.prems m]] by (simp add: m conj_commute)
qed simp

lemma markAttesters_ok: "pool_ok p \<Longrightarrow> rfold markAttester vals p = Inr p' \<Longrightarrow> pool_ok p'"
  by (induction vals arbitrary: p) (auto simp: rbind_eq_Inr dest: pool_ok_operations(5))

lemma MarkIncludedProposerSlashing_eq:
  assumes "pool_ok p" and "hasHeader ps"
  shows "MarkIncludedProposerSlashing ps p = Inr (p\<lparr>pendingProposerSlashing :=
    filter (\<lambda>x. headerIndex x \<noteq> headerIndex ps) (pendingProposerSlashing p), included := headerIndex ps # included p\<rparr>)"
proof -
  let ?v = "headerIndex ps"
  obtain k where k: "k \<le> length (pendingProposerSlashing p)" "pendingProposerIndex p ?v = Inr k"
    using pool_ok_proposer [OF assms(1)] by blast
  have "list_all hasHeader (pendingProposerSlashing p)" "sorted_wrt (<) (map headerIndex (pendingProposerSlashing p))"
    using assms(1) by (simp_all add: pool_ok_def)
  note r = proposer_list.find_remove [OF this k(2)]
  have "isPendingProposer p k ?v = Inr (k \<noteq> length (pendingProposerSlashing p) \<and> headerIndex (pendingProposerSlashing p ! k) = ?v)"
    using k(1) assms(1) by (auto simp: isPendingProposer_def pool_ok_def list_all_length proposerIndexOf_hasHeader)
  then show ?thesis using r assms(2) k(2)
    by (auto simp: MarkIncludedProposerSlashing_def proposerIndexOf_hasHeader Let_def split: if_splits)
qed

text \<open>The pools that the operations reach, in any order and with any states of the chain.\<close>

inductive reachablePool :: "BeaconChainConfig \<Rightarrow> SigEnv \<Rightarrow> Pool \<Rightarrow> bool" for cfg sig where
  new_pool: "reachablePool cfg sig NewPool"
| pending_attester: "reachablePool cfg sig p \<Longrightarrow> PendingAttesterSlashings cfg s noLimit p = (out, p') \<Longrightarrow> reachablePool cfg sig p'"
| pending_proposer: "reachablePool cfg sig p \<Longrightarrow> PendingProposerSlashings cfg s noLimit p = Inr (out, p') \<Longrightarrow> reachablePool cfg sig p'"
| insert_attester: "reachablePool cfg sig p \<Longrightarrow> Pool_InsertAttesterSlashing cfg sig s sl p = (r, p') \<Longrightarrow> reachablePool cfg sig p'"
| insert_proposer: "reachablePool cfg sig p \<Longrightarrow> Pool_InsertProposerSlashing cfg sig s ps p = (r, p') \<Longrightarrow> reachablePool cfg sig p'"
| mark_attester: "reachablePool cfg sig p \<Longrightarrow> MarkIncludedAttesterSlashing as p = Inr p' \<Longrightarrow> reachablePool cfg sig p'"
| mark_proposer: "reachablePool cfg sig p \<Longrightarrow> MarkIncludedProposerSlashing ps p = Inr p' \<Longrightarrow> reachablePool cfg sig p'"
| convert: "reachablePool cfg sig p \<Longrightarrow> reachablePool cfg sig (ConvertToElectra p)"

lemma reachablePool_ok: "reachablePool cfg sig p \<Longrightarrow> pool_ok p"
proof (induction rule: reachablePool.induct)
  case new_pool
  then show ?case by (simp add: pool_ok_def NewPool_def)
next
  case (mark_attester p as p')
  then show ?case using markAttesters_ok [of p "slashedValidators as"] by (simp add: MarkIncludedAttesterSlashing_def)
next
  case (pending_attester p s noLimit out p')
  then show ?case using pool_ok_operations(1) [OF pending_attester.IH] by simp
next
  case (pending_proposer p s noLimit out p')
  then show ?case using pool_ok_operations(2) [OF pending_proposer.IH] by simp
next
  case (insert_attester p s sl r p')
  then show ?case using pool_ok_operations(3) [OF insert_attester.IH] by simp
next
  case (insert_proposer p s ps r p')
  then show ?case using pool_ok_operations(4) [OF insert_proposer.IH] by simp
next
  case (mark_proposer p ps p')
  then show ?case using pool_ok_operations(6) [OF mark_proposer.IH] by simp
next
  case (convert p)
  then show ?case using pool_ok_operations(7) by simp
qed

text \<open>C16. In every pool that can be reached the pending slashings of both kinds are sorted by validator, with at
  most one for each, and every pending attester slashing is evidence against its validator. So the searches find a validator exactly if
  a slashing of it is pending, reading the pending proposer slashings never fails, and marking a slashing as included removes exactly
  the pending slashings of its validators, keeps the others in their order, and remembers the validators.\<close>

theorem reachable_pool_ok:
  assumes "reachablePool cfg sig p"
  shows "pool_ok p \<and> (\<exists>out p'. PendingProposerSlashings cfg s noLimit p = Inr (out, p'))
    \<and> (\<exists>k. pendingAttesterIndex p v = Inr k \<and> isPendingAttester p k v = (v \<in> pa_validatorToSlash ` set (pendingAttesterSlashing p)))
    \<and> (\<exists>k. pendingProposerIndex p v = Inr k \<and> isPendingProposer p k v = Inr (v \<in> headerIndex ` set (pendingProposerSlashing p)))
    \<and> MarkIncludedAttesterSlashing sl p = Inr (p\<lparr>pendingAttesterSlashing :=
         filter (\<lambda>x. pa_validatorToSlash x \<notin> set (slashedValidators sl)) (pendingAttesterSlashing p),
         included := rev (slashedValidators sl) @ included p\<rparr>)
    \<and> (hasHeader ps \<longrightarrow> MarkIncludedProposerSlashing ps p = Inr (p\<lparr>pendingProposerSlashing :=
         filter (\<lambda>x. headerIndex x \<noteq> headerIndex ps) (pendingProposerSlashing p), included := headerIndex ps # included p\<rparr>))"
proof -
  note ok = reachablePool_ok [OF assms]
  let ?m = "if noLimit then of_nat (length (pendingProposerSlashing p)) else MaxProposerSlashings cfg"
  obtain kept out where "pendingProposerLoop cfg s p ?m (pendingProposerSlashing p) [] = Inr (kept, out)"
    using pendingProposerLoop_kept [of "pendingProposerSlashing p" cfg s p ?m "[]"] ok by (auto simp: pool_ok_def)
  then have 1: "\<exists>out p'. PendingProposerSlashings cfg s noLimit p = Inr (out, p')" by (simp add: PendingProposerSlashings_def Let_def)
  have 2: "\<exists>k. pendingAttesterIndex p v = Inr k \<and> isPendingAttester p k v = (v \<in> pa_validatorToSlash ` set (pendingAttesterSlashing p))"
    using pool_ok_attester [OF ok] by blast
  have 3: "\<exists>k. pendingProposerIndex p v = Inr k \<and> isPendingProposer p k v = Inr (v \<in> headerIndex ` set (pendingProposerSlashing p))"
    using pool_ok_proposer [OF ok] by blast
  show ?thesis using ok 1 2 3 markAttesters_eq [OF ok, of "slashedValidators sl", folded MarkIncludedAttesterSlashing_def]
      MarkIncludedProposerSlashing_eq [OF ok] by (intro conjI impI)
qed

definition ex_pair :: AttSlashing where
  "ex_pair = AttesterSlashing (ex_att [0, 1] (ex_data 0 1 3)) (ex_att [0, 1, 2] (ex_data 0 1 4))"

definition ex_pool :: Pool where
  "ex_pool = snd (Pool_InsertAttesterSlashing mainnetBeaconConfig ex_sig ex_state (Some ex_pair) NewPool)"

lemma ex_pool_reachable: "reachablePool mainnetBeaconConfig ex_sig ex_pool"
  unfolding ex_pool_def by (rule insert_attester [OF new_pool]) (rule prod.collapse [symmetric])

lemma ex_pool_pending: "map pa_validatorToSlash (pendingAttesterSlashing ex_pool) = [0, 1]"
  by code_simp

theorem reachable_pool_ok_witness:
  "pool_ok ex_pool \<and> (\<exists>k. pendingAttesterIndex ex_pool 1 = Inr k \<and> isPendingAttester ex_pool k 1)
     \<and> (\<exists>p'. MarkIncludedAttesterSlashing ex_slashing ex_pool = Inr p' \<and> map pa_validatorToSlash (pendingAttesterSlashing p') = [0]
          \<and> 1 \<in> set (included p'))"
proof -
  note w = reachable_pool_ok [OF ex_pool_reachable, where v = 1 and sl = ex_slashing]
  have sl: "slashedValidators ex_slashing = [1]" by code_simp
  let ?xs = "pendingAttesterSlashing ex_pool"
  have "1 \<in> pa_validatorToSlash ` set ?xs" using arg_cong [OF ex_pool_pending, of set] by simp
  moreover have "map pa_validatorToSlash (filter (\<lambda>x. pa_validatorToSlash x \<noteq> 1) ?xs) = filter (\<lambda>v. v \<noteq> 1) (map pa_validatorToSlash ?xs)"
    by (simp add: filter_map o_def)
  ultimately show ?thesis using w by (simp add: sl ex_pool_pending)
qed

section \<open>Pending slashings in a block\<close>

text \<open>Every chosen slashing names a validator that can be slashed and that no earlier one slashes.\<close>

fun chosen :: "BeaconChainConfig \<Rightarrow> BeaconState \<Rightarrow> Pool \<Rightarrow> ValidatorIndex set \<Rightarrow> PendingAttesterSlashing list \<Rightarrow> bool" where
  "chosen cfg s p inc [] \<longleftrightarrow> True"
| "chosen cfg s p inc (x # xs) \<longleftrightarrow> validatorSlashingPreconditionCheck cfg s p (pa_validatorToSlash x) = Inr True
     \<and> pa_validatorToSlash x \<notin> inc \<and> chosen cfg s p (inc \<union> set (slashedValidators (pa_attesterSlashing x))) xs"

lemma pendingAttesterLoop_chosen:
  "pendingAttesterLoop cfg s p m xs inc pending = (kept, out) \<Longrightarrow>
     \<exists>ys. out = pending @ map pa_attesterSlashing ys \<and> set ys \<subseteq> set xs \<and> chosen cfg s p (set inc) ys"
proof (induction xs arbitrary: inc pending kept)
  case (Cons x xs)
  let ?v = "pa_validatorToSlash x" and ?inc = "inc @ slashedValidators (pa_attesterSlashing x)"
  have skip: ?case if "pendingAttesterLoop cfg s p m xs inc pending = (k, out)" for k
    using Cons.IH [OF that] by (metis set_subset_Cons subset_trans)
  show ?case
  proof (cases "of_nat (length pending) \<ge> m")
    case True
    then show ?thesis using Cons.prems by (intro exI [of _ "[]"]) auto
  next
    case lt: False
    show ?thesis
    proof (cases "validatorSlashingPreconditionCheck cfg s p ?v = Inr True \<and> ?v \<notin> set inc")
      case True
      then obtain k where "pendingAttesterLoop cfg s p m xs ?inc (pending @ [pa_attesterSlashing x]) = (k, out)"
        using Cons.prems lt by (auto split: prod.splits)
      from Cons.IH [OF this] obtain ys where "out = pending @ [pa_attesterSlashing x] @ map pa_attesterSlashing ys"
        "set ys \<subseteq> set xs" "chosen cfg s p (set ?inc) ys" by auto
      then show ?thesis using True by (intro exI [of _ "x # ys"]) auto
    next
      case False
      then obtain k where "pendingAttesterLoop cfg s p m xs inc pending = (k, out)"
        using Cons.prems lt by (auto split: sum.splits prod.splits if_splits)
      then show ?thesis by (rule skip)
    qed
  qed
qed auto

lemma precondition_slashable:
  "state_ok s \<Longrightarrow> validatorSlashingPreconditionCheck cfg s p v = Inr True \<Longrightarrow>
     unat v < length (bs_validators s) \<and> slashableAt s (CurrentEpoch cfg s) (unat v)"
  by (auto simp: validatorSlashingPreconditionCheck_def state_simps slashableAt_def split: if_splits)

lemma slashedValidators_common: "unat ` set (slashedValidators sl) = commonIndices sl"
  using SlashableAttesterIndices_set(1) by (simp add: slashedValidators_def SlashableAttesterIndices_def)

text \<open>Only the processing of an attester slashing reports that nothing was slashed: no call outside does.\<close>

definition errors_ok :: "BeaconChainConfig \<Rightarrow> CoreEnv \<Rightarrow> SigEnv \<Rightarrow> bool" where
  "errors_ok cfg env sig \<longleftrightarrow> (\<forall>s e. ActiveValidatorCount cfg env s e \<noteq> Inl ErrNoneSlashed)
     \<and> (\<forall>s. BeaconProposerIndex env s \<noteq> Inl ErrNoneSlashed) \<and> (\<forall>s a. sig_IndexedAtt sig s a \<noteq> Inl ErrNoneSlashed)"

lemma rbind_NoneSlashed:
  "rbind r f = Inl ErrNoneSlashed \<longleftrightarrow> r = Inl ErrNoneSlashed \<or> (\<exists>x. r = Inr x \<and> f x = Inl ErrNoneSlashed)"
  by (cases r) auto

lemma state_access_errors:
  "ValidatorAtIndex s i \<noteq> Inl ErrNoneSlashed" "UpdateValidatorAtIndex i v s \<noteq> Inl ErrNoneSlashed"
  "UpdateSlashingsAtIndex k x s \<noteq> Inl ErrNoneSlashed" "DecreaseBalance i x s \<noteq> Inl ErrNoneSlashed"
  "IncreaseBalance i x s \<noteq> Inl ErrNoneSlashed" "Div64 x y \<noteq> Inl ErrNoneSlashed" "Epoch_SafeAddEpoch x y \<noteq> Inl ErrNoneSlashed"
  "Epoch_SafeAdd x y \<noteq> Inl ErrNoneSlashed" "SlashingParamsPerVersion cfg ver \<noteq> Inl ErrNoneSlashed"
  by (auto simp: ValidatorAtIndex_def UpdateValidatorAtIndex_def UpdateSlashingsAtIndex_def sliceAt_def sliceUpdateAt_def
      DecreaseBalance_def IncreaseBalance_def BalanceAtIndex_def UpdateBalancesAtIndex_def IncreaseBalanceWithVal_def Div64_def
      Epoch_SafeAddEpoch_def Epoch_SafeAdd_def Add64_eq SlashingParamsPerVersion_def rbind_NoneSlashed)

lemma SlashValidator_errors:
  assumes "errors_ok cfg env sig"
  shows "SlashValidator cfg env i s info \<noteq> Inl ErrNoneSlashed"
proof -
  have "InitiateValidatorExitForTotalBal cfg env i tb s info \<noteq> Inl ErrNoneSlashed" for tb
    using assms by (auto simp: InitiateValidatorExitForTotalBal_def initiateValidatorExitPreElectra_def setExit_def errors_ok_def
        ExitEpochAndUpdateChurnForTotalBal_def exitEpochAndUpdateChurn_def Let_def rbind_NoneSlashed state_access_errors split: if_splits)
  moreover have "settleBalances cfg env i v t \<noteq> Inl ErrNoneSlashed" for v t
    using assms by (auto simp: settleBalances_def errors_ok_def Let_def rbind_NoneSlashed state_access_errors)
  moreover have "markSlashed cfg i t \<noteq> Inl ErrNoneSlashed" for t
    by (auto simp: markSlashed_def Let_def rbind_NoneSlashed state_access_errors)
  ultimately show ?thesis
    by (auto simp: SlashValidator_def unlessExited_def rbind_NoneSlashed split: sum.splits if_splits)
qed

lemma slashLoop_errors: "errors_ok cfg env sig \<Longrightarrow> slashLoop cfg env e is st \<noteq> Inl ErrNoneSlashed"
proof (induction "is" arbitrary: st)
  case (Cons i "is")
  obtain s info any where st: "st = (s, info, any)" by (cases st) auto
  show ?case using Cons.IH [OF Cons.prems] SlashValidator_errors [OF Cons.prems]
    by (auto simp: st rbind_NoneSlashed state_access_errors)
qed auto

lemma VerifyAttesterSlashing_errors: "errors_ok cfg env sig \<Longrightarrow> VerifyAttesterSlashing cfg sig s sl \<noteq> Inl ErrNoneSlashed"
  by (auto simp: VerifyAttesterSlashing_def VerifyIndexedAttestation_def IsValidAttestationIndices_def Let_def rbind_def
      IsSlashableAttestationData_eq errors_ok_def split: option.splits sum.splits if_splits)

lemma process_chosen:
  assumes cfg: "state_ok s" "exit_cfg cfg" "caches_ok cfg env" "errors_ok cfg env sig"
  shows "slashedExactly s (CurrentEpoch cfg s) (unat ` inc) t \<Longrightarrow> chosen cfg s p inc ys \<Longrightarrow>
    \<forall>y \<in> set ys. pa_validatorToSlash y \<in> set (slashedValidators (pa_attesterSlashing y)) \<Longrightarrow>
    ProcessAttesterSlashings cfg env sig (map (Some \<circ> pa_attesterSlashing) ys) (t, info) \<noteq> Inl ErrNoneSlashed"
proof (induction ys arbitrary: inc t info)
  case Nil
  then show ?case by (simp add: ProcessAttesterSlashings_def)
next
  case (Cons y ys)
  let ?e = "CurrentEpoch cfg s" and ?sl = "pa_attesterSlashing y" and ?j = "unat (pa_validatorToSlash y)"
  have t: "state_ok t" "CurrentEpoch cfg t = ?e" using Cons.prems(1) by (simp_all add: slashedExactly_def CurrentEpoch_def)
  have j: "?j < length (bs_validators s)" "slashableAt s ?e ?j" "?j \<notin> unat ` inc"
    using precondition_slashable [OF cfg(1)] Cons.prems(2) by (auto simp: u64_eq_iff [symmetric])
  have "slashableAt t ?e ?j" using Cons.prems(1) j by (auto simp: slashedExactly_def slashableAt_def)
  moreover have "?j \<in> commonIndices ?sl" using Cons.prems(3) by (simp flip: slashedValidators_common)
  ultimately have any: "\<exists>j \<in> commonIndices ?sl. slashableAt t ?e j" by blast
  have first: "ProcessAttesterSlashing cfg env sig (Some ?sl) (t, info) \<noteq> Inl ErrNoneSlashed"
    using ProcessAttesterSlashing_spec(2) [OF t(1) cfg(2,3), of ?sl info _ _ False] any
      VerifyAttesterSlashing_errors [OF cfg(4)] slashLoop_errors [OF cfg(4)] t(2)
    by (auto simp: ProcessAttesterSlashing_def rbind_NoneSlashed Let_def CurrentEpoch_def)
  have rest: "ProcessAttesterSlashings cfg env sig (map (Some \<circ> pa_attesterSlashing) ys) (t', info') \<noteq> Inl ErrNoneSlashed"
    if r: "ProcessAttesterSlashing cfg env sig (Some ?sl) (t, info) = Inr (t', info')" for t' info'
  proof (rule Cons.IH [of "inc \<union> set (slashedValidators ?sl)"])
    obtain any' where "slashLoop cfg env (CurrentEpoch cfg t) (sort (SlashableAttesterIndices (Some ?sl))) (t, info, False) = Inr (t', info', any')"
      using r by (auto simp: ProcessAttesterSlashing_def rbind_eq_Inr Let_def CurrentEpoch_def split: if_splits)
    then have "slashedExactly t ?e (commonIndices ?sl) t'" using ProcessAttesterSlashing_spec(1) [OF t(1) cfg(2,3)] t(2) by simp
    then show "slashedExactly s ?e (unat ` (inc \<union> set (slashedValidators ?sl))) t'"
      using slashedExactly_compose [OF Cons.prems(1)] by (simp add: image_Un slashedValidators_common)
  qed (use Cons.prems in auto)
  show ?case using first rest by (auto simp: ProcessAttesterSlashings_def rbind_NoneSlashed comp_def)
qed

text \<open>C17. The slashings a pool hands out for a block on a state are never refused there for slashing nobody: processed in order
  on that state, each of them still finds a validator to slash that no earlier one has slashed, so that the processing of the block
  does not end with the error of a slashing without effect.\<close>

theorem pending_slashings_effective:
  assumes "reachablePool cfg sig p" "state_ok s" "exit_cfg cfg" "caches_ok cfg env" "errors_ok cfg env sig"
    and out: "PendingAttesterSlashings cfg s noLimit p = (slashings, p')"
  shows "ProcessAttesterSlashings cfg env sig (map Some slashings) (s, info) \<noteq> Inl ErrNoneSlashed"
proof -
  have pool: "pool_ok p" by (rule reachablePool_ok [OF assms(1)])
  obtain m kept where "pendingAttesterLoop cfg s p m (pendingAttesterSlashing p) [] [] = (kept, slashings)"
    using out by (auto simp: PendingAttesterSlashings_def Let_def split: prod.splits)
  from pendingAttesterLoop_chosen [OF this] obtain ys where ys: "slashings = map pa_attesterSlashing ys"
    "set ys \<subseteq> set (pendingAttesterSlashing p)" "chosen cfg s p {} ys" by auto
  have "slashedExactly s (CurrentEpoch cfg s) (unat ` {}) s" using slashedExactly_none [OF assms(2), of "{}"] by simp
  from process_chosen [OF assms(2-5) this ys(3), of info] show ?thesis using pool ys(1,2) by (auto simp: pool_ok_def)
qed

lemma ex_pool_out: "case PendingAttesterSlashings mainnetBeaconConfig ex_state True ex_pool of (out, p) \<Rightarrow> out = [ex_pair]"
  by code_simp

lemma ex_errors_ok: "errors_ok mainnetBeaconConfig ex_env ex_sig"
  by (auto simp: errors_ok_def ex_sig_def ex_env_def ActiveValidatorCount_def Seed_def RandaoMix_def RandaoMixAtIndex_def sliceAt_def
      Let_def rbind_NoneSlashed)

theorem pending_slashings_effective_witness:
  "PendingAttesterSlashings mainnetBeaconConfig ex_state True ex_pool
     = ([ex_pair], snd (PendingAttesterSlashings mainnetBeaconConfig ex_state True ex_pool))
   \<and> ProcessAttesterSlashings mainnetBeaconConfig ex_env ex_sig [Some ex_pair] (ex_state, ExitInformation mainnetBeaconConfig ex_state)
       \<noteq> Inl ErrNoneSlashed"
proof -
  have out: "PendingAttesterSlashings mainnetBeaconConfig ex_state True ex_pool
     = ([ex_pair], snd (PendingAttesterSlashings mainnetBeaconConfig ex_state True ex_pool))"
    using ex_pool_out by (auto split: prod.splits)
  from pending_slashings_effective [OF ex_pool_reachable ex_state_ok exit_cfg_mainnet ex_env_caches ex_errors_ok this] out
  show ?thesis by simp
qed

end
