(* ===== verification/Shuffle.thy ===== *)
theory Shuffle
  imports Core_State Slices
begin

text \<open>
  The swap-or-not shuffle of \<^verbatim>\<open>core/helpers/shuffle.go\<close>: the position of one index after all rounds, its inverse, and the routine that
  shuffles or unshuffles a whole list in place. The hash function is an argument; what is used of it is that it returns 32 bytes.

  The theorems show that the shuffled index is a permutation with the unshuffled index as its inverse, and that the list routine, which
  hashes once in 256 positions and swaps each pair once, moves every element to the place the index routine gives.
\<close>

unbundle bit_operations_syntax

section \<open>Positions and their bits\<close>

definition maxShuffleListSize :: u64 where "maxShuffleListSize = 1099511627776"

text \<open>A 64-bit number read from eight bytes in little-endian order, and the four low bytes of a number.\<close>

definition FromBytes8 :: "u8 list \<Rightarrow> u64" where
  "FromBytes8 x = (if length x < 8 then 0 else foldr (\<lambda>b acc. ucast b + 256 * acc) (take 8 x) 0)"

definition PutUint32 :: "u64 \<Rightarrow> u8 list" where
  "PutUint32 x = map (\<lambda>k. ucast (drop_bit (8 * k) x)) [0..<4]"

definition roundPivot :: "(u8 list \<Rightarrow> u8 list) \<Rightarrow> u8 list \<Rightarrow> u8 \<Rightarrow> u64 \<Rightarrow> u64" where
  "roundPivot hash seed round listSize = FromBytes8 (take 8 (hash (seed @ [round]))) mod listSize"

text \<open>The hash for a position covers the 256 positions that differ in the last byte only; a bit of it decides for each position.\<close>

definition positionSource :: "(u8 list \<Rightarrow> u8 list) \<Rightarrow> u8 list \<Rightarrow> u8 \<Rightarrow> u64 \<Rightarrow> u8 list" where
  "positionSource hash seed round position = hash (seed @ [round] @ PutUint32 (drop_bit 8 position))"

definition positionByte :: "u8 list \<Rightarrow> u64 \<Rightarrow> u8" where
  "positionByte source position = source ! unat (drop_bit 3 (position AND 0xff))"

definition positionBit :: "u8 \<Rightarrow> u64 \<Rightarrow> bool" where
  "positionBit byteV position \<longleftrightarrow> drop_bit (unat (position AND 7)) byteV AND 1 = 1"

section \<open>Rounds\<close>

text \<open>
  The loop over the rounds, upwards to shuffle and downwards to unshuffle. The counter is a byte: started at 0 and ended when it
  comes to \<open>rounds\<close>, or started at \<open>rounds - 1\<close> and ended after the round 0.
\<close>

function roundLoop :: "(u8 \<Rightarrow> 's \<Rightarrow> 's result) \<Rightarrow> bool \<Rightarrow> u8 \<Rightarrow> u8 \<Rightarrow> 's \<Rightarrow> 's result" where
  "roundLoop body shuffle rounds round s =
     rbind (body round s) (\<lambda>s.
       if shuffle then
         let round = round + 1 in if round = rounds then Inr s else roundLoop body shuffle rounds round s
       else if round = 0 then Inr s else roundLoop body shuffle rounds (round - 1) s)"
  by pat_completeness auto

termination roundLoop
proof (relation "measure (\<lambda>(body, shuffle, rounds, round, s). if shuffle then unat (rounds - round - 1) else unat round)", goal_cases)
  case (2 body shuffle rounds round s s' round')
  then have ne: "rounds - round - 1 \<noteq> 0" by (auto simp: algebra_simps)
  have "rounds - round' - 1 = (rounds - round - 1) - 1" using 2 by (simp add: algebra_simps)
  then have "unat (rounds - round' - 1) = unat (rounds - round - 1) - 1" by (simp only: unat_minus_one [OF ne])
  then have "unat (rounds - round' - 1) < unat (rounds - round - 1)" using ne unat_gt_0 [of "rounds - round - 1"] by linarith
  then show ?case using 2 by simp
next
  case (3 body shuffle rounds round s s')
  then show ?case by (simp add: unat_gt_0 unat_minus_one)
qed simp

section \<open>One index\<close>

definition indexRound :: "(u8 list \<Rightarrow> u8 list) \<Rightarrow> u8 list \<Rightarrow> u64 \<Rightarrow> u8 \<Rightarrow> u64 \<Rightarrow> u64 result" where
  "indexRound hash seed indexCount round index =
     (let pivot = roundPivot hash seed round indexCount;
          flip = (pivot + indexCount - index) mod indexCount;
          position = (if flip > index then flip else index);
          source = positionSource hash seed round position;
          byteV = positionByte source position
      in Inr (if positionBit byteV position then flip else index))"

definition ComputeShuffledIndex ::
    "BeaconChainConfig \<Rightarrow> (u8 list \<Rightarrow> u8 list) \<Rightarrow> u64 \<Rightarrow> u64 \<Rightarrow> u8 list \<Rightarrow> bool \<Rightarrow> u64 result" where
  "ComputeShuffledIndex cfg hash index indexCount seed shuffle =
     (if ShuffleRoundCount cfg = 0 then Inr index
      else if index \<ge> indexCount then Inl ErrShuffleIndex
      else if indexCount > maxShuffleListSize then Inl ErrListSize
      else let rounds = ucast (ShuffleRoundCount cfg) in
        roundLoop (indexRound hash seed indexCount) shuffle rounds (if shuffle then 0 else rounds - 1) index)"

definition ShuffledIndex :: "BeaconChainConfig \<Rightarrow> (u8 list \<Rightarrow> u8 list) \<Rightarrow> u64 \<Rightarrow> u64 \<Rightarrow> u8 list \<Rightarrow> u64 result" where
  "ShuffledIndex cfg hash index indexCount seed = ComputeShuffledIndex cfg hash index indexCount seed True"

definition UnShuffledIndex :: "BeaconChainConfig \<Rightarrow> (u8 list \<Rightarrow> u8 list) \<Rightarrow> u64 \<Rightarrow> u64 \<Rightarrow> u8 list \<Rightarrow> u64 result" where
  "UnShuffledIndex cfg hash index indexCount seed = ComputeShuffledIndex cfg hash index indexCount seed False"

section \<open>A list in place\<close>

definition swapOrNot :: "(u8 list \<Rightarrow> u8 list) \<Rightarrow> u8 list \<Rightarrow> u8 \<Rightarrow> u64 \<Rightarrow> u64 \<Rightarrow> u8 \<times> u8 list \<times> 'a list
    \<Rightarrow> (u8 \<times> u8 list \<times> 'a list) result" where
  "swapOrNot hash seed round i j = (\<lambda>(byteV, source, input).
     let source = (if j AND 0xff = 0xff then positionSource hash seed round j else source);
         byteV = (if j AND 7 = 7 then positionByte source j else byteV)
     in if positionBit byteV j then
          if unat i < length input \<and> unat j < length input
          then Inr (byteV, source, input[unat i := input ! unat j, unat j := input ! unat i]) else Inl Panic
        else Inr (byteV, source, input))"

function swapLoop :: "(u8 list \<Rightarrow> u8 list) \<Rightarrow> u8 list \<Rightarrow> u8 \<Rightarrow> u64 \<Rightarrow> u64 \<Rightarrow> u64 \<Rightarrow> u8 \<times> u8 list \<times> 'a list \<Rightarrow> 'a list result" where
  "swapLoop hash seed round i j mirror st =
     (if i < mirror then rbind (swapOrNot hash seed round i j st) (swapLoop hash seed round (i + 1) (j - 1) mirror)
      else Inr (snd (snd st)))"
  by pat_completeness auto

termination swapLoop
proof (relation "measure (\<lambda>(hash, seed, round, i, j, mirror, st). unat mirror - unat i)", goal_cases)
  case (2 hash seed round i j mirror st st')
  then have "unat i < unat mirror" by (simp add: word_less_unat)
  moreover have "unat (i + 1) = unat i + 1"
    using \<open>unat i < unat mirror\<close> unat_u64_bound [of mirror] by (subst unat_add_exact) simp_all
  ultimately show ?case by simp
qed simp

definition listRound :: "(u8 list \<Rightarrow> u8 list) \<Rightarrow> u8 list \<Rightarrow> u8 \<Rightarrow> 'a list \<Rightarrow> 'a list result" where
  "listRound hash seed r input =
     (let listSize = of_nat (length input);
          pivot = roundPivot hash seed r listSize;
          mirror = drop_bit 1 (pivot + 1);
          source = positionSource hash seed r pivot;
          byteV = positionByte source pivot in
      rbind (swapLoop hash seed r 0 pivot mirror (byteV, source, input)) (\<lambda>input.
        let mirror = drop_bit 1 (pivot + listSize + 1);
            end' = listSize - 1;
            source = positionSource hash seed r end';
            byteV = positionByte source end' in
        swapLoop hash seed r (pivot + 1) end' mirror (byteV, source, input)))"

definition innerShuffleList :: "BeaconChainConfig \<Rightarrow> (u8 list \<Rightarrow> u8 list) \<Rightarrow> 'a list \<Rightarrow> u8 list \<Rightarrow> bool \<Rightarrow> 'a list result" where
  "innerShuffleList cfg hash input seed shuffle =
     (if length input \<le> 1 then Inr input
      else if of_nat (length input) > maxShuffleListSize then Inl ErrListSize
      else let rounds = ucast (ShuffleRoundCount cfg) in
        if rounds = 0 then Inr input
        else roundLoop (listRound hash seed) shuffle rounds (if shuffle then 0 else rounds - 1) input)"

definition ShuffleList :: "BeaconChainConfig \<Rightarrow> (u8 list \<Rightarrow> u8 list) \<Rightarrow> 'a list \<Rightarrow> u8 list \<Rightarrow> 'a list result" where
  "ShuffleList cfg hash input seed = innerShuffleList cfg hash input seed True"

definition UnshuffleList :: "BeaconChainConfig \<Rightarrow> (u8 list \<Rightarrow> u8 list) \<Rightarrow> 'a list \<Rightarrow> u8 list \<Rightarrow> 'a list result" where
  "UnshuffleList cfg hash input seed = innerShuffleList cfg hash input seed False"

definition SplitIndices :: "u64 list \<Rightarrow> u64 \<Rightarrow> u64 list list result" where
  "SplitIndices l n = rfold (\<lambda>i divided.
     rbind (SplitOffset (of_nat (length l)) n (of_nat i)) (\<lambda>start.
     rbind (SplitOffset (of_nat (length l)) n (of_nat i + 1)) (\<lambda>end'.
       if start \<le> end' \<and> unat end' \<le> length l then Inr (divided @ [take (unat end' - unat start) (drop (unat start) l)]) else Inl Panic)))
     [0..<unat n] []"

section \<open>Rounds as sequences\<close>

declare roundLoop.simps [simp del] swapLoop.simps [simp del]

lemma roundLoop_up: "unat r < unat R \<Longrightarrow> roundLoop body True R r s = rfold (body \<circ> of_nat) [unat r..<unat R] s"
proof (induction "unat R - unat r" arbitrary: r s)
  case (Suc k)
  have "unat R < 2 ^ LENGTH(8)" by (rule unsigned_less)
  then have r: "unat (r + 1) = unat r + 1" using Suc.prems by (simp add: unat_word_ariths)
  have upt: "[unat r..<unat R] = unat r # [unat r + 1..<unat R]" using Suc.prems by (simp add: upt_conv_Cons)
  show ?case
  proof (cases "r + 1 = R")
    case True
    then have "unat R = unat r + 1" using r by auto
    then show ?thesis by (subst roundLoop.simps) (cases "body r s"; simp add: True)
  next
    case False
    then have "unat (r + 1) < unat R" using r Suc.prems word_unat_eq_iff [of "r + 1" R] by linarith
    then have "roundLoop body True R (r + 1) s' = rfold (body \<circ> of_nat) [unat r + 1..<unat R] s'" for s'
      using Suc.hyps(1) [of "r + 1" s'] Suc.hyps(2) r by simp
    then show ?thesis unfolding upt by (subst roundLoop.simps) (simp add: False)
  qed
qed simp

lemma roundLoop_down: "roundLoop body False R r s = rfold (body \<circ> of_nat) (rev [0..<Suc (unat r)]) s"
proof (induction "unat r" arbitrary: r s)
  case 0
  then have "r = 0" by (simp add: unat_eq_0)
  then show ?case by (subst roundLoop.simps) (simp add: rbind_def split: sum.splits)
next
  case (Suc k)
  then have ne: "r \<noteq> 0" by auto
  then have "unat (r - 1) = k" using Suc.hyps(2) by (simp add: unat_minus_one)
  then have "roundLoop body False R (r - 1) s' = rfold (body \<circ> of_nat) (rev [0..<Suc k]) s'" for s' using Suc.hyps(1) [of "r - 1"] by simp
  moreover have "rev [0..<Suc (unat r)] = unat r # rev [0..<Suc k]" using Suc.hyps(2) by simp
  ultimately show ?case using ne by (subst roundLoop.simps) (cases "body r s"; simp)
qed

definition roundsOf :: "BeaconChainConfig \<Rightarrow> bool \<Rightarrow> nat list" where
  "roundsOf cfg shuffle = (let rs = [0..<unat (ShuffleRoundCount cfg)] in if shuffle then rs else rev rs)"

lemma roundLoop_rounds:
  assumes "ShuffleRoundCount cfg \<noteq> 0" "ShuffleRoundCount cfg < 256"
  defines "R \<equiv> ucast (ShuffleRoundCount cfg) :: u8"
  shows "R \<noteq> 0" "roundLoop body shuffle R (if shuffle then 0 else R - 1) s = rfold (body \<circ> of_nat) (roundsOf cfg shuffle) s"
proof -
  have u: "unat R = unat (ShuffleRoundCount cfg)" using assms(2) by (simp add: R_def unsigned_ucast_eq take_bit_nat_eq_self word_less_unat)
  then have pos: "0 < unat R" using assms(1) by (simp add: unat_gt_0)
  then show ne: "R \<noteq> 0" by auto
  have "Suc (unat (R - 1)) = unat R" using pos ne by (simp add: unat_minus_one)
  then show "roundLoop body shuffle R (if shuffle then 0 else R - 1) s = rfold (body \<circ> of_nat) (roundsOf cfg shuffle) s"
    using roundLoop_up [of 0 R body s] roundLoop_down [of body R "R - 1" s] pos u by (cases shuffle) (simp_all add: roundsOf_def)
qed

lemma rfold_fold:
  assumes "\<And>x s. x \<in> set xs \<Longrightarrow> P s \<Longrightarrow> f x s = Inr (g x s) \<and> P (g x s)" and "P s"
  shows "rfold f xs s = Inr (fold g xs s) \<and> P (fold g xs s)"
  using assms by (induction xs arbitrary: s) auto

section \<open>The permutation\<close>

text \<open>The partner of a position in a round, and where the round moves the position: both are involutions.\<close>

definition flipOf :: "nat \<Rightarrow> nat \<Rightarrow> nat \<Rightarrow> nat" where
  "flipOf p n i = (if i \<le> p then p - i else p + n - i)"

definition swapTo :: "(nat \<Rightarrow> bool) \<Rightarrow> nat \<Rightarrow> nat \<Rightarrow> nat \<Rightarrow> nat" where
  "swapTo b p n i = (if b (max i (flipOf p n i)) then flipOf p n i else i)"

lemma flipOf_facts: "p < n \<Longrightarrow> i < n \<Longrightarrow> flipOf p n i < n \<and> flipOf p n (flipOf p n i) = i"
  by (auto simp: flipOf_def)

lemma swapTo_facts: "p < n \<Longrightarrow> i < n \<Longrightarrow> swapTo b p n i < n \<and> swapTo b p n (swapTo b p n i) = i"
  using flipOf_facts [of p n i] by (auto simp: swapTo_def max.commute)

definition bitAt :: "(u8 list \<Rightarrow> u8 list) \<Rightarrow> u8 list \<Rightarrow> u8 \<Rightarrow> nat \<Rightarrow> bool" where
  "bitAt hash seed r j = positionBit (positionByte (positionSource hash seed r (of_nat j)) (of_nat j)) (of_nat j)"

definition roundMove :: "(u8 list \<Rightarrow> u8 list) \<Rightarrow> u8 list \<Rightarrow> nat \<Rightarrow> nat \<Rightarrow> nat \<Rightarrow> nat" where
  "roundMove hash seed n r i = swapTo (bitAt hash seed (of_nat r)) (unat (roundPivot hash seed (of_nat r) (of_nat n))) n i"

lemma word_of_nat_unat_eq: "of_nat (unat (x :: u64)) = x"
  by simp

lemma pivot_less: "0 < n \<Longrightarrow> n \<le> 2 ^ 40 \<Longrightarrow> unat (roundPivot hash seed r (of_nat n)) < n"
  by (simp add: roundPivot_def unat_mod_u64 unat_of_nat)

lemma roundMove_facts:
  "i < n \<Longrightarrow> n \<le> 2 ^ 40 \<Longrightarrow> roundMove hash seed n r i < n \<and> roundMove hash seed n r (roundMove hash seed n r i) = i"
  unfolding roundMove_def using pivot_less [of n] by (intro swapTo_facts) simp_all

lemma indexRound_move:
  assumes "i < n" "n \<le> 2 ^ 40"
  shows "indexRound hash seed (of_nat n) (of_nat r) (of_nat i) = Inr (of_nat (roundMove hash seed n r i))"
proof -
  let ?p = "roundPivot hash seed (of_nat r) (of_nat n)"
  have p: "unat ?p < n" by (rule pivot_less) (use assms in auto)
  have n: "unat (of_nat n :: u64) = n" "unat (of_nat i :: u64) = i" using assms by (simp_all add: unat_of_nat)
  have "unat (?p + of_nat n) = unat ?p + n" using p n assms by (subst unat_add_exact) simp_all
  moreover from this have "unat (?p + of_nat n - of_nat i) = unat ?p + n - i" using n assms by (subst unat_minus_u64) (simp_all add: word_le_unat)
  ultimately have "unat ((?p + of_nat n - of_nat i) mod of_nat n) = (unat ?p + n - i) mod n" by (simp add: unat_mod_u64 n)
  also have "\<dots> = flipOf (unat ?p) n i"
    using p assms by (auto simp: flipOf_def mod_if not_le)
  finally have flip: "(?p + of_nat n - of_nat i) mod of_nat n = of_nat (flipOf (unat ?p) n i)"
    using word_of_nat_unat_eq [of "(?p + of_nat n - of_nat i) mod of_nat n"] by simp
  have "flipOf (unat ?p) n i < n" using flipOf_facts [OF p assms(1)] by simp
  then have "unat (of_nat (flipOf (unat ?p) n i) :: u64) = flipOf (unat ?p) n i" using assms by (simp add: unat_of_nat)
  then have pos: "(if (of_nat (flipOf (unat ?p) n i) :: u64) > of_nat i then of_nat (flipOf (unat ?p) n i) else of_nat i)
      = (of_nat (max i (flipOf (unat ?p) n i)) :: u64)" using n by (auto simp: word_less_unat max_def)
  show ?thesis by (simp only: indexRound_def Let_def flip pos) (simp add: roundMove_def swapTo_def bitAt_def)
qed

definition shuffle_cfg :: "BeaconChainConfig \<Rightarrow> bool" where
  "shuffle_cfg cfg \<longleftrightarrow> ShuffleRoundCount cfg \<noteq> 0 \<and> ShuffleRoundCount cfg < 256"

lemma shuffle_cfg_mainnet [simp]: "shuffle_cfg mainnetBeaconConfig"
  by (simp add: shuffle_cfg_def mainnetBeaconConfig_def)

text \<open>Where all rounds together move a position.\<close>

definition shuffleTo :: "BeaconChainConfig \<Rightarrow> (u8 list \<Rightarrow> u8 list) \<Rightarrow> u8 list \<Rightarrow> nat \<Rightarrow> bool \<Rightarrow> nat \<Rightarrow> nat" where
  "shuffleTo cfg hash seed n shuffle = fold (roundMove hash seed n) (roundsOf cfg shuffle)"

lemma fold_involutions:
  assumes "\<And>r i. i < n \<Longrightarrow> f r i < n \<and> f r (f r i) = i"
  shows "i < n \<Longrightarrow> fold f rs i < n \<and> fold f (rev rs) (fold f rs i) = i"
  using assms by (induction rs arbitrary: i) auto

lemma shuffleTo_inverse:
  assumes "i < n" "n \<le> 2 ^ 40"
  shows "shuffleTo cfg hash seed n shuffle i < n" "shuffleTo cfg hash seed n (\<not> shuffle) (shuffleTo cfg hash seed n shuffle i) = i"
proof -
  have f: "j < n \<Longrightarrow> roundMove hash seed n r j < n \<and> roundMove hash seed n r (roundMove hash seed n r j) = j" for r j
    using roundMove_facts assms(2) by blast
  have "roundsOf cfg (\<not> shuffle) = rev (roundsOf cfg shuffle)" by (simp add: roundsOf_def Let_def)
  then show "shuffleTo cfg hash seed n shuffle i < n" "shuffleTo cfg hash seed n (\<not> shuffle) (shuffleTo cfg hash seed n shuffle i) = i"
    using fold_involutions [of n "roundMove hash seed n" i "roundsOf cfg shuffle", OF f assms(1)] by (simp_all add: shuffleTo_def)
qed

lemma ComputeShuffledIndex_eq:
  assumes cfg: "shuffle_cfg cfg" and i: "unat index < unat indexCount" and n: "indexCount \<le> maxShuffleListSize"
  shows "ComputeShuffledIndex cfg hash index indexCount seed shuffle
    = Inr (of_nat (shuffleTo cfg hash seed (unat indexCount) shuffle (unat index)))"
proof -
  let ?n = "unat indexCount" and ?R = "ucast (ShuffleRoundCount cfg) :: u8"
  have n': "?n \<le> 2 ^ 40" using n by (simp add: word_le_unat maxShuffleListSize_def)
  define P where "P j \<longleftrightarrow> unat (j :: u64) < ?n" for j
  have step: "(indexRound hash seed indexCount \<circ> of_nat) r j = Inr (of_nat (roundMove hash seed ?n r (unat j))) \<and> P (of_nat (roundMove hash seed ?n r (unat j)))"
    if "P j" for r j
    using that indexRound_move [of "unat j" ?n hash seed r] n' roundMove_facts [of "unat j" ?n hash seed r] by (simp add: P_def unat_of_nat)
  have "rfold (indexRound hash seed indexCount \<circ> of_nat) rs j = Inr (of_nat (fold (roundMove hash seed ?n) rs (unat j)))" if "P j" for rs j
    using that
  proof (induction rs arbitrary: j)
    case (Cons r rs)
    have "unat (of_nat (roundMove hash seed ?n r (unat j)) :: u64) = roundMove hash seed ?n r (unat j)"
      using roundMove_facts [of "unat j" ?n hash seed r] Cons.prems n' by (simp add: P_def unat_of_nat)
    then show ?case using step [OF Cons.prems, of r] Cons.IH [of "of_nat (roundMove hash seed ?n r (unat j))"] by simp
  qed simp
  then show ?thesis
    using i n roundLoop_rounds(2) [of cfg "indexRound hash seed indexCount" shuffle index] cfg
    by (simp add: ComputeShuffledIndex_def shuffle_cfg_def shuffleTo_def P_def word_less_unat word_le_unat not_le not_less)
qed

section \<open>The swaps of a round\<close>

text \<open>The loop on numbers: from the ends \<open>i\<close> and \<open>j\<close> inwards, a pair is swapped if the bit of its greater position is set.\<close>

function swaps :: "(nat \<Rightarrow> bool) \<Rightarrow> nat \<Rightarrow> nat \<Rightarrow> nat \<Rightarrow> 'a list \<Rightarrow> 'a list" where
  "swaps b i j m xs = (if i < m then swaps b (i + 1) (j - 1) m (if b j then xs[i := xs ! j, j := xs ! i] else xs) else xs)"
  by pat_completeness auto

termination swaps
  by (relation "measure (\<lambda>(b, i, j, m, xs). m - i)") auto

declare swaps.simps [simp del]

lemma length_swaps [simp]: "length (swaps b i j m xs) = length xs"
proof (induction b i j m xs rule: swaps.induct)
  case (1 b i j m xs)
  then show ?case by (subst swaps.simps) simp
qed

lemma swaps_nth:
  assumes "i + j = c" "m = (c + 1) div 2" "j < length xs" "x < length xs"
  shows "swaps b i j m xs ! x = (if i \<le> x \<and> x \<le> j \<and> b (max x (c - x)) then xs ! (c - x) else xs ! x)"
  using assms
proof (induction b i j m xs arbitrary: x rule: swaps.induct)
  case (1 b i j m xs)
  show ?case
  proof (cases "i < m")
    case True
    then have ij: "i < j" using "1.prems" by auto
    let ?ys = "if b j then xs[i := xs ! j, j := xs ! i] else xs"
    have c: "c - i = j" "c - j = i" "max i j = j" "max j i = j" using "1.prems"(1) ij by auto
    have ys: "?ys ! y = (if b j then if y = i then xs ! j else if y = j then xs ! i else xs ! y else xs ! y)" if "y < length xs" for y
      using that ij "1.prems"(3) by (auto simp: nth_list_update)
    have "swaps b i j m xs ! x = swaps b (i + 1) (j - 1) m ?ys ! x" using True by (subst swaps.simps) (rule arg_cong, simp)
    also have "\<dots> = (if i + 1 \<le> x \<and> x \<le> j - 1 \<and> b (max x (c - x)) then ?ys ! (c - x) else ?ys ! x)"
      using "1.IH" [OF True, of x] "1.prems" ij by simp
    finally have eq: "swaps b i j m xs ! x = (if i + 1 \<le> x \<and> x \<le> j - 1 \<and> b (max x (c - x)) then ?ys ! (c - x) else ?ys ! x)" .
    consider "x = i" | "x = j" | "i < x" "x < j" | "x < i \<or> j < x" by linarith
    then show ?thesis
    proof cases
      case 1
      then show ?thesis using eq ys [of i] c ij "1.prems"(4) by simp
    next
      case 2
      then show ?thesis using eq ys [of j] c ij "1.prems"(4) by auto
    next
      case 3
      moreover have "c - x < length xs" "c - x \<noteq> i" "c - x \<noteq> j" using 3 "1.prems"(1,3) by linarith+
      ultimately show ?thesis using eq ys [of "c - x"] ys [of x] "1.prems"(4) by auto
    next
      case 4
      then show ?thesis using eq ys [of x] ij "1.prems"(4) by auto
    qed
  next
    case False
    then have "j \<le> i" using "1.prems" by linarith
    then have "c - x = x" if "i \<le> x" "x \<le> j" using that "1.prems"(1) by linarith
    then show ?thesis using False by (subst swaps.simps) auto
  qed
qed

lemma round_nth:
  assumes "p < n" "length xs = n" "x < n"
  shows "swaps b (p + 1) (n - 1) ((p + n + 1) div 2) (swaps b 0 p ((p + 1) div 2) xs) ! x = xs ! swapTo b p n x"
proof -
  let ?ys = "swaps b 0 p ((p + 1) div 2) xs"
  have ys: "?ys ! y = (if y \<le> p \<and> b (max y (p - y)) then xs ! (p - y) else xs ! y)" if "y < n" for y
    using swaps_nth [of 0 p p "(p + 1) div 2" xs y b] that assms by simp
  have "swaps b (p + 1) (n - 1) ((p + n + 1) div 2) ?ys ! x = (if p + 1 \<le> x \<and> x \<le> n - 1 \<and> b (max x (p + n - x)) then ?ys ! (p + n - x) else ?ys ! x)"
    using assms by (intro swaps_nth) auto
  moreover have "?ys ! (p + n - x) = xs ! (p + n - x)" if "p < x" using that assms ys [of "p + n - x"] by auto
  ultimately show ?thesis using assms ys [of x] by (auto simp: swapTo_def flipOf_def)
qed

text \<open>The bytes kept between the steps are those of the position: they are renewed where the position enters another block.\<close>

lemma unat_low_bits: "unat ((j :: u64) AND 255) = unat j mod 256" "unat (j AND 7) = unat j mod 8"
  "unat (drop_bit 8 j) = unat j div 256" "unat (drop_bit 3 j) = unat j div 8" "unat (drop_bit 1 j) = unat j div 2"
proof -
  have "j AND 255 = take_bit 8 j" "j AND 7 = take_bit 3 j" by (simp_all add: take_bit_eq_mask mask_eq_exp_minus_1)
  then show "unat (j AND 255) = unat j mod 256" "unat (j AND 7) = unat j mod 8"
    by (simp_all add: take_bit_eq_mod unat_mod_u64)
  show "unat (drop_bit 8 j) = unat j div 256" "unat (drop_bit 3 j) = unat j div 8" "unat (drop_bit 1 j) = unat j div 2"
    by (simp_all add: drop_bit_eq_div unat_div_u64)
qed

lemma div_same_block: "Suc (k mod d) \<noteq> d \<Longrightarrow> Suc k div d = k div d"
  by (simp add: div_Suc mod_Suc)

lemma same_block: "0 < unat j \<Longrightarrow> (j - 1) AND 0xff \<noteq> 0xff \<Longrightarrow> positionSource hash seed r (j - 1) = positionSource hash seed r j"
proof -
  assume j: "0 < unat j" and ne: "(j - 1) AND 0xff \<noteq> 0xff"
  have "(unat j - 1) mod 256 \<noteq> 255" using ne j by (simp add: u64_eq_iff unat_low_bits unat_pred_u64)
  then have "(unat j - 1) div 256 = unat j div 256" using j div_same_block [of "unat j - 1" 256] by simp
  then have "drop_bit 8 (j - 1) = drop_bit 8 j" using j by (simp add: u64_eq_iff unat_low_bits unat_pred_u64)
  then show ?thesis by (simp add: positionSource_def)
qed

lemma unat_255: "unat (0xff :: u64) = 255"
  by simp

lemma same_byte: "0 < unat j \<Longrightarrow> (j - 1) AND 7 \<noteq> 7 \<Longrightarrow> (j - 1) AND 0xff \<noteq> 0xff \<and> positionByte source (j - 1) = positionByte source j"
proof -
  assume j: "0 < unat j" and ne: "(j - 1) AND 7 \<noteq> 7"
  have m: "(unat j - 1) mod 8 \<noteq> 7" using ne j by (simp add: u64_eq_iff unat_low_bits unat_pred_u64)
  define k where "k = unat j - 1"
  have k: "k mod 256 mod 8 \<noteq> 7" using m by (simp add: k_def mod_mod_cancel)
  then have ne255: "k mod 256 \<noteq> 255" by auto
  moreover have "unat j = Suc k" using j by (simp add: k_def)
  ultimately have "unat j mod 256 = Suc (k mod 256)" by (simp add: mod_Suc)
  then have "(unat j - 1) mod 256 div 8 = unat j mod 256 div 8" "(unat j - 1) mod 256 \<noteq> 255"
    using div_same_block [of "k mod 256" 8] k ne255 by (simp_all add: k_def)
  then have "unat (drop_bit 3 ((j - 1) AND 0xff)) = unat (drop_bit 3 (j AND 0xff))" "unat ((j - 1) AND 0xff) \<noteq> 255"
    by (simp_all only: unat_low_bits unat_pred_u64 [OF j] not_False_eq_True)
  moreover from this(2) have "(j - 1) AND 0xff \<noteq> 0xff" by (metis unat_255)
  ultimately show ?thesis unfolding positionByte_def by (simp only: not_False_eq_True simp_thms)
qed

definition ready :: "(u8 list \<Rightarrow> u8 list) \<Rightarrow> u8 list \<Rightarrow> u8 \<Rightarrow> u64 \<Rightarrow> u8 \<Rightarrow> u8 list \<Rightarrow> bool" where
  "ready hash seed r j byteV source \<longleftrightarrow> (j AND 0xff \<noteq> 0xff \<longrightarrow> source = positionSource hash seed r j)
     \<and> (j AND 7 \<noteq> 7 \<longrightarrow> byteV = positionByte (positionSource hash seed r j) j)"

lemma swapOrNot_eq:
  assumes "ready hash seed r j byteV source" "unat i < length xs" "unat j < length xs"
  defines "src \<equiv> positionSource hash seed r j"
  shows "swapOrNot hash seed r i j (byteV, source, xs) = Inr (positionByte src j, src,
    if bitAt hash seed r (unat j) then xs[unat i := xs ! unat j, unat j := xs ! unat i] else xs)"
  using assms by (auto simp: swapOrNot_def ready_def bitAt_def Let_def)

lemma ready_next: "0 < unat j \<Longrightarrow> ready hash seed r (j - 1) (positionByte (positionSource hash seed r j) j) (positionSource hash seed r j)"
  using same_block [of j hash seed r] same_byte [of j] by (auto simp: ready_def)

lemma swapLoop_eq:
  "ready hash seed r j byteV source \<Longrightarrow> unat i + unat j = c \<Longrightarrow> unat mirror = (c + 1) div 2 \<Longrightarrow> unat j < length xs \<Longrightarrow>
     swapLoop hash seed r i j mirror (byteV, source, xs) = Inr (swaps (bitAt hash seed r) (unat i) (unat j) (unat mirror) xs)"
proof (induction "unat mirror - unat i" arbitrary: i j byteV source xs)
  case 0
  then show ?case by (subst swapLoop.simps, subst swaps.simps) (simp add: word_less_unat)
next
  case (Suc k)
  then have lt: "unat i < unat mirror" by simp
  then have ij: "unat i < unat j" using Suc.prems(2,3) by linarith
  have i: "unat (i + 1) = unat i + 1" using lt unat_u64_bound [of mirror] by (subst unat_add_exact) simp_all
  have j: "unat (j - 1) = unat j - 1" using ij by (intro unat_pred_u64) simp
  let ?src = "positionSource hash seed r j"
  let ?ys = "if bitAt hash seed r (unat j) then xs[unat i := xs ! unat j, unat j := xs ! unat i] else xs"
  have "swapLoop hash seed r (i + 1) (j - 1) mirror (positionByte ?src j, ?src, ?ys)
      = Inr (swaps (bitAt hash seed r) (unat (i + 1)) (unat (j - 1)) (unat mirror) ?ys)"
    using Suc.hyps(2) Suc.prems ij i j ready_next [of j hash seed r] by (intro Suc.hyps(1)) auto
  moreover have "swapOrNot hash seed r i j (byteV, source, xs) = Inr (positionByte ?src j, ?src, ?ys)"
    using Suc.prems(1,4) ij by (intro swapOrNot_eq) simp_all
  ultimately show ?case using lt i j by (subst swapLoop.simps, subst swaps.simps) (simp add: word_less_unat)
qed

lemma ready_start: "ready hash seed r j (positionByte (positionSource hash seed r j) j) (positionSource hash seed r j)"
  by (simp add: ready_def)

lemma listRound_eq:
  assumes "1 < length xs" "length xs \<le> 2 ^ 40"
  shows "listRound hash seed (of_nat r) xs = Inr (map (\<lambda>x. xs ! roundMove hash seed (length xs) r x) [0..<length xs])"
proof -
  let ?n = "length xs" and ?r = "of_nat r :: u8" and ?b = "bitAt hash seed (of_nat r)"
  let ?p = "roundPivot hash seed ?r (of_nat ?n)"
  have p: "unat ?p < ?n" by (rule pivot_less) (use assms in auto)
  have n: "unat (of_nat ?n :: u64) = ?n" using assms by (simp add: unat_of_nat)
  have e1: "unat (of_nat ?n - 1 :: u64) = ?n - 1" using n assms(1) by (subst unat_pred_u64) auto
  have p1: "unat (?p + 1) = unat ?p + 1" using p assms by (subst unat_add_exact) simp_all
  have pn: "unat (?p + of_nat ?n + 1) = unat ?p + ?n + 1"
  proof -
    have "unat (?p + of_nat ?n) = unat ?p + ?n" using p n assms by (subst unat_add_exact) simp_all
    then show ?thesis using p assms by (subst unat_add_exact) simp_all
  qed
  have m: "unat (drop_bit 1 (?p + 1)) = (unat ?p + 1) div 2" "unat (drop_bit 1 (?p + of_nat ?n + 1)) = (unat ?p + ?n + 1) div 2"
    by (simp_all only: unat_low_bits(5) p1 pn)
  let ?ys = "swaps ?b 0 (unat ?p) ((unat ?p + 1) div 2) xs"
  have one: "swapLoop hash seed ?r 0 ?p (drop_bit 1 (?p + 1)) (positionByte (positionSource hash seed ?r ?p) ?p, positionSource hash seed ?r ?p, xs) = Inr ?ys"
    using swapLoop_eq [OF ready_start, of 0 ?p "unat ?p" "drop_bit 1 (?p + 1)" xs hash seed ?r] p m(1) by simp
  let ?e = "of_nat ?n - 1 :: u64"
  have two: "swapLoop hash seed ?r (?p + 1) ?e (drop_bit 1 (?p + of_nat ?n + 1))
      (positionByte (positionSource hash seed ?r ?e) ?e, positionSource hash seed ?r ?e, ?ys)
      = Inr (swaps ?b (unat ?p + 1) (?n - 1) ((unat ?p + ?n + 1) div 2) ?ys)"
    using swapLoop_eq [OF ready_start, of "?p + 1" ?e "unat ?p + ?n" "drop_bit 1 (?p + of_nat ?n + 1)" ?ys hash seed ?r] p p1 m(2) e1 assms
    by simp
  have "swaps ?b (unat ?p + 1) (?n - 1) ((unat ?p + ?n + 1) div 2) ?ys = map (\<lambda>x. xs ! roundMove hash seed ?n r x) [0..<?n]"
    using round_nth [OF p refl, of _ ?b] by (intro nth_equalityI) (simp_all add: roundMove_def)
  then show ?thesis by (simp only: listRound_def Let_def one rbind_simps two)
qed

section \<open>Shuffled lists\<close>

lemma fold_moves:
  assumes "\<And>r i. i < n \<Longrightarrow> f r i < n"
  shows "length xs = n \<Longrightarrow> fold (\<lambda>r xs. map (\<lambda>x. xs ! f r x) [0..<length xs]) rs xs = map (\<lambda>x. xs ! fold f (rev rs) x) [0..<n]"
proof (induction rs arbitrary: xs)
  case Nil
  then show ?case by (auto simp: map_nth)
next
  case (Cons r rs)
  have lt: "fold f ss x < n" if "x < n" for ss x using that assms by (induction ss arbitrary: x) auto
  have "fold (\<lambda>r xs. map (\<lambda>x. xs ! f r x) [0..<length xs]) rs (map (\<lambda>x. xs ! f r x) [0..<n])
      = map (\<lambda>x. map (\<lambda>x. xs ! f r x) [0..<n] ! fold f (rev rs) x) [0..<n]" by (rule Cons.IH) simp
  also have "\<dots> = map (\<lambda>x. xs ! fold f (rev (r # rs)) x) [0..<n]" using lt by (intro map_cong) (simp_all del: rev.simps add: rev.simps(2))
  finally show ?case using Cons.prems by simp
qed

lemma innerShuffleList_eq:
  fixes xs :: "'a list"
  assumes cfg: "shuffle_cfg cfg" and n: "length xs \<le> 2 ^ 40"
  shows "innerShuffleList cfg hash xs seed shuffle = Inr (map (\<lambda>x. xs ! shuffleTo cfg hash seed (length xs) (\<not> shuffle) x) [0..<length xs])"
proof (cases "length xs \<le> 1")
  case True
  have "shuffleTo cfg hash seed (length xs) (\<not> shuffle) 0 = 0" if "length xs = 1"
    using shuffleTo_inverse(1) [of 0 1 cfg hash seed "\<not> shuffle"] by (simp add: that)
  then have "map (\<lambda>x. xs ! shuffleTo cfg hash seed (length xs) (\<not> shuffle) x) [0..<length xs] = xs"
    using True by (cases xs) (auto simp: le_Suc_eq)
  then show ?thesis using True by (simp only: innerShuffleList_def if_True)
next
  case False
  let ?R = "ucast (ShuffleRoundCount cfg) :: u8" and ?g = "\<lambda>r ys. map (\<lambda>x. ys ! roundMove hash seed (length ys) r x) [0..<length ys]"
  have c: "ShuffleRoundCount cfg \<noteq> 0" "ShuffleRoundCount cfg < 256" using cfg by (simp_all add: shuffle_cfg_def)
  note R = roundLoop_rounds(1) [OF c] roundLoop_rounds(2) [OF c, of "listRound hash seed" shuffle xs]
  have "rfold (listRound hash seed \<circ> of_nat) (roundsOf cfg shuffle) xs = Inr (fold ?g (roundsOf cfg shuffle) xs) \<and> length (fold ?g (roundsOf cfg shuffle) xs) = length xs"
    using False n by (intro rfold_fold [where P = "\<lambda>ys. length ys = length xs"]) (simp_all add: listRound_eq)
  moreover have "fold ?g rs ys = fold (\<lambda>r ys. map (\<lambda>x. ys ! roundMove hash seed (length xs) r x) [0..<length ys]) rs ys" if "length ys = length xs"
    for rs and ys :: "'a list"
    using that by (induction rs arbitrary: ys) simp_all
  moreover have "fold (\<lambda>r ys. map (\<lambda>x. ys ! roundMove hash seed (length xs) r x) [0..<length ys]) (roundsOf cfg shuffle) xs
      = map (\<lambda>x. xs ! fold (roundMove hash seed (length xs)) (rev (roundsOf cfg shuffle)) x) [0..<length xs]"
    using roundMove_facts n by (intro fold_moves) auto
  moreover have "rev (roundsOf cfg shuffle) = roundsOf cfg (\<not> shuffle)" by (simp add: roundsOf_def Let_def)
  ultimately have "rfold (listRound hash seed \<circ> of_nat) (roundsOf cfg shuffle) xs
      = Inr (map (\<lambda>x. xs ! shuffleTo cfg hash seed (length xs) (\<not> shuffle) x) [0..<length xs])" by (simp add: shuffleTo_def)
  moreover have "\<not> (of_nat (length xs) :: u64) > maxShuffleListSize" using n by (simp add: word_less_unat maxShuffleListSize_def unat_of_nat)
  ultimately show ?thesis using False R by (simp add: innerShuffleList_def Let_def)
qed

lemma mset_permuted:
  fixes xs :: "'a list"
  assumes "\<And>i. i < length xs \<Longrightarrow> g i < length xs" "inj_on g {..<length xs}"
  shows "mset (map (\<lambda>i. xs ! g i) [0..<length xs]) = mset xs"
proof -
  let ?A = "{..<length xs}"
  have "g ` ?A = ?A" using assms by (intro endo_inj_surj) auto
  then have "image_mset g (mset_set ?A) = mset_set ?A" using image_mset_mset_set [OF assms(2)] by simp
  then have eq: "image_mset (\<lambda>i. xs ! g i) (mset_set ?A) = image_mset ((!) xs) (mset_set ?A)"
    using image_mset.compositionality [of "(!) xs" g "mset_set ?A"] by (simp add: comp_def)
  have A: "mset [0..<length xs] = mset_set ?A" by (simp add: atLeast0LessThan)
  have "mset (map (\<lambda>i. xs ! g i) [0..<length xs]) = image_mset (\<lambda>i. xs ! g i) (mset_set ?A)" by (simp only: mset_map A)
  also have "\<dots> = mset (map ((!) xs) [0..<length xs])" by (simp only: eq mset_map A)
  finally show ?thesis by (simp only: map_nth)
qed

lemma innerShuffleList_perm:
  assumes "shuffle_cfg cfg" "length xs \<le> 2 ^ 40" "innerShuffleList cfg hash xs seed shuffle = Inr out"
  shows "mset out = mset xs"
proof -
  let ?g = "shuffleTo cfg hash seed (length xs) (\<not> shuffle)"
  have "inj_on ?g {..<length xs}"
    by (rule inj_on_inverseI [where g = "shuffleTo cfg hash seed (length xs) (\<not> \<not> shuffle)"]) (simp only: lessThan_iff shuffleTo_inverse(2) [OF _ assms(2)])
  then show ?thesis using assms innerShuffleList_eq [OF assms(1,2), of hash seed shuffle] mset_permuted [of xs ?g] shuffleTo_inverse(1) [OF _ assms(2)] by auto
qed

section \<open>Shuffles as permutations\<close>

text \<open>What the committees need of a shuffle: on lists up to the limit it returns, and what it returns is a permutation of the list.\<close>

locale permuting =
  fixes ok :: bool and run :: "'a list \<Rightarrow> 'a list result"
  assumes permutes: "ok \<Longrightarrow> length xs \<le> 2 ^ 40 \<Longrightarrow> \<exists>out. run xs = Inr out \<and> mset out = mset xs"
begin

lemma total:
  assumes "ok" and "length xs \<le> 2 ^ 40"
  obtains out where "run xs = Inr out" "mset out = mset xs" "length out = length xs"
  using permutes [OF assms] mset_eq_length by blast

lemma keeps_members:
  assumes "ok" and "length xs \<le> 2 ^ 40" and "run xs = Inr out"
  shows "set out = set xs" "distinct out \<longleftrightarrow> distinct xs"
  using permutes [OF assms(1,2)] assms(3) by (auto dest: mset_eq_setD mset_eq_imp_distinct_iff)

end

lemma innerShuffleList_permutes:
  assumes "shuffle_cfg cfg" "length xs \<le> 2 ^ 40"
  shows "\<exists>out. innerShuffleList cfg hash xs seed shuffle = Inr out \<and> mset out = mset xs"
  using innerShuffleList_eq [OF assms, of hash seed shuffle] innerShuffleList_perm [OF assms, of hash seed shuffle] by blast

interpretation shuffling: permuting "shuffle_cfg cfg" "\<lambda>xs. ShuffleList cfg hash xs seed" for cfg hash seed
  by unfold_locales (simp add: ShuffleList_def innerShuffleList_permutes)

interpretation unshuffling: permuting "shuffle_cfg cfg" "\<lambda>xs. UnshuffleList cfg hash xs seed" for cfg hash seed
  by unfold_locales (simp add: UnshuffleList_def innerShuffleList_permutes)

text \<open>C22. The shuffled index is a permutation of the indices below the count, and the unshuffled index is its inverse in both
  directions: both loops end, stay below the count, and undo each other, whatever the hash function.\<close>

theorem shuffled_index_inverse:
  assumes "shuffle_cfg cfg" "index < indexCount" "indexCount \<le> maxShuffleListSize"
  shows "(\<exists>j. ShuffledIndex cfg hash index indexCount seed = Inr j \<and> j < indexCount \<and> UnShuffledIndex cfg hash j indexCount seed = Inr index)
    \<and> (\<exists>j. UnShuffledIndex cfg hash index indexCount seed = Inr j \<and> j < indexCount \<and> ShuffledIndex cfg hash j indexCount seed = Inr index)"
proof -
  let ?n = "unat indexCount"
  have i: "unat index < ?n" and n: "?n \<le> 2 ^ 40" using assms(2,3) by (simp_all add: word_less_unat word_le_unat maxShuffleListSize_def)
  have "\<exists>j. ComputeShuffledIndex cfg hash index indexCount seed shuffle = Inr j \<and> j < indexCount
      \<and> ComputeShuffledIndex cfg hash j indexCount seed (\<not> shuffle) = Inr index" for shuffle
  proof -
    let ?k = "shuffleTo cfg hash seed ?n shuffle (unat index)"
    have k: "?k < ?n" "shuffleTo cfg hash seed ?n (\<not> shuffle) ?k = unat index" using shuffleTo_inverse [OF i n] by blast+
    then have u: "unat (of_nat ?k :: u64) = ?k" using n by (simp add: unat_of_nat)
    then have "ComputeShuffledIndex cfg hash (of_nat ?k) indexCount seed (\<not> shuffle) = Inr index"
      using ComputeShuffledIndex_eq [OF assms(1) _ assms(3), of "of_nat ?k" hash seed "\<not> shuffle"] k by simp
    then show ?thesis using ComputeShuffledIndex_eq [OF assms(1) i assms(3)] k(1) u by (intro exI [of _ "of_nat ?k"]) (simp add: word_less_unat)
  qed
  from this [of True] this [of False] show ?thesis by (simp add: ShuffledIndex_def UnShuffledIndex_def)
qed

definition ex_hash :: "u8 list \<Rightarrow> u8 list" where
  "ex_hash xs = map (\<lambda>k. sum_list xs * 37 + of_nat k * 11) [0..<32]"

theorem shuffled_index_inverse_witness:
  "\<exists>j. ShuffledIndex mainnetBeaconConfig ex_hash 3 10 [1, 2] = Inr j \<and> j < 10 \<and> UnShuffledIndex mainnetBeaconConfig ex_hash j 10 [1, 2] = Inr 3"
  using shuffled_index_inverse [of mainnetBeaconConfig 3 10 ex_hash "[1, 2]"] by (simp add: maxShuffleListSize_def)

text \<open>C19. The routine that shuffles a whole list in place agrees with the index routine: shuffling moves the element at each index to
  its shuffled index, unshuffling fetches to each index the element at its shuffled index, both keep all elements, and unshuffling the
  shuffled list gives the original list.\<close>

theorem shuffle_list_by_index:
  assumes "shuffle_cfg cfg" "length xs \<le> 2 ^ 40"
  shows "\<exists>out restored. ShuffleList cfg hash xs seed = Inr out \<and> UnshuffleList cfg hash xs seed = Inr restored
    \<and> UnshuffleList cfg hash out seed = Inr xs \<and> mset out = mset xs \<and> mset restored = mset xs
    \<and> (\<forall>i < length xs. \<exists>j. ShuffledIndex cfg hash (of_nat i) (of_nat (length xs)) seed = Inr j \<and> unat j < length xs
        \<and> out ! unat j = xs ! i \<and> restored ! i = xs ! unat j)"
proof -
  let ?n = "length xs" and ?to = "shuffleTo cfg hash seed (length xs)"
  define out where "out = map (\<lambda>x. xs ! ?to False x) [0..<?n]"
  define restored where "restored = map (\<lambda>x. xs ! ?to True x) [0..<?n]"
  have out: "innerShuffleList cfg hash xs seed True = Inr out" and restored: "innerShuffleList cfg hash xs seed False = Inr restored"
    using innerShuffleList_eq [OF assms, of hash seed] by (simp_all add: out_def restored_def)
  note inv = shuffleTo_inverse [OF _ assms(2), of _ cfg hash seed]
  have u: "unat (of_nat ?n :: u64) = ?n" using assms(2) by (simp add: unat_of_nat)
  have "innerShuffleList cfg hash out seed False = Inr xs"
  proof -
    have "map (\<lambda>x. out ! ?to True x) [0..<?n] = xs" using inv(1) [of _ True] inv(2) [of _ True] by (intro nth_equalityI) (simp_all add: out_def)
    then show ?thesis using innerShuffleList_eq [OF assms(1), of out hash seed False] assms(2) by (simp add: out_def)
  qed
  moreover have "\<exists>j. ShuffledIndex cfg hash (of_nat i) (of_nat ?n) seed = Inr j \<and> unat j < ?n \<and> out ! unat j = xs ! i \<and> restored ! i = xs ! unat j"
    if i: "i < ?n" for i
  proof -
    have ui: "unat (of_nat i :: u64) = i" using i assms(2) by (simp add: unat_of_nat)
    have ui': "unat (of_nat (?to True i) :: u64) = ?to True i" using inv(1) [OF i, of True] assms(2) by (simp add: unat_of_nat)
    have "ShuffledIndex cfg hash (of_nat i) (of_nat ?n) seed = Inr (of_nat (?to True i))"
      using ComputeShuffledIndex_eq [OF assms(1), of "of_nat i" "of_nat ?n" hash seed True] i u ui assms(2)
      by (simp add: ShuffledIndex_def word_le_unat maxShuffleListSize_def)
    then show ?thesis using inv(1) [OF i, of True] inv(2) [OF i, of True] i ui' by (intro exI [of _ "of_nat (?to True i)"]) (simp add: out_def restored_def)
  qed
  ultimately show ?thesis
    using out restored innerShuffleList_perm [OF assms out] innerShuffleList_perm [OF assms restored]
    unfolding ShuffleList_def UnshuffleList_def by blast
qed

theorem shuffle_list_by_index_witness:
  "\<exists>out. ShuffleList mainnetBeaconConfig ex_hash [10, 20, 30, 40 :: nat] [1, 2] = Inr out \<and> mset out = {#10, 20, 30, 40#}
     \<and> UnshuffleList mainnetBeaconConfig ex_hash out [1, 2] = Inr [10, 20, 30, 40]"
proof -
  obtain out where "ShuffleList mainnetBeaconConfig ex_hash [10, 20, 30, 40 :: nat] [1, 2] = Inr out"
    "UnshuffleList mainnetBeaconConfig ex_hash out [1, 2] = Inr [10, 20, 30, 40]" "mset out = mset [10, 20, 30, 40]"
    using shuffle_list_by_index [of mainnetBeaconConfig "[10, 20, 30, 40 :: nat]" ex_hash "[1, 2]"] by auto
  then show ?thesis by (intro exI [of _ out]) simp
qed

end
