(* ===== verification/Committees.thy ===== *)
theory Committees
  imports Shuffle Exit_Queue
begin

text \<open>
  Committees: \<^verbatim>\<open>core/helpers/beacon_committee.go\<close> and the committee cache of \<^verbatim>\<open>cache/committee.go\<close>. The cache sits on an LRU map outside of the repository; what it holds when it is
  asked is the argument \<open>entry\<close>, a function from seeds to entries. The wait for an entry another goroutine is computing is not modelled.

  The theorems show that the committees of an epoch split the active validators, each into exactly one committee, and that an entry of
  the cache answers with the committees that would be computed.
\<close>

section \<open>The committee cache\<close>

record Committees =
  CommitteeCount :: u64
  c_Seed :: "u8 list"
  ShuffledIndices' :: "ValidatorIndex list"
  SortedIndices :: "ValidatorIndex list"

definition startEndIndices :: "Committees \<Rightarrow> u64 \<Rightarrow> (u64 \<times> u64) result" where
  "startEndIndices c index =
     (let validatorCount = of_nat (length (ShuffledIndices' c)) in
      rbind (SplitOffset validatorCount (CommitteeCount c) index) (\<lambda>start.
      rbind (SplitOffset validatorCount (CommitteeCount c) (index + 1)) (\<lambda>end'. Inr (start, end'))))"

text \<open>A missing entry is the answer nil.\<close>

definition CommitteeCache_Committee :: "BeaconChainConfig \<Rightarrow> (u8 list \<Rightarrow> Committees option) \<Rightarrow> Slot \<Rightarrow> u8 list \<Rightarrow> u64
    \<Rightarrow> ValidatorIndex list option result" where
  "CommitteeCache_Committee cfg entry slot seed index = (case entry seed of
     None \<Rightarrow> Inr None
   | Some item \<Rightarrow>
       let committeeCountPerSlot = (if CommitteeCount item div SlotsPerEpoch cfg > 1 then CommitteeCount item div SlotsPerEpoch cfg else 1) in
       rbind (Slot_ModSlot slot (SlotsPerEpoch cfg)) (\<lambda>m. rbind (Slot_Mul m committeeCountPerSlot) (\<lambda>offset.
       rbind (Add64 index offset) (\<lambda>indexOffSet.
       rbind (startEndIndices item indexOffSet) (\<lambda>(start, end').
         if end' > of_nat (length (ShuffledIndices' item)) \<or> end' < start then Inl ErrOutOfBounds
         else Inr (Some (take (unat end' - unat start) (drop (unat start) (ShuffledIndices' item)))))))))"

definition CommitteeCache_ActiveIndices :: "(u8 list \<Rightarrow> Committees option) \<Rightarrow> u8 list \<Rightarrow> ValidatorIndex list option" where
  "CommitteeCache_ActiveIndices entry seed = map_option SortedIndices (entry seed)"

definition CommitteeCache_ActiveIndicesCount :: "(u8 list \<Rightarrow> Committees option) \<Rightarrow> u8 list \<Rightarrow> nat" where
  "CommitteeCache_ActiveIndicesCount entry seed = (case entry seed of None \<Rightarrow> 0 | Some item \<Rightarrow> length (SortedIndices item))"

section \<open>Committees\<close>

definition SlotCommitteeCount :: "BeaconChainConfig \<Rightarrow> u64 \<Rightarrow> u64" where
  "SlotCommitteeCount cfg activeValidatorCount =
     (let committeesPerSlot = activeValidatorCount div SlotsPerEpoch cfg div TargetCommitteeSize cfg in
      if committeesPerSlot > MaxCommitteesPerSlot cfg then MaxCommitteesPerSlot cfg
      else if committeesPerSlot = 0 then 1
      else committeesPerSlot)"

text \<open>The capacity of a slice is taken to be its length, so that a slice expression beyond it panics.\<close>

definition ComputeCommittee :: "BeaconChainConfig \<Rightarrow> (u8 list \<Rightarrow> u8 list) \<Rightarrow> ValidatorIndex list \<Rightarrow> u8 list \<Rightarrow> u64 \<Rightarrow> u64
    \<Rightarrow> ValidatorIndex list result" where
  "ComputeCommittee cfg hash indices seed index committeeCount =
     (let validatorCount = of_nat (length indices) in
      rbind (SplitOffset validatorCount committeeCount index) (\<lambda>start.
      rbind (SplitOffset validatorCount committeeCount (index + 1)) (\<lambda>end'.
        if start > validatorCount \<or> end' > validatorCount then Inl ErrOutOfBounds
        else rbind (UnshuffleList cfg hash indices seed) (\<lambda>shuffledList.
          if end' < start then Inl Panic else Inr (take (unat end' - unat start) (drop (unat start) shuffledList))))))"

definition BeaconCommittee :: "BeaconChainConfig \<Rightarrow> (u8 list \<Rightarrow> u8 list) \<Rightarrow> (u8 list \<Rightarrow> Committees option) \<Rightarrow> ValidatorIndex list
    \<Rightarrow> u8 list \<Rightarrow> Slot \<Rightarrow> u64 \<Rightarrow> ValidatorIndex list result" where
  "BeaconCommittee cfg hash entry validatorIndices seed slot committeeIndex =
     rbind (CommitteeCache_Committee cfg entry slot seed committeeIndex) (\<lambda>cached. case cached of
       Some committee \<Rightarrow> Inr committee
     | None \<Rightarrow>
         let committeesPerSlot = SlotCommitteeCount cfg (of_nat (length validatorIndices)) in
         rbind (Slot_ModSlot slot (SlotsPerEpoch cfg)) (\<lambda>m. rbind (Slot_Mul m committeesPerSlot) (\<lambda>offset.
         rbind (Add64 committeeIndex offset) (\<lambda>indexOffset.
           ComputeCommittee cfg hash validatorIndices seed indexOffset (committeesPerSlot * SlotsPerEpoch cfg)))))"

definition BeaconCommitteeFromState :: "BeaconChainConfig \<Rightarrow> CoreEnv \<Rightarrow> (u8 list \<Rightarrow> Committees option) \<Rightarrow> BeaconState \<Rightarrow> Slot \<Rightarrow> u64
    \<Rightarrow> ValidatorIndex list result" where
  "BeaconCommitteeFromState cfg env entry s slot committeeIndex =
     (let epoch = ToEpoch cfg slot in
      rbind (Seed cfg env s epoch DomainBeaconAttester) (\<lambda>seed.
      rbind (CommitteeCache_Committee cfg entry slot seed committeeIndex) (\<lambda>cached. case cached of
        Some committee \<Rightarrow> Inr committee
      | None \<Rightarrow> rbind (ActiveValidatorIndices cfg env s epoch) (\<lambda>activeIndices.
          BeaconCommittee cfg (hash_Hash env) entry activeIndices seed slot committeeIndex))))"

definition BeaconCommitteeFromCache :: "BeaconChainConfig \<Rightarrow> CoreEnv \<Rightarrow> (u8 list \<Rightarrow> Committees option) \<Rightarrow> BeaconState \<Rightarrow> Slot \<Rightarrow> u64
    \<Rightarrow> ValidatorIndex list option result" where
  "BeaconCommitteeFromCache cfg env entry s slot committeeIndex =
     rbind (Seed cfg env s (ToEpoch cfg slot) DomainBeaconAttester) (\<lambda>seed. CommitteeCache_Committee cfg entry slot seed committeeIndex)"

text \<open>All committees of a slot; the active indices are fetched when the first committee is not in the cache.\<close>

definition BeaconCommittees :: "BeaconChainConfig \<Rightarrow> CoreEnv \<Rightarrow> (u8 list \<Rightarrow> Committees option) \<Rightarrow> BeaconState \<Rightarrow> Slot
    \<Rightarrow> ValidatorIndex list list result" where
  "BeaconCommittees cfg env entry s slot =
     (let epoch = ToEpoch cfg slot in
      rbind (ActiveValidatorCount cfg env s epoch) (\<lambda>activeCount.
      rbind (Seed cfg env s epoch DomainBeaconAttester) (\<lambda>seed.
      rbind (rfold (\<lambda>idx (committees, activeIndices).
          rbind (CommitteeCache_Committee cfg entry slot seed (of_nat idx)) (\<lambda>cached. case cached of
            Some committee \<Rightarrow> Inr (committees @ [committee], activeIndices)
          | None \<Rightarrow>
              rbind (if length activeIndices = 0 then ActiveValidatorIndices cfg env s epoch else Inr activeIndices) (\<lambda>activeIndices.
              rbind (BeaconCommittee cfg (hash_Hash env) entry activeIndices seed slot (of_nat idx)) (\<lambda>committee.
                Inr (committees @ [committee], activeIndices)))))
        [0..<unat (SlotCommitteeCount cfg activeCount)] ([], []))
        (\<lambda>(committees, _). Inr committees))))"

definition ShuffledIndices :: "BeaconChainConfig \<Rightarrow> CoreEnv \<Rightarrow> BeaconState \<Rightarrow> Epoch \<Rightarrow> ValidatorIndex list result" where
  "ShuffledIndices cfg env s epoch =
     rbind (Seed cfg env s epoch DomainBeaconAttester) (\<lambda>seed.
       UnshuffleList cfg (hash_Hash env) (activeIndices s epoch) seed)"

text \<open>The entry \<^verbatim>\<open>UpdateCommitteeCache\<close> adds for the seed of an epoch, unless there is one.\<close>

definition UpdateCommitteeCache_entry :: "BeaconChainConfig \<Rightarrow> CoreEnv \<Rightarrow> (u8 list \<Rightarrow> Committees option) \<Rightarrow> BeaconState \<Rightarrow> Epoch
    \<Rightarrow> Committees option result" where
  "UpdateCommitteeCache_entry cfg env entry s e =
     rbind (Seed cfg env s e DomainBeaconAttester) (\<lambda>seed.
       if entry seed \<noteq> None then Inr None
       else rbind (ShuffledIndices cfg env s e) (\<lambda>shuffledIndices.
         let perSlot = SlotCommitteeCount cfg (of_nat (length shuffledIndices)) in
         rbind (Slot_Mul (SlotsPerEpoch cfg) perSlot) (\<lambda>committeeCount.
           Inr (Some \<lparr>CommitteeCount = committeeCount, c_Seed = seed, ShuffledIndices' = shuffledIndices, SortedIndices = sort shuffledIndices\<rparr>))))"

section \<open>Assignments\<close>

record LiteAssignment =
  AttesterSlot :: Slot
  CommitteeIndex :: u64
  CommitteeLength :: u64
  ValidatorCommitteeIndex :: u64

definition PrecomputeCommittees :: "BeaconChainConfig \<Rightarrow> CoreEnv \<Rightarrow> (u8 list \<Rightarrow> Committees option) \<Rightarrow> BeaconState \<Rightarrow> Slot
    \<Rightarrow> ValidatorIndex list list list result" where
  "PrecomputeCommittees cfg env entry st startSlot =
     rfold (\<lambda>relativeSlot out. rbind (BeaconCommittees cfg env entry st (startSlot + of_nat relativeSlot)) (\<lambda>comms. Inr (out @ [comms])))
       [0..<unat (SlotsPerEpoch cfg)] []"

text \<open>The first place of the validator, in the order of slots, committees and positions.\<close>

fun firstIn :: "ValidatorIndex \<Rightarrow> nat \<Rightarrow> ValidatorIndex list \<Rightarrow> nat option" where
  "firstIn vIdx pos [] = None"
| "firstIn vIdx pos (member # committee) = (if member = vIdx then Some pos else firstIn vIdx (pos + 1) committee)"

fun firstInSlot :: "ValidatorIndex \<Rightarrow> nat \<Rightarrow> ValidatorIndex list list \<Rightarrow> (nat \<times> ValidatorIndex list \<times> nat) option" where
  "firstInSlot vIdx cIdx [] = None"
| "firstInSlot vIdx cIdx (committee # committees) = (case firstIn vIdx 0 committee of
     Some pos \<Rightarrow> Some (cIdx, committee, pos)
   | None \<Rightarrow> firstInSlot vIdx (cIdx + 1) committees)"

fun assignmentLoop :: "Slot \<Rightarrow> ValidatorIndex \<Rightarrow> nat \<Rightarrow> ValidatorIndex list list list \<Rightarrow> LiteAssignment" where
  "assignmentLoop startSlot vIdx relativeSlot [] =
     \<lparr>AttesterSlot = 0, CommitteeIndex = 0, CommitteeLength = 0, ValidatorCommitteeIndex = 0\<rparr>"
| "assignmentLoop startSlot vIdx relativeSlot (committees # bySlot) = (case firstInSlot vIdx 0 committees of
     Some (cIdx, committee, pos) \<Rightarrow> \<lparr>AttesterSlot = startSlot + of_nat relativeSlot, CommitteeIndex = of_nat cIdx,
       CommitteeLength = of_nat (length committee), ValidatorCommitteeIndex = of_nat pos\<rparr>
   | None \<Rightarrow> assignmentLoop startSlot vIdx (relativeSlot + 1) bySlot)"

definition AssignmentForValidator :: "ValidatorIndex list list list \<Rightarrow> Slot \<Rightarrow> ValidatorIndex \<Rightarrow> LiteAssignment" where
  "AssignmentForValidator bySlot startSlot vIdx = assignmentLoop startSlot vIdx 0 bySlot"

section \<open>The committees of an epoch\<close>

definition committee_cfg :: "BeaconChainConfig \<Rightarrow> bool" where
  "committee_cfg cfg \<longleftrightarrow> cfg_ok cfg \<and> shuffle_cfg cfg \<and> MaxCommitteesPerSlot cfg \<noteq> 0
     \<and> unat (MaxCommitteesPerSlot cfg) * unat (SlotsPerEpoch cfg) \<le> 2 ^ 20"

lemma committee_cfg_mainnet [simp]: "committee_cfg mainnetBeaconConfig"
  by (simp add: committee_cfg_def) (simp add: mainnetBeaconConfig_def)

lemma committee_cfg_slots: "committee_cfg cfg \<Longrightarrow> 0 < unat (SlotsPerEpoch cfg)"
  by (simp add: committee_cfg_def cfg_okD)

lemma SlotCommitteeCount_bounds:
  assumes "committee_cfg cfg"
  shows "0 < unat (SlotCommitteeCount cfg n)" "unat (SlotCommitteeCount cfg n) * unat (SlotsPerEpoch cfg) \<le> 2 ^ 20"
proof -
  have max: "0 < unat (MaxCommitteesPerSlot cfg)" using assms by (simp add: committee_cfg_def unat_gt_0)
  show "0 < unat (SlotCommitteeCount cfg n)" using max by (auto simp: SlotCommitteeCount_def Let_def unat_gt_0)
  have "unat (SlotCommitteeCount cfg n) \<le> unat (MaxCommitteesPerSlot cfg)"
    using max by (auto simp: SlotCommitteeCount_def Let_def word_less_unat not_less)
  then have "unat (SlotCommitteeCount cfg n) * unat (SlotsPerEpoch cfg) \<le> unat (MaxCommitteesPerSlot cfg) * unat (SlotsPerEpoch cfg)"
    by (rule mult_le_mono1)
  moreover have "unat (MaxCommitteesPerSlot cfg) * unat (SlotsPerEpoch cfg) \<le> 2 ^ 20" using assms by (simp add: committee_cfg_def)
  ultimately show "unat (SlotCommitteeCount cfg n) * unat (SlotsPerEpoch cfg) \<le> 2 ^ 20" by (rule le_trans)
qed

text \<open>The number of a committee within its epoch.\<close>

definition committeeNumber :: "BeaconChainConfig \<Rightarrow> u64 \<Rightarrow> Slot \<Rightarrow> u64 \<Rightarrow> nat" where
  "committeeNumber cfg perSlot slot index = unat index + unat slot mod unat (SlotsPerEpoch cfg) * unat perSlot"

lemma committeeNumber_less:
  assumes "0 < unat (SlotsPerEpoch cfg)" "index < perSlot"
  shows "committeeNumber cfg perSlot slot index < unat perSlot * unat (SlotsPerEpoch cfg)"
proof -
  let ?m = "unat slot mod unat (SlotsPerEpoch cfg)"
  have "Suc ?m \<le> unat (SlotsPerEpoch cfg)" using mod_less_divisor [OF assms(1), of "unat slot"] by simp
  from mult_le_mono1 [OF this, of "unat perSlot"] show ?thesis using assms(2) by (simp add: committeeNumber_def word_less_unat mult.commute)
qed

lemma committee_offset:
  assumes "0 < unat (SlotsPerEpoch cfg)" "index < perSlot" "unat perSlot * unat (SlotsPerEpoch cfg) \<le> 2 ^ 20"
  shows "rbind (Slot_ModSlot slot (SlotsPerEpoch cfg)) (\<lambda>m. rbind (Slot_Mul m perSlot) (\<lambda>offset. rbind (Add64 index offset) f))
    = f (of_nat (committeeNumber cfg perSlot slot index))"
    "unat (of_nat (committeeNumber cfg perSlot slot index) :: u64) = committeeNumber cfg perSlot slot index"
proof -
  let ?S = "unat (SlotsPerEpoch cfg)" and ?m = "slot mod SlotsPerEpoch cfg"
  have lt: "committeeNumber cfg perSlot slot index < 2 ^ 20" using committeeNumber_less [OF assms(1,2), of slot] assms(3) by simp
  then show u: "unat (of_nat (committeeNumber cfg perSlot slot index) :: u64) = committeeNumber cfg perSlot slot index" by (simp add: unat_of_nat)
  have m: "Slot_ModSlot slot (SlotsPerEpoch cfg) = Inr ?m"
    using assms(1) by (auto simp: Slot_ModSlot_def Slot_Mod_def Slot_SafeMod_def Mod64_def must_def split: sum.splits)
  have prod: "unat ?m * unat perSlot < 2 ^ 20" using lt by (simp add: committeeNumber_def unat_mod_u64)
  then have pu: "unat (?m * perSlot) = unat ?m * unat perSlot" by (intro unat_mult_exact) simp
  have "Mul64 ?m perSlot = Inr (?m * perSlot)" using pu by (simp add: Mul64_exact)
  then have mul: "Slot_Mul ?m perSlot = Inr (?m * perSlot)" by (simp add: Slot_Mul_def Slot_SafeMul_def must_eq_Inr)
  have add: "Add64 index (?m * perSlot) = Inr (of_nat (committeeNumber cfg perSlot slot index))"
    by (simp add: Add64_exact u pu) (simp add: committeeNumber_def unat_mod_u64)
  show "rbind (Slot_ModSlot slot (SlotsPerEpoch cfg)) (\<lambda>m. rbind (Slot_Mul m perSlot) (\<lambda>offset. rbind (Add64 index offset) f))
    = f (of_nat (committeeNumber cfg perSlot slot index))" by (simp add: m mul add)
qed

lemma concat_blocks: "concat (map (\<lambda>k. concat (map (\<lambda>c. f (c + k * w)) [0..<w])) [0..<m]) = concat (map f [0..<w * m])"
proof (induction m)
  case (Suc m)
  have "map f [w * m..<w * m + w] = map (\<lambda>c. f (c + m * w)) [0..<w]"
    by (rule nth_equalityI) (simp_all add: algebra_simps)
  moreover have "[0..<w * Suc m] = [0..<w * m] @ [w * m..<w * m + w]" using upt_add_eq_append [of 0 "w * m" w] by (simp add: add.commute)
  ultimately show ?case using Suc by simp
qed simp

text \<open>The \<open>i\<close>-th of \<open>k\<close> committees of a shuffled list.\<close>

definition committeeOf :: "ValidatorIndex list \<Rightarrow> nat \<Rightarrow> nat \<Rightarrow> ValidatorIndex list" where
  "committeeOf shuffled k i = (let at = chunkStart (length shuffled) k in take (at (Suc i) - at i) (drop (at i) shuffled))"

lemma committeeOf_facts:
  assumes "0 < k"
  shows "length (committeeOf shuffled k i) \<le> length shuffled div k + 1" "concat (map (committeeOf shuffled k) [0..<k]) = shuffled"
  using chunks_partition(2) [OF assms, of "length shuffled" i] chunks_partition(4) [OF assms, of shuffled "length shuffled"]
  by (simp_all add: committeeOf_def [abs_def] Let_def)

text \<open>The two offsets of a committee, and the slice between them.\<close>

lemma committee_offsets:
  assumes "unat parts \<le> 2 ^ 20" "n \<le> 2 ^ 40" "i < unat parts"
  shows "SplitOffset (of_nat n) parts (of_nat i) = Inr (of_nat (chunkStart n (unat parts) i))"
    "SplitOffset (of_nat n) parts (of_nat i + 1) = Inr (of_nat (chunkStart n (unat parts) (Suc i)))"
    "unat (of_nat (chunkStart n (unat parts) i) :: u64) = chunkStart n (unat parts) i"
    "unat (of_nat (chunkStart n (unat parts) (Suc i)) :: u64) = chunkStart n (unat parts) (Suc i)"
    "chunkStart n (unat parts) i \<le> chunkStart n (unat parts) (Suc i)" "chunkStart n (unat parts) (Suc i) \<le> n"
proof -
  have pos: "0 < unat parts" using assms(3) by simp
  have n: "unat (of_nat n :: u64) = n" and i: "unat (of_nat i :: u64) = i" and i1: "unat (of_nat i + 1 :: u64) = Suc i"
    using assms unat_of_nat_small [of n] unat_of_nat_small [of i] unat_of_nat_small [of "Suc i"] by (simp_all add: add.commute)
  have fits: "unat (of_nat n :: u64) * unat parts < 2 ^ 64" using mult_le_mono [OF assms(2,1)] by (simp add: n)
  show "SplitOffset (of_nat n) parts (of_nat i) = Inr (of_nat (chunkStart n (unat parts) i))"
    "unat (of_nat (chunkStart n (unat parts) i) :: u64) = chunkStart n (unat parts) i"
    using SplitOffset_exact [OF pos fits, of "of_nat i"] assms(3) by (simp_all add: n i)
  show "SplitOffset (of_nat n) parts (of_nat i + 1) = Inr (of_nat (chunkStart n (unat parts) (Suc i)))"
    "unat (of_nat (chunkStart n (unat parts) (Suc i)) :: u64) = chunkStart n (unat parts) (Suc i)"
    using SplitOffset_exact [OF pos fits, of "of_nat i + 1"] assms(3) by (simp_all only: n i1)
  show "chunkStart n (unat parts) i \<le> chunkStart n (unat parts) (Suc i)" using chunks_partition(1) [OF pos, of n i] by simp
  show "chunkStart n (unat parts) (Suc i) \<le> n" using assms(3) chunks_partition(3) [OF pos, of "Suc i" n] by simp
qed

lemma ComputeCommittee_eq:
  assumes "UnshuffleList cfg hash indices seed = Inr shuffled" "length shuffled = length indices" "length indices \<le> 2 ^ 40"
    "unat parts \<le> 2 ^ 20" "i < unat parts"
  shows "ComputeCommittee cfg hash indices seed (of_nat i) parts = Inr (committeeOf shuffled (unat parts) i)"
proof -
  note o = committee_offsets [OF assms(4,3,5)]
  have "unat (of_nat (length indices) :: u64) = length indices" using assms(3) by (simp add: unat_of_nat)
  then show ?thesis using o(5,6) assms(1,2) by (auto simp: ComputeCommittee_def Let_def o(1-4) committeeOf_def word_less_unat)
qed

lemma startEndIndices_eq:
  assumes "length (ShuffledIndices' item) \<le> 2 ^ 40" "unat (CommitteeCount item) \<le> 2 ^ 20" "i < unat (CommitteeCount item)"
  shows "startEndIndices item (of_nat i) = Inr (of_nat (chunkStart (length (ShuffledIndices' item)) (unat (CommitteeCount item)) i),
    of_nat (chunkStart (length (ShuffledIndices' item)) (unat (CommitteeCount item)) (Suc i)))"
  using committee_offsets(1,2) [OF assms(2,1,3)] by (simp add: startEndIndices_def Let_def)

text \<open>What an entry of the cache has to be for the active indices of its seed.\<close>

definition cache_agrees :: "BeaconChainConfig \<Rightarrow> (u8 list \<Rightarrow> u8 list) \<Rightarrow> ValidatorIndex list \<Rightarrow> u8 list \<Rightarrow> (u8 list \<Rightarrow> Committees option) \<Rightarrow> bool" where
  "cache_agrees cfg hash indices seed entry = (case entry seed of None \<Rightarrow> True
     | Some item \<Rightarrow> UnshuffleList cfg hash indices seed = Inr (ShuffledIndices' item)
         \<and> CommitteeCount item = SlotsPerEpoch cfg * SlotCommitteeCount cfg (of_nat (length (ShuffledIndices' item))))"

lemma CommitteeCache_Committee_eq:
  assumes cfg: "committee_cfg cfg" and n: "length (ShuffledIndices' item) \<le> 2 ^ 40" and item: "entry seed = Some item"
  defines "perSlot \<equiv> SlotCommitteeCount cfg (of_nat (length (ShuffledIndices' item)))"
  assumes c: "CommitteeCount item = SlotsPerEpoch cfg * perSlot" and index: "index < perSlot"
  shows "CommitteeCache_Committee cfg entry slot seed index
    = Inr (Some (committeeOf (ShuffledIndices' item) (unat perSlot * unat (SlotsPerEpoch cfg)) (committeeNumber cfg perSlot slot index)))"
proof -
  let ?n = "length (ShuffledIndices' item)" and ?S = "SlotsPerEpoch cfg" and ?i = "committeeNumber cfg perSlot slot index"
  note b = SlotCommitteeCount_bounds [OF cfg, of "of_nat ?n", folded perSlot_def]
  note S = committee_cfg_slots [OF cfg]
  have "unat (?S * perSlot) = unat ?S * unat perSlot" using b(2) by (intro unat_mult_exact) (simp add: mult.commute)
  then have cu: "unat (CommitteeCount item) = unat perSlot * unat ?S" by (simp add: c mult.commute)
  then have "CommitteeCount item div ?S = perSlot" using S by (simp add: word_unat_eq_iff unat_div_u64)
  then have per: "(if CommitteeCount item div ?S > 1 then CommitteeCount item div ?S else 1) = perSlot"
    using b(1) by (auto simp: word_less_unat word_unat_eq_iff)
  have i: "?i < unat (CommitteeCount item)" using committeeNumber_less [OF S index] by (simp add: cu)
  have k: "unat (CommitteeCount item) \<le> 2 ^ 20" using b(2) by (simp add: cu)
  note o = committee_offsets [OF k n i, unfolded cu]
  have "unat (of_nat ?n :: u64) = ?n" using n by (intro unat_of_nat_small) simp
  then show ?thesis using o(5,6) startEndIndices_eq [OF n k i, unfolded cu]
    unfolding CommitteeCache_Committee_def item option.case Let_def per committee_offset(1) [OF S index b(2)]
    by (auto simp: committeeOf_def Let_def word_less_unat o(3,4))
qed

lemma BeaconCommittee_eq:
  assumes cfg: "committee_cfg cfg" and n: "length indices \<le> 2 ^ 40" and sh: "UnshuffleList cfg hash indices seed = Inr shuffled"
    and len: "length shuffled = length indices" and cache: "cache_agrees cfg hash indices seed entry"
  defines "perSlot \<equiv> SlotCommitteeCount cfg (of_nat (length indices))"
  assumes index: "index < perSlot"
  shows "BeaconCommittee cfg hash entry indices seed slot index
    = Inr (committeeOf shuffled (unat perSlot * unat (SlotsPerEpoch cfg)) (committeeNumber cfg perSlot slot index))"
proof (cases "entry seed")
  case None
  note b = SlotCommitteeCount_bounds [OF cfg, of "of_nat (length indices)", folded perSlot_def]
  note S = committee_cfg_slots [OF cfg]
  have u: "unat (perSlot * SlotsPerEpoch cfg) = unat perSlot * unat (SlotsPerEpoch cfg)" using b(2) by (intro unat_mult_exact) simp
  have "ComputeCommittee cfg hash indices seed (of_nat (committeeNumber cfg perSlot slot index)) (perSlot * SlotsPerEpoch cfg)
      = Inr (committeeOf shuffled (unat perSlot * unat (SlotsPerEpoch cfg)) (committeeNumber cfg perSlot slot index))"
    using ComputeCommittee_eq [OF sh len n, of "perSlot * SlotsPerEpoch cfg"] b(2) committeeNumber_less [OF S index] by (simp add: u)
  then show ?thesis using None
    by (simp add: BeaconCommittee_def CommitteeCache_Committee_def Let_def perSlot_def [symmetric] committee_offset(1) [OF S index b(2)])
next
  case (Some item)
  have "ShuffledIndices' item = shuffled" using cache sh Some by (simp add: cache_agrees_def)
  then show ?thesis using CommitteeCache_Committee_eq [OF cfg, of item entry seed index slot] cache Some n len index
    by (simp add: BeaconCommittee_def cache_agrees_def perSlot_def)
qed

text \<open>C18. The committees of an epoch split the active validators. Whether they come from the cache or are computed, the committees of a
  slot depend on the position of the slot in its epoch only, none has more than one member above the rounded down share, and the committees of the
  slots of one epoch, taken together, hold every active validator exactly once.\<close>

theorem committees_partition:
  assumes "committee_cfg cfg" "length indices \<le> 2 ^ 40" "cache_agrees cfg hash indices seed entry"
  shows "\<exists>com. let perSlot = SlotCommitteeCount cfg (of_nat (length indices)) in
    (\<forall>slot index. index < perSlot \<longrightarrow>
       BeaconCommittee cfg hash entry indices seed slot index = Inr (com (unat slot mod unat (SlotsPerEpoch cfg)) (unat index)))
    \<and> (\<forall>k c. length (com k c) \<le> length indices div (unat perSlot * unat (SlotsPerEpoch cfg)) + 1)
    \<and> mset (concat (map (\<lambda>k. concat (map (com k) [0..<unat perSlot])) [0..<unat (SlotsPerEpoch cfg)])) = mset indices"
proof -
  define perSlot where "perSlot = SlotCommitteeCount cfg (of_nat (length indices))"
  let ?K = "unat perSlot * unat (SlotsPerEpoch cfg)"
  have "shuffle_cfg cfg" using assms(1) by (simp add: committee_cfg_def)
  from unshuffling.total [OF this assms(2)] obtain sh
    where sh: "UnshuffleList cfg hash indices seed = Inr sh" "mset sh = mset indices" "length sh = length indices" .
  define com where "com k c = committeeOf sh ?K (c + k * unat perSlot)" for k c
  have K: "0 < ?K" using SlotCommitteeCount_bounds(1) [OF assms(1)] committee_cfg_slots [OF assms(1)] by (simp add: perSlot_def)
  have "BeaconCommittee cfg hash entry indices seed slot index = Inr (com (unat slot mod unat (SlotsPerEpoch cfg)) (unat index))"
    if "index < perSlot" for slot index
    using BeaconCommittee_eq [OF assms(1,2) sh(1,3) assms(3)] that by (simp add: com_def perSlot_def committeeNumber_def)
  moreover have "length (com k c) \<le> length indices div ?K + 1" for k c
    using committeeOf_facts(1) [OF K, of sh] by (simp add: com_def sh(3))
  moreover have "concat (map (\<lambda>k. concat (map (com k) [0..<unat perSlot])) [0..<unat (SlotsPerEpoch cfg)]) = sh"
    using concat_blocks [of "committeeOf sh ?K" "unat perSlot" "unat (SlotsPerEpoch cfg)"] committeeOf_facts(2) [OF K, of sh]
    by (simp add: com_def [abs_def])
  ultimately show ?thesis unfolding Let_def perSlot_def [symmetric] by (intro exI [of _ com]) (simp add: sh(2))
qed

theorem committees_partition_witness:
  "\<exists>com. BeaconCommittee mainnetBeaconConfig ex_hash (\<lambda>_. None) [5, 6, 7] [1, 2] 35 0 = Inr (com (3 :: nat) (0 :: nat))
    \<and> mset (concat (map (\<lambda>k. com k 0) [0..<32])) = {#5, 6, 7#}"
proof -
  have one: "SlotCommitteeCount mainnetBeaconConfig 3 = 1" and slots: "SlotsPerEpoch mainnetBeaconConfig = 32"
    by (simp_all add: SlotCommitteeCount_def mainnetBeaconConfig_def)
  obtain com where "BeaconCommittee mainnetBeaconConfig ex_hash (\<lambda>_. None) [5, 6, 7] [1, 2] 35 0 = Inr (com (unat (35 :: u64) mod 32) 0)"
    "mset (concat (map (\<lambda>k. concat (map (com k) [0..<1])) [0..<32])) = mset [5, 6, 7]"
    using committees_partition [of mainnetBeaconConfig "[5, 6, 7]" ex_hash "[1, 2]" "\<lambda>_. None"]
    by (auto simp: cache_agrees_def one slots Let_def)
  then show ?thesis by (intro exI [of _ com]) simp
qed

section \<open>The cache is transparent\<close>

text \<open>The environment of the state helpers, with the operations of the committee cache as they are modelled here. Which requests are in
  progress stays with the environment.\<close>

definition cacheEnv :: "BeaconChainConfig \<Rightarrow> (u8 list \<Rightarrow> Committees option) \<Rightarrow> CoreEnv \<Rightarrow> CoreEnv" where
  "cacheEnv cfg entry env = env\<lparr>
     cache_ActiveIndices := \<lambda>seed. Inr (CommitteeCache_ActiveIndices entry seed),
     cache_ActiveIndicesCount := \<lambda>seed. Inr (int (CommitteeCache_ActiveIndicesCount entry seed)),
     UpdateCommitteeCache := \<lambda>s e. rbind (UpdateCommitteeCache_entry cfg env entry s e) (\<lambda>_. Inr ())\<rparr>"

lemma cacheEnv_simps [simp]:
  "hash_Hash (cacheEnv cfg entry env) = hash_Hash env" "cache_MarkInProgress (cacheEnv cfg entry env) = cache_MarkInProgress env"
  "Seed cfg (cacheEnv cfg entry env) s e d = Seed cfg env s e d"
  by (simp_all add: cacheEnv_def Seed_def)

lemma activeIndices_sorted:
  assumes "length (bs_validators s) \<le> 2 ^ 40"
  shows "sorted (activeIndices s e)"
proof -
  let ?is = "filter (\<lambda>i. IsActiveValidatorUsingTrie (bs_validators s ! i) e) [0..<length (bs_validators s)]"
  have "sorted_wrt (\<le>) ?is" by (simp add: sorted_wrt_filter)
  then have "sorted_wrt (\<lambda>i j. (of_nat i :: u64) \<le> of_nat j) ?is"
    by (rule sorted_wrt_mono_rel [rotated]) (use assms in \<open>auto simp: word_le_unat unat_of_nat_small\<close>)
  then show ?thesis by (simp add: activeIndices_def sorted_wrt_map)
qed

lemma length_activeIndices: "length (activeIndices s e) \<le> length (bs_validators s)" "of_nat (length (activeIndices s e)) = activeCount s e"
proof -
  show "length (activeIndices s e) \<le> length (bs_validators s)"
    using length_filter_le [of _ "[0..<length (bs_validators s)]"] by (simp add: activeIndices_def)
  have "length (filter (\<lambda>v. IsActiveValidatorUsingTrie v e) (map ((!) (bs_validators s)) [0..<length (bs_validators s)])) = length (activeIndices s e)"
    unfolding activeIndices_def filter_map by (simp add: o_def)
  then show "of_nat (length (activeIndices s e)) = activeCount s e" by (simp add: activeCount_eq map_nth)
qed

text \<open>The entry added for an epoch.\<close>

lemma UpdateCommitteeCache_entry_eq:
  assumes cfg: "committee_cfg cfg" and n: "length (bs_validators s) \<le> 2 ^ 40"
    and seed: "Seed cfg env s e DomainBeaconAttester = Inr seed" and miss: "entry seed = None"
  obtains item where "UpdateCommitteeCache_entry cfg env entry s e = Inr (Some item)" "c_Seed item = seed"
    "SortedIndices item = activeIndices s e" "cache_agrees cfg (hash_Hash env) (activeIndices s e) seed (entry(seed \<mapsto> item))"
proof -
  let ?is = "activeIndices s e" and ?hash = "hash_Hash env"
  have len: "length ?is \<le> 2 ^ 40" using length_activeIndices(1) [of s e] n by (rule le_trans)
  have "shuffle_cfg cfg" using cfg by (simp add: committee_cfg_def)
  from unshuffling.total [OF this len] obtain sh
    where sh: "UnshuffleList cfg ?hash ?is seed = Inr sh" "mset sh = mset ?is" "length sh = length ?is" .
  let ?C = "SlotCommitteeCount cfg (of_nat (length sh))"
  let ?item = "\<lparr>CommitteeCount = SlotsPerEpoch cfg * ?C, c_Seed = seed, ShuffledIndices' = sh, SortedIndices = sort sh\<rparr>"
  have "unat (SlotsPerEpoch cfg) * unat ?C \<le> 2 ^ 20" using SlotCommitteeCount_bounds(2) [OF cfg, of "of_nat (length sh)"] by (simp add: mult.commute)
  then have "unat (SlotsPerEpoch cfg * ?C) = unat (SlotsPerEpoch cfg) * unat ?C" by (intro unat_mult_exact) simp
  then have "Slot_Mul (SlotsPerEpoch cfg) ?C = Inr (SlotsPerEpoch cfg * ?C)" by (simp add: Slot_Mul_def Slot_SafeMul_def must_eq_Inr Mul64_exact)
  then have "UpdateCommitteeCache_entry cfg env entry s e = Inr (Some ?item)"
    using sh(1) by (simp add: UpdateCommitteeCache_entry_def ShuffledIndices_def seed miss Let_def)
  moreover have "sort sh = ?is" by (rule properties_for_sort) (simp_all add: sh(2) activeIndices_sorted [OF n])
  ultimately show thesis by (intro that [of ?item]) (simp_all add: cache_agrees_def sh(1))
qed

text \<open>What the helpers answer with an agreeing cache, whether the entry is there or not.\<close>

lemma ActiveValidatorIndices_cached:
  assumes "Seed cfg env s e DomainBeaconAttester = Inr seed" "cache_MarkInProgress env seed = Inr ()" "activeIndices s e \<noteq> []"
    "case entry seed of None \<Rightarrow> \<exists>x. UpdateCommitteeCache_entry cfg env entry s e = Inr x | Some item \<Rightarrow> SortedIndices item = activeIndices s e"
  shows "ActiveValidatorIndices cfg (cacheEnv cfg entry env) s e = Inr (activeIndices s e)"
  using assms by (auto simp: ActiveValidatorIndices_def cacheEnv_def CommitteeCache_ActiveIndices_def Let_def Seed_def split: option.splits)

lemma ActiveValidatorCount_cached:
  assumes "Seed cfg env s e DomainBeaconAttester = Inr seed" "cache_MarkInProgress env seed = Inr ()"
    "case entry seed of None \<Rightarrow> \<exists>x. UpdateCommitteeCache_entry cfg env entry s e = Inr x | Some item \<Rightarrow> SortedIndices item = activeIndices s e"
    "entry seed \<noteq> None \<Longrightarrow> bs_slot s \<noteq> 0 \<and> activeIndices s e \<noteq> []"
  shows "ActiveValidatorCount cfg (cacheEnv cfg entry env) s e = Inr (activeCount s e)"
  using assms length_activeIndices(2) [of s e]
  by (auto simp: ActiveValidatorCount_def cacheEnv_def CommitteeCache_ActiveIndicesCount_def Let_def Seed_def split: option.splits)

text \<open>Such a cache is one that the exit queue may rely on.\<close>

lemma cacheEnv_counts:
  assumes "\<And>seed item. Seed cfg env s (CurrentEpoch cfg s) DomainBeaconAttester = Inr seed \<Longrightarrow> entry seed = Some item \<Longrightarrow>
      SortedIndices item = activeIndices s (CurrentEpoch cfg s)"
    and "\<And>seed. cache_MarkInProgress env seed \<noteq> Inl ErrAlreadyInProgress"
  shows "counts_active cfg (cacheEnv cfg entry env) s"
  using assms length_activeIndices(2) [of s "CurrentEpoch cfg s"]
  by (auto simp: counts_active_def cacheEnv_def CommitteeCache_ActiveIndicesCount_def Seed_def split: sum.splits option.splits)

lemma BeaconCommitteeFromState_cached:
  assumes "committee_cfg cfg" "length (activeIndices s e) \<le> 2 ^ 40" "Seed cfg env s e DomainBeaconAttester = Inr seed"
    "ActiveValidatorIndices cfg (cacheEnv cfg entry env) s e = Inr (activeIndices s e)" "ToEpoch cfg slot = e"
    "cache_agrees cfg (hash_Hash env) (activeIndices s e) seed entry" "index < SlotCommitteeCount cfg (of_nat (length (activeIndices s e)))"
  shows "BeaconCommitteeFromState cfg (cacheEnv cfg entry env) entry s slot index
    = BeaconCommittee cfg (hash_Hash env) (\<lambda>_. None) (activeIndices s e) seed slot index"
proof -
  let ?hash = "hash_Hash env" and ?is = "activeIndices s e"
  have "shuffle_cfg cfg" using assms(1) by (simp add: committee_cfg_def)
  from unshuffling.total [OF this assms(2)] obtain sh
    where sh: "UnshuffleList cfg ?hash ?is seed = Inr sh" "mset sh = mset ?is" "length sh = length ?is" .
  note eq = BeaconCommittee_eq [OF assms(1,2) sh(1,3) _ assms(7), of _ slot]
  have none: "cache_agrees cfg ?hash ?is seed (\<lambda>_. None)" by (simp add: cache_agrees_def)
  have "BeaconCommitteeFromState cfg (cacheEnv cfg entry env) entry s slot index = BeaconCommittee cfg ?hash entry ?is seed slot index"
    using assms(3-5) by (auto simp: BeaconCommitteeFromState_def BeaconCommittee_def Let_def rbind_def split: sum.splits option.splits)
  then show ?thesis by (simp add: eq [OF assms(6)] eq [OF none])
qed

lemma cache_hit:
  assumes "committee_cfg cfg" "length indices \<le> 2 ^ 40" "cache_agrees cfg hash indices seed (entry(seed \<mapsto> item))"
    "index < SlotCommitteeCount cfg (of_nat (length indices))"
  shows "\<exists>committee. CommitteeCache_Committee cfg (entry(seed \<mapsto> item)) slot seed index = Inr (Some committee)"
proof -
  have "shuffle_cfg cfg" using assms(1) by (simp add: committee_cfg_def)
  from unshuffling.total [OF this assms(2)] obtain sh
    where "UnshuffleList cfg hash indices seed = Inr sh" "mset sh = mset indices" "length sh = length indices" .
  then have "ShuffledIndices' item = sh" "length (ShuffledIndices' item) = length indices" using assms(3) by (auto simp: cache_agrees_def)
  then show ?thesis using CommitteeCache_Committee_eq [OF assms(1), of item "entry(seed \<mapsto> item)" seed index slot] assms(2-4)
    by (simp add: cache_agrees_def)
qed

text \<open>C20. The committee cache is transparent. Updating the cache for an epoch whose seed has no entry adds an entry under that seed, and
  afterwards the active validators of the epoch, their number and every committee of every slot of the epoch are the ones that were
  computed without it.\<close>

theorem committee_cache_transparent:
  assumes cfg: "committee_cfg cfg" and n: "length (bs_validators s) \<le> 2 ^ 40" and slot0: "bs_slot s \<noteq> 0"
    and seed: "Seed cfg env s e DomainBeaconAttester = Inr seed" and miss: "entry seed = None"
    and free: "cache_MarkInProgress env seed = Inr ()" and active: "activeIndices s e \<noteq> []"
  shows "\<exists>item. UpdateCommitteeCache_entry cfg env entry s e = Inr (Some item) \<and> c_Seed item = seed
    \<and> (let entry' = entry(seed \<mapsto> item); before = cacheEnv cfg entry env; after = cacheEnv cfg entry' env in
       ActiveValidatorIndices cfg after s e = ActiveValidatorIndices cfg before s e
       \<and> ActiveValidatorCount cfg after s e = ActiveValidatorCount cfg before s e
       \<and> (\<forall>slot index. ToEpoch cfg slot = e \<and> index < SlotCommitteeCount cfg (activeCount s e) \<longrightarrow>
            BeaconCommitteeFromState cfg after entry' s slot index = BeaconCommitteeFromState cfg before entry s slot index
            \<and> (\<exists>committee. BeaconCommitteeFromCache cfg after entry' s slot index = Inr (Some committee)
                \<and> BeaconCommitteeFromState cfg before entry s slot index = Inr committee)))"
proof -
  from UpdateCommitteeCache_entry_eq [where entry = entry, OF cfg n seed miss] obtain item
    where item: "UpdateCommitteeCache_entry cfg env entry s e = Inr (Some item)" "c_Seed item = seed"
      "SortedIndices item = activeIndices s e" "cache_agrees cfg (hash_Hash env) (activeIndices s e) seed (entry(seed \<mapsto> item))" .
  let ?e' = "entry(seed \<mapsto> item)" and ?is = "activeIndices s e"
  have len: "length ?is \<le> 2 ^ 40" using length_activeIndices(1) [of s e] n by (rule le_trans)
  have none: "cache_agrees cfg (hash_Hash env) ?is seed entry" by (simp add: cache_agrees_def miss)
  have ind: "ActiveValidatorIndices cfg (cacheEnv cfg entry env) s e = Inr ?is" "ActiveValidatorIndices cfg (cacheEnv cfg ?e' env) s e = Inr ?is"
    by (rule ActiveValidatorIndices_cached [OF seed free active], simp add: miss item)+
  have num: "ActiveValidatorCount cfg (cacheEnv cfg entry env) s e = Inr (activeCount s e)"
    "ActiveValidatorCount cfg (cacheEnv cfg ?e' env) s e = Inr (activeCount s e)"
    by (rule ActiveValidatorCount_cached [OF seed free]; simp add: miss item slot0 active)+
  note com = BeaconCommitteeFromState_cached [OF cfg len seed, unfolded length_activeIndices(2)]
  have "BeaconCommitteeFromState cfg (cacheEnv cfg ?e' env) ?e' s slot index = BeaconCommitteeFromState cfg (cacheEnv cfg entry env) entry s slot index"
    if "ToEpoch cfg slot = e" "index < SlotCommitteeCount cfg (activeCount s e)" for slot index
    using com [OF ind(1) that(1) none that(2)] com [OF ind(2) that(1) item(4) that(2)] by simp
  moreover have "\<exists>committee. BeaconCommitteeFromCache cfg (cacheEnv cfg ?e' env) ?e' s slot index = Inr (Some committee)
      \<and> BeaconCommitteeFromState cfg (cacheEnv cfg ?e' env) ?e' s slot index = Inr committee"
    if "ToEpoch cfg slot = e" "index < SlotCommitteeCount cfg (activeCount s e)" for slot index
    using cache_hit [OF cfg len item(4), of index slot] that seed
    by (auto simp: BeaconCommitteeFromCache_def BeaconCommitteeFromState_def length_activeIndices(2) Let_def)
  ultimately show ?thesis by (intro exI [of _ item]) (simp add: item ind num Let_def)
qed

theorem committee_cache_transparent_witness:
  "\<exists>item. UpdateCommitteeCache_entry mainnetBeaconConfig ex_env (\<lambda>_. None) ex_state 2 = Inr (Some item)
    \<and> BeaconCommitteeFromState mainnetBeaconConfig (cacheEnv mainnetBeaconConfig [c_Seed item \<mapsto> item] ex_env) [c_Seed item \<mapsto> item] ex_state 70 0
      = BeaconCommitteeFromState mainnetBeaconConfig (cacheEnv mainnetBeaconConfig (\<lambda>_. None) ex_env) (\<lambda>_. None) ex_state 70 0"
proof -
  let ?cfg = mainnetBeaconConfig and ?s = ex_state
  have seed: "Seed ?cfg ex_env ?s 2 DomainBeaconAttester = Inr (DomainBeaconAttester @ Bytes8 2)"
    by (simp add: Seed_def RandaoMix_def RandaoMixAtIndex_def sliceAt_def ex_env_def ex_state_def mainnetBeaconConfig_def Let_def)
  have active: "activeIndices ?s 2 = [0, 1, 2]"
    by (simp add: activeIndices_def ex_state_def ex_validator_def IsActiveValidatorUsingTrie_def checkValidatorActiveStatus_def
        upt_rec)
  have n: "activeCount ?s 2 = 3" using length_activeIndices(2) [of ?s 2] by (simp add: active)
  have "bs_slot ?s \<noteq> 0" "length (bs_validators ?s) \<le> 2 ^ 40" by (simp_all add: ex_state_def)
  moreover have "cache_MarkInProgress ex_env seed = Inr ()" for seed by (simp add: ex_env_def)
  ultimately obtain item where "UpdateCommitteeCache_entry ?cfg ex_env (\<lambda>_. None) ?s 2 = Inr (Some item)" "c_Seed item = DomainBeaconAttester @ Bytes8 2"
    "\<forall>slot index. ToEpoch ?cfg slot = 2 \<and> index < SlotCommitteeCount ?cfg 3 \<longrightarrow>
      BeaconCommitteeFromState ?cfg (cacheEnv ?cfg [DomainBeaconAttester @ Bytes8 2 \<mapsto> item] ex_env) [DomainBeaconAttester @ Bytes8 2 \<mapsto> item] ?s slot index
      = BeaconCommitteeFromState ?cfg (cacheEnv ?cfg (\<lambda>_. None) ex_env) (\<lambda>_. None) ?s slot index"
    using committee_cache_transparent [OF committee_cfg_mainnet _ _ seed, of "\<lambda>_. None"] active n unfolding Let_def by auto
  moreover have "ToEpoch ?cfg 70 = 2" "0 < SlotCommitteeCount ?cfg 3" by (simp_all add: ToEpoch_def SlotCommitteeCount_def mainnetBeaconConfig_def)
  ultimately show ?thesis by (intro exI [of _ item]) simp
qed

end
