(* ===== verification/Proposers.thy ===== *)
theory Proposers
  imports Committees
begin

text \<open>
  The selection of the proposer of a slot by effective balance: \<^verbatim>\<open>ComputeProposerIndex\<close> of \<^verbatim>\<open>core/helpers/validators.go\<close> and
  \<^verbatim>\<open>PrecomputeProposerIndices\<close> of \<^verbatim>\<open>core/helpers/beacon_committee.go\<close>.

  The loop of \<^verbatim>\<open>ComputeProposerIndex\<close> has no bound, so it is a partial function and a run that does not end is \<open>None\<close>. The theorem
  shows that it ends within one pass over the active validators if one of them has the maximal effective balance.
\<close>

unbundle bit_operations_syntax

section \<open>Definitions\<close>

definition MaxRandomByte :: u64 where "MaxRandomByte = 255"

definition MaxRandomValueElectra :: u64 where "MaxRandomValueElectra = 65535"

definition DomainBeaconProposer :: "u8 list" where "DomainBeaconProposer = [0, 0, 0, 0]"

text \<open>The test of the \<open>i\<close>-th draw, with a random byte before Electra and a random value of two bytes from then on.\<close>

definition proposerAccepts :: "BeaconChainConfig \<Rightarrow> (u8 list \<Rightarrow> u8 list) \<Rightarrow> forkVersion \<Rightarrow> u8 list \<Rightarrow> u64 \<Rightarrow> u64 \<Rightarrow> bool" where
  "proposerAccepts cfg hash ver seed i effectiveBal =
     (if ver \<ge> Electra then
        let randomBytes = hash (seed @ Bytes8 (i div 16));
            offset = unat (i mod 16 * 2);
            randomValue = ucast (randomBytes ! offset) OR push_bit 8 (ucast (randomBytes ! (offset + 1)))
        in effectiveBal * MaxRandomValueElectra \<ge> MaxEffectiveBalanceElectra cfg * randomValue
      else
        let randomByte = hash (seed @ Bytes8 (i div 32)) ! unat (i mod 32)
        in effectiveBal * MaxRandomByte \<ge> MaxEffectiveBalance cfg * ucast randomByte)"

text \<open>One turn of the loop: the candidate if it is accepted.\<close>

definition proposerDraw :: "BeaconChainConfig \<Rightarrow> (u8 list \<Rightarrow> u8 list) \<Rightarrow> BeaconState \<Rightarrow> ValidatorIndex list \<Rightarrow> u8 list \<Rightarrow> u64
    \<Rightarrow> ValidatorIndex option result" where
  "proposerDraw cfg hash s actives seed i =
     (let len = of_nat (length actives) in
      rbind (ComputeShuffledIndex cfg hash (i mod len) len seed True) (\<lambda>index.
      rbind (if unat index < length actives then Inr (actives ! unat index) else Inl Panic) (\<lambda>candidateIndex.
        if candidateIndex \<ge> of_nat (length (bs_validators s)) then Inl ErrOutOfBounds
        else rbind (ValidatorAtIndex s candidateIndex) (\<lambda>v.
          Inr (if proposerAccepts cfg hash (bs_version s) seed i (v_EffectiveBalance v) then Some candidateIndex else None)))))"

partial_function (option) proposerLoop :: "(u64 \<Rightarrow> ValidatorIndex option result) \<Rightarrow> u64 \<Rightarrow> ValidatorIndex result option" where
  "proposerLoop draw i = (case draw i of
     Inl e \<Rightarrow> Some (Inl e)
   | Inr (Some candidateIndex) \<Rightarrow> Some (Inr candidateIndex)
   | Inr None \<Rightarrow> proposerLoop draw (i + 1))"

definition ComputeProposerIndex :: "BeaconChainConfig \<Rightarrow> (u8 list \<Rightarrow> u8 list) \<Rightarrow> BeaconState \<Rightarrow> ValidatorIndex list \<Rightarrow> u8 list
    \<Rightarrow> ValidatorIndex result option" where
  "ComputeProposerIndex cfg hash s actives seed =
     (if length actives = 0 then Some (Inl ErrNoActiveIndices)
      else proposerLoop (proposerDraw cfg hash s actives seed) 0)"

text \<open>The proposers of the slots of an epoch, in order.\<close>

fun proposersLoop :: "(u64 \<Rightarrow> ValidatorIndex result option) \<Rightarrow> u64 list \<Rightarrow> ValidatorIndex list \<Rightarrow> ValidatorIndex list result option" where
  "proposersLoop proposer [] proposerIndices = Some (Inr proposerIndices)"
| "proposersLoop proposer (slot # slots) proposerIndices = (case proposer slot of
     None \<Rightarrow> None
   | Some (Inl e) \<Rightarrow> Some (Inl e)
   | Some (Inr index) \<Rightarrow> proposersLoop proposer slots (proposerIndices @ [index]))"

definition PrecomputeProposerIndices :: "BeaconChainConfig \<Rightarrow> CoreEnv \<Rightarrow> BeaconState \<Rightarrow> ValidatorIndex list \<Rightarrow> Epoch
    \<Rightarrow> ValidatorIndex list result option" where
  "PrecomputeProposerIndices cfg env s actives e =
     (case rbind (Seed cfg env s e DomainBeaconProposer) (\<lambda>seed. rbind (EpochStart cfg e) (\<lambda>slot. Inr (seed, slot))) of
        Inl err \<Rightarrow> Some (Inl err)
      | Inr (seed, slot) \<Rightarrow>
          proposersLoop (\<lambda>slot. ComputeProposerIndex cfg (hash_Hash env) s actives (hash_Hash env (seed @ Bytes8 slot)))
            (map (\<lambda>i. slot + of_nat i) [0..<unat (SlotsPerEpoch cfg)]) [])"

section \<open>The search ends\<close>

text \<open>The maximal effective balance and the largest random value of a version. Their product, and the product for the validator at
  the maximum, fit 64 bits.\<close>

definition maxBalance :: "BeaconChainConfig \<Rightarrow> forkVersion \<Rightarrow> u64" where
  "maxBalance cfg ver = (if ver \<ge> Electra then MaxEffectiveBalanceElectra cfg else MaxEffectiveBalance cfg)"

definition maxRandom :: "forkVersion \<Rightarrow> u64" where
  "maxRandom ver = (if ver \<ge> Electra then MaxRandomValueElectra else MaxRandomByte)"

definition accepted :: "BeaconChainConfig \<Rightarrow> forkVersion \<Rightarrow> Validator \<Rightarrow> bool" where
  "accepted cfg ver v \<longleftrightarrow> maxBalance cfg ver \<le> v_EffectiveBalance v \<and> unat (v_EffectiveBalance v) * unat (maxRandom ver) < 2 ^ 64"

lemma random_value_le: "ucast (b :: u8) OR push_bit 8 (ucast (c :: u8)) \<le> (65535 :: u64)" "ucast (b :: u8) \<le> (255 :: u64)"
proof -
  have "ucast b OR push_bit 8 (ucast c) = (take_bit 16 (ucast b OR push_bit 8 (ucast c)) :: u64)"
    by (rule bit_word_eqI) (auto simp: bit_simps dest: bit_imp_le_length)
  also have "\<dots> \<le> mask 16" by (simp add: take_bit_eq_mask word_and_le1)
  finally show "ucast b OR push_bit 8 (ucast c) \<le> (65535 :: u64)" by (simp add: mask_eq_exp_minus_1)
  have "ucast b = (take_bit 8 (ucast b) :: u64)" by (rule bit_word_eqI) (auto simp: bit_simps dest: bit_imp_le_length)
  also have "\<dots> \<le> mask 8" by (simp add: take_bit_eq_mask word_and_le1)
  finally show "ucast b \<le> (255 :: u64)" by (simp add: mask_eq_exp_minus_1)
qed

lemma product_le:
  assumes "maximum \<le> balance" "r \<le> R" "unat balance * unat R < 2 ^ 64"
  shows "maximum * r \<le> balance * (R :: u64)"
proof -
  have le: "unat maximum * unat r \<le> unat balance * unat R" using assms(1,2) by (intro mult_le_mono) (simp_all add: word_le_unat)
  then have "unat (maximum * r) = unat maximum * unat r" using assms(3) by (intro unat_mult_exact) simp
  moreover have "unat (balance * R) = unat balance * unat R" using assms(3) by (intro unat_mult_exact) simp
  ultimately show ?thesis using le by (simp add: word_le_unat)
qed

lemma proposerAccepts_max:
  assumes "accepted cfg ver v"
  shows "proposerAccepts cfg hash ver seed i (v_EffectiveBalance v)"
  using assms random_value_le
  by (auto simp: accepted_def proposerAccepts_def maxBalance_def maxRandom_def MaxRandomByte_def MaxRandomValueElectra_def Let_def
      intro!: product_le split: if_splits)

lemma proposerLoop_ends:
  assumes "\<And>j. j < k \<Longrightarrow> draw (a + of_nat j) = Inr None" "draw (a + of_nat k) = Inr (Some c)"
  shows "proposerLoop draw a = Some (Inr c)"
  using assms
proof (induction k arbitrary: a)
  case (Suc k)
  have "proposerLoop draw (a + 1) = Some (Inr c)"
    using Suc.prems(1) [of "Suc _"] Suc.prems(2) by (intro Suc.IH) (simp_all add: add.assoc)
  then show ?case using Suc.prems(1) [of 0] by (subst proposerLoop.simps) simp
qed (subst proposerLoop.simps, simp)

text \<open>The candidate of a draw within the first pass, and its test.\<close>

definition candidate :: "BeaconChainConfig \<Rightarrow> (u8 list \<Rightarrow> u8 list) \<Rightarrow> ValidatorIndex list \<Rightarrow> u8 list \<Rightarrow> nat \<Rightarrow> ValidatorIndex" where
  "candidate cfg hash actives seed i = actives ! shuffleTo cfg hash seed (length actives) True i"

definition accepts :: "BeaconChainConfig \<Rightarrow> (u8 list \<Rightarrow> u8 list) \<Rightarrow> BeaconState \<Rightarrow> ValidatorIndex list \<Rightarrow> u8 list \<Rightarrow> nat \<Rightarrow> bool" where
  "accepts cfg hash s actives seed i = proposerAccepts cfg hash (bs_version s) seed (of_nat i)
     (v_EffectiveBalance (bs_validators s ! unat (candidate cfg hash actives seed i)))"

definition actives_ok :: "BeaconState \<Rightarrow> ValidatorIndex list \<Rightarrow> bool" where
  "actives_ok s actives \<longleftrightarrow> length actives \<le> 2 ^ 40 \<and> length (bs_validators s) \<le> 2 ^ 40 \<and> (\<forall>c \<in> set actives. unat c < length (bs_validators s))"

lemma proposerDraw_eq:
  assumes cfg: "shuffle_cfg cfg" and ok: "actives_ok s actives" and i: "i < length actives"
  shows "proposerDraw cfg hash s actives seed (of_nat i)
    = Inr (if accepts cfg hash s actives seed i then Some (candidate cfg hash actives seed i) else None)"
proof -
  let ?n = "length actives" and ?to = "shuffleTo cfg hash seed (length actives) True"
  have n: "?n \<le> 2 ^ 40" using ok by (simp add: actives_ok_def)
  have u: "unat (of_nat k :: u64) = k" if "k \<le> 2 ^ 40" for k using that by (intro unat_of_nat_small) simp
  have to: "?to i < ?n" using shuffleTo_inverse(1) [OF i n] .
  have "(of_nat i :: u64) mod of_nat ?n = of_nat i" using i n by (simp add: word_unat_eq_iff unat_mod_u64 u)
  moreover have "ComputeShuffledIndex cfg hash (of_nat i) (of_nat ?n) seed True = Inr (of_nat (?to i))"
    using ComputeShuffledIndex_eq [OF cfg, of "of_nat i" "of_nat ?n" hash seed True] i n u [of ?n] u [of i]
    by (simp add: word_le_unat maxShuffleListSize_def)
  moreover have "unat (of_nat (?to i) :: u64) = ?to i" using to n by (intro u) simp
  moreover have "unat (actives ! ?to i) < length (bs_validators s)" using ok to by (simp add: actives_ok_def)
  moreover have "unat (of_nat (length (bs_validators s)) :: u64) = length (bs_validators s)" using ok by (intro u) (simp add: actives_ok_def)
  ultimately show ?thesis using to
    by (simp add: proposerDraw_def Let_def ValidatorAtIndex_def sliceAt_def word_le_unat word_less_unat accepts_def candidate_def)
qed

text \<open>The first accepted draw decides.\<close>

lemma ComputeProposerIndex_first:
  assumes cfg: "shuffle_cfg cfg" and ok: "actives_ok s actives" and max: "c \<in> set actives" "accepted cfg (bs_version s) (bs_validators s ! unat c)"
  shows "\<exists>i < length actives. ComputeProposerIndex cfg hash s actives seed = Some (Inr (candidate cfg hash actives seed i))
    \<and> accepts cfg hash s actives seed i \<and> (\<forall>j < i. \<not> accepts cfg hash s actives seed j) \<and> candidate cfg hash actives seed i \<in> set actives"
proof -
  let ?n = "length actives" and ?acc = "accepts cfg hash s actives seed"
  have n: "?n \<le> 2 ^ 40" using ok by (simp add: actives_ok_def)
  obtain m where m: "m < ?n" "actives ! m = c" using max(1) by (auto simp: in_set_conv_nth)
  define k where "k = shuffleTo cfg hash seed ?n False m"
  have "k < ?n" "candidate cfg hash actives seed k = c"
    using shuffleTo_inverse [OF m(1) n, of cfg hash seed False] m(2) by (simp_all add: k_def candidate_def)
  then have k: "k < ?n \<and> ?acc k" using proposerAccepts_max [OF max(2)] by (simp add: accepts_def)
  define i where "i = (LEAST i. i < ?n \<and> ?acc i)"
  have i: "i < ?n" "?acc i" using LeastI [of "\<lambda>i. i < ?n \<and> ?acc i", OF k] by (simp_all add: i_def)
  have first: "\<not> ?acc j" if "j < i" for j using not_less_Least [of j "\<lambda>i. i < ?n \<and> ?acc i"] that i(1) by (auto simp: i_def)
  have "proposerLoop (proposerDraw cfg hash s actives seed) 0 = Some (Inr (candidate cfg hash actives seed i))"
    by (rule proposerLoop_ends [where k = i]) (use i first in \<open>simp_all add: proposerDraw_eq [OF cfg ok]\<close>)
  moreover have "candidate cfg hash actives seed i \<in> set actives"
    using shuffleTo_inverse(1) [OF i(1) n] by (simp add: candidate_def)
  ultimately show ?thesis using i first by (intro exI [of _ i]) (auto simp: ComputeProposerIndex_def)
qed

lemma proposersLoop_ends:
  assumes "\<And>slot. slot \<in> set ss \<Longrightarrow> proposer slot = Some (Inr (f slot))"
  shows "proposersLoop proposer ss acc = Some (Inr (acc @ map f ss))"
  using assms by (induction ss arbitrary: acc) auto

text \<open>C21. If one of the active validators has the maximal effective balance of the fork, the unbounded search for a proposer ends within
  one pass over the active validators, for every seed, and returns the first candidate of the shuffled order whose balance passes the
  random test. The proposers of all slots of an epoch are then found as well, one active validator for each slot.\<close>

theorem proposer_found:
  assumes "shuffle_cfg cfg" "actives_ok s actives" "c \<in> set actives" "accepted cfg (bs_version s) (bs_validators s ! unat c)"
    "Seed cfg env s e DomainBeaconProposer = Inr seed" "EpochStart cfg e = Inr start"
  shows "(\<forall>sd. \<exists>i < length actives. ComputeProposerIndex cfg (hash_Hash env) s actives sd = Some (Inr (candidate cfg (hash_Hash env) actives sd i))
      \<and> accepts cfg (hash_Hash env) s actives sd i \<and> (\<forall>j < i. \<not> accepts cfg (hash_Hash env) s actives sd j))
    \<and> (\<exists>ps. PrecomputeProposerIndices cfg env s actives e = Some (Inr ps) \<and> length ps = unat (SlotsPerEpoch cfg) \<and> set ps \<subseteq> set actives
        \<and> (\<forall>i < unat (SlotsPerEpoch cfg).
             ComputeProposerIndex cfg (hash_Hash env) s actives (hash_Hash env (seed @ Bytes8 (start + of_nat i))) = Some (Inr (ps ! i))))"
proof -
  let ?hash = "hash_Hash env"
  note first = ComputeProposerIndex_first [OF assms(1-4), where hash = ?hash]
  define f where "f slot = (SOME p. ComputeProposerIndex cfg ?hash s actives (?hash (seed @ Bytes8 slot)) = Some (Inr p) \<and> p \<in> set actives)" for slot
  have f: "ComputeProposerIndex cfg ?hash s actives (?hash (seed @ Bytes8 slot)) = Some (Inr (f slot)) \<and> f slot \<in> set actives" for slot
    unfolding f_def by (rule someI_ex) (use first [of "?hash (seed @ Bytes8 slot)"] in auto)
  let ?ps = "map f (map (\<lambda>i. start + of_nat i) [0..<unat (SlotsPerEpoch cfg)])"
  have "PrecomputeProposerIndices cfg env s actives e = Some (Inr ?ps)"
    using proposersLoop_ends [where f = f] f by (simp add: PrecomputeProposerIndices_def assms(5,6))
  moreover have "set ?ps \<subseteq> set actives" "\<forall>i < unat (SlotsPerEpoch cfg).
      ComputeProposerIndex cfg ?hash s actives (?hash (seed @ Bytes8 (start + of_nat i))) = Some (Inr (?ps ! i))" using f by auto
  ultimately have "\<exists>ps. PrecomputeProposerIndices cfg env s actives e = Some (Inr ps) \<and> length ps = unat (SlotsPerEpoch cfg) \<and> set ps \<subseteq> set actives
      \<and> (\<forall>i < unat (SlotsPerEpoch cfg). ComputeProposerIndex cfg ?hash s actives (?hash (seed @ Bytes8 (start + of_nat i))) = Some (Inr (ps ! i)))"
    by (intro exI [of _ ?ps]) simp
  then show ?thesis using first by blast
qed

theorem proposer_found_witness:
  "\<exists>ps. PrecomputeProposerIndices mainnetBeaconConfig ex_env ex_state [0, 1, 2] 2 = Some (Inr ps) \<and> length ps = 32 \<and> set ps \<subseteq> {0, 1, 2}"
proof -
  let ?cfg = mainnetBeaconConfig
  have "actives_ok ex_state [0, 1, 2]" by (simp add: actives_ok_def ex_state_def)
  moreover have "accepted ?cfg (bs_version ex_state) (bs_validators ex_state ! unat (0 :: u64))"
    by (simp add: accepted_def maxBalance_def maxRandom_def MaxRandomByte_def less_eq_forkVersion_def ex_state_def ex_validator_def mainnetBeaconConfig_def)
  moreover have "Seed ?cfg ex_env ex_state 2 DomainBeaconProposer = Inr (DomainBeaconProposer @ Bytes8 2)"
    by (simp add: Seed_def RandaoMix_def RandaoMixAtIndex_def sliceAt_def ex_env_def ex_state_def mainnetBeaconConfig_def Let_def)
  moreover have "Mul64 32 2 = Inr 64" by (simp add: Mul64_exact)
  then have "EpochStart ?cfg 2 = Inr 64" by (simp add: EpochStart_def Slot_SafeMul_def mainnetBeaconConfig_def)
  moreover have "unat (SlotsPerEpoch ?cfg) = 32" by (simp add: mainnetBeaconConfig_def)
  ultimately show ?thesis using proposer_found [of ?cfg ex_state "[0, 1, 2]" 0 ex_env 2 "DomainBeaconProposer @ Bytes8 2" 64] by auto
qed

end
