(* ===== verification/Spec2Isabelle.thy ===== *)
theory Spec2Isabelle
  imports FC_Properties Slasher_Batches Slashing_Pool Proposers
begin

text \<open>
  A verification development of parts of an Ethereum consensus client written in Go (\<^verbatim>\<open>src/\<close>): its fork choice, its slasher with
  the verification, processing and pool of slashings, the exits and slashings of validators, the shuffling with the committees and
  proposers drawn from it, the multi-value slices of the beacon state, and the integer, time and slice helpers below them.

  \<^bold>\<open>How the parts interact.\<close> The \<^emph>\<open>fork choice\<close> keeps a tree of blocks and the latest votes; \<^verbatim>\<open>Head\<close> pays the votes out as balances,
  sums them up the tree and walks to the head. The \<^emph>\<open>slasher\<close> queues attestations and block headers, keeps for every validator the
  extreme targets of its attestations in span chunks, and reports votes that surround each other, double votes and double proposals.
  What it finds is a slashing that goes to the \<^emph>\<open>pool\<close>, which verifies it on the head state and hands it out for blocks; processing a
  block \<^emph>\<open>slashes\<close> the validators, which puts them into the \<^emph>\<open>exit queue\<close>. The states in all this keep their long fields in
  \<^emph>\<open>multi-value slices\<close>. \<^emph>\<open>Committees\<close> and \<^emph>\<open>proposers\<close> are drawn by shuffling the active validators of a state, with a cache in between.

  \<^bold>\<open>Conventions.\<close> A \<^verbatim>\<open>uint64\<close> is a 64-bit word and wraps; a 32-byte root is a 256-bit word; a Go \<^verbatim>\<open>int\<close> is an integer wrapped to 64
  bits by \<open>i64\<close> where it can overflow. A fallible function returns \<open>'a result\<close>: an error of \<open>goerror\<close> or the value, with \<open>Panic\<close> for a
  run-time panic, which is an outcome and never excluded silently. An operation on an object returns \<open>outcome\<close>: the result and the
  state as it is left, also on an error. Go maps are association lists where their order or size matters. Definitions keep the names of
  the source, with a prefix where two types share a method name.

  \<^bold>\<open>Theories and sources.\<close>
  \<^item> \<open>Prelude\<close>: machine types, errors, sequencing, facts on words and lists used throughout.
  \<^item> \<open>Math_Helper\<close> (\<^verbatim>\<open>math/math_helper.go\<close>), \<open>Primitives\<close> (\<^verbatim>\<open>consensus-types/primitives\<close>), \<open>Beacon_Config\<close> (\<^verbatim>\<open>config/params\<close>,
    \<^verbatim>\<open>runtime/version\<close>), \<open>Slots\<close> (\<^verbatim>\<open>time/slots/slottime.go\<close>), \<open>Slices\<close> (\<^verbatim>\<open>container/slice\<close>). The square root with its cache is exact
    and its loop ends; checked operations are exact and the others panic where these fail; the slot of an instant and the start of a slot are inverse; the set operations on
    slices are what their names say.
  \<^item> Fork choice (\<^verbatim>\<open>beacon-chain/forkchoice/doubly-linked-tree\<close>): \<open>FC_Types\<close> (nodes as addresses of a heap), \<open>FC_Node\<close> (\<^verbatim>\<open>node.go\<close>),
    \<open>FC_Store\<close> (\<^verbatim>\<open>store.go\<close>, \<^verbatim>\<open>optimistic_sync.go\<close>, \<^verbatim>\<open>unrealized_justification.go\<close>), \<open>FC_ForkChoice\<close> (\<^verbatim>\<open>forkchoice.go\<close>, \<^verbatim>\<open>on_tick.go\<close>,
    \<^verbatim>\<open>last_root.go\<close>, \<^verbatim>\<open>proposer_boost.go\<close>, \<^verbatim>\<open>reorg_late_blocks.go\<close>) hold the definitions. \<open>FC_Inv\<close> has the invariant of the store,
    \<open>FC_Insert\<close>, \<open>FC_Remove\<close> and \<open>FC_Prune\<close> what these operations do to it on every path, \<open>FC_Best\<close> the fork choice rule and that the
    pass over the nodes computes it, \<open>FC_Refine\<close> the abstract block tree, \<open>FC_Head\<close> the composition of the passes of \<^verbatim>\<open>Head\<close>, \<open>FC_Votes\<close>
    the accounts of votes and proposer boost behind the node balances, \<open>FC_Example\<close> a chain to apply the theorems to, and \<open>FC_Properties\<close> the properties.
  \<^item> Slasher (\<^verbatim>\<open>beacon-chain/slasher\<close>): \<open>Slasher_Params\<close> (\<^verbatim>\<open>params.go\<close>), \<open>Slasher_Chunks\<close> (\<^verbatim>\<open>chunks.go\<close>), \<open>Slasher_Service\<close> (\<^verbatim>\<open>queue.go\<close>,
    \<^verbatim>\<open>helpers.go\<close>, \<^verbatim>\<open>detect_attestations.go\<close>, \<^verbatim>\<open>detect_blocks.go\<close>, \<^verbatim>\<open>receive.go\<close>, \<^verbatim>\<open>process_slashings.go\<close>) hold the definitions;
    \<open>Slasher_Spans\<close> shows what an update leaves in a chunk, \<open>Slasher_Detect\<close> that surround votes are found exactly inside the history
    window and what happens after it, \<open>Slasher_Batches\<close> the queues, the filter, the slot tick, double votes and double proposals.
  \<^item> Beacon state: \<open>MV_Slice\<close> (\<^verbatim>\<open>container/multi-value-slice\<close>) with the theorem that objects sharing a slice read what they would read in
    slices of their own, \<open>Core_State\<close> (fields of \<^verbatim>\<open>state/state-native\<close>, \<^verbatim>\<open>core/helpers\<close>, \<^verbatim>\<open>core/time\<close>).
  \<^item> Validators: \<open>Core_Validators\<close> (\<^verbatim>\<open>core/validators\<close>, \<^verbatim>\<open>core/blocks/exit.go\<close>, \<^verbatim>\<open>setters_churn.go\<close>) and its correctness \<open>Exit_Queue\<close>: churn
    limits before and from Electra on, and the whole effect of a slashing.
  \<^item> Slashings: \<open>Slashing_Verify\<close> (\<^verbatim>\<open>core/blocks/attester_slashing.go\<close>, \<^verbatim>\<open>proposer_slashing.go\<close>) and \<open>Slashing_Pool\<close>
    (\<^verbatim>\<open>operations/slashings/pool.go\<close>): which slashings verify, whom they slash, the invariant of the pool over all its operations, and
    that what it hands out still slashes somebody.
  \<^item> Shuffling: \<open>Shuffle\<close> (\<^verbatim>\<open>core/helpers/shuffle.go\<close>), \<open>Committees\<close> (\<^verbatim>\<open>core/helpers/beacon_committee.go\<close>, \<^verbatim>\<open>cache/committee.go\<close>),
    \<open>Proposers\<close> (\<^verbatim>\<open>ComputeProposerIndex\<close>, \<^verbatim>\<open>PrecomputeProposerIndices\<close>): the list routine agrees with the index routine and is a
    permutation, committees split the active validators, the cache is transparent, the search for a proposer ends.
  \<^item> This theory connects the slasher with the pool.

  \<^bold>\<open>Interfaces.\<close> The locales are the contracts between parts, each interpreted on the definitions of the code: \<open>checked_uint64\<close> (epochs and
  slots), \<open>postorder\<close> (the weight pass and the best descendant pass over the tree), \<open>block_tree\<close> (the store under insertion),
  \<open>span_scheme\<close> (min and max spans), \<open>batch_queue\<close> (both queues of the slasher), \<open>multi_value_slice\<close> (the shared and the plain slice),
  \<open>pending_list\<close> (both lists of the pool), \<open>permuting\<close> (shuffling and unshuffling).

  \<^bold>\<open>Parameters and their hypotheses.\<close> What is not in the sources or not modelled is an argument: the hash function, signature checks
  (\<open>SigEnv\<close>), the caches and the proposer of a slot as the helpers on a state see them (\<open>CoreEnv\<close>; the committee cache of \<open>Committees\<close> is
  put in by \<open>cacheEnv\<close>), the database, the hash tree roots and the head state of the slasher (\<open>ServiceConfig\<close>; the pool is put in by
  \<open>poolInserter\<close>), the clock and the context of a call. The hypotheses on them are named predicates, each shown satisfiable by the
  witness of the property: \<open>counts_active\<close> (the committee cache has no count for the current epoch of a state
  or the right one; \<open>cacheEnv_counts\<close> shows it of the modelled cache), \<open>caches_ok\<close> and \<open>errors_ok\<close> (caches and signature checks do not
  return the errors of an exit or a slashing itself), \<open>cache_agrees\<close> (an entry belongs to its seed). The configuration is a record;
  \<open>cfg_ok\<close>, \<open>exit_cfg\<close>, \<open>shuffle_cfg\<close> and \<open>committee_cfg\<close> say what is needed of it, and mainnet satisfies them.

  \<^bold>\<open>Bounds and fuel.\<close> The recursions along pointers of the fork choice take the number of nodes of the heap as fuel, or the address of
  the node they start from; in a well-formed heap a child has a greater address than its parent, so that they end before the fuel does,
  and the theorems state the outcome without \<open>OutOfFuel\<close>. The update loops of a chunk have the number of epochs they can pass and two
  more, the loop over chunks \<open>2 * historyLength + 4\<close>, more than the epochs it can visit inside the history window; \<open>updateSpans_exact\<close> includes that they suffice.
  The Newton iteration, the shuffle rounds and swaps and the binary search are total functions with a termination proof. The search for a
  proposer has no bound in the code and is a partial function; \<open>proposer_found\<close> proves that it returns. Shuffled lists are at most
  \<open>2 ^ 40\<close> long, the limit the code checks.

  \<^bold>\<open>What the proofs found.\<close> Some properties state what the code does where it differs from what it is meant to do:
  \<open>surround_evidence_by_root\<close> below; \<open>NextChunkStartEpoch_wraps\<close> (the next chunk is computed from an index taken modulo the history, and
  its example misses surround votes);
  \<open>prune_leaves_conflicting_child\<close> (a pruned child stays linked below the tree root); \<open>CachedSquareRoot_MaxUint64_panics\<close>;
  \<open>StartTime_wraps\<close>; \<open>GetChunkFromDatabase_panics\<close>.

  \<^bold>\<open>Not modelled.\<close> Networking and synchronization, RPC and HTTP servers, the databases, the execution engine and builder clients, the
  validator client and its key management, command line tools: they are I/O around the parts above or generated code. Serialization and
  hash tree roots, BLS and KZG are third-party packages or parameters. Of the state transition, epoch processing, attestations, deposits,
  withdrawals, consolidations and sync committees are left out, of the committees the proposer index cache, the lookahead of the state
  and the aggregation bits of attestations. Locks, metrics, logs and tracing are left out throughout: an operation under a lock is one
  step of the model. \<^verbatim>\<open>IntegerSquareRoot\<close> of the math helpers uses floating point and is left out.
\<close>

section \<open>From the slasher to the pool\<close>

text \<open>The configuration of the slasher service with the slashing pool of the node, for the head state \<open>s\<close>. An insertion that fails is
  logged by the slasher, and the pool is what it left.\<close>

definition poolInserter :: "BeaconChainConfig \<Rightarrow> SigEnv \<Rightarrow> BeaconState \<Rightarrow> ('db, 'key, Pool) ServiceConfig \<Rightarrow> ('db, 'key, Pool) ServiceConfig" where
  "poolInserter bcfg sig s cfg = cfg\<lparr>
     InsertAttesterSlashing := \<lambda>sl p. snd (Pool_InsertAttesterSlashing bcfg sig s (Some sl) p),
     InsertProposerSlashing := \<lambda>sl p. snd (Pool_InsertProposerSlashing bcfg sig s sl p)\<rparr>"

text \<open>The attestations of a slashing in the order the slasher gives them.\<close>

lemma unifiedSlashing_order:
  assumes "w_IndexedAttestation e = Some ae" "w_IndexedAttestation i = Some ai"
  shows "\<exists>sl e' i'. unifiedSlashing e i = Inr (sl, e', i')
    \<and> attFields (FirstAttestation sl) = attFields (if w_DataRoot e > w_DataRoot i then ai else ae)
    \<and> attFields (SecondAttestation sl) = attFields (if w_DataRoot e > w_DataRoot i then ae else ai)"
  using assms by (cases ae; cases ai)
    (auto simp: unifiedSlashing_def unifyAttWrapperVersion_def attesterSlashing_def toElectra_def Let_def)

lemma surround_verified:
  assumes "att_Data (attFields (FirstAttestation sl)) = Some d1" "att_Data (attFields (SecondAttestation sl)) = Some d2"
    "hasCheckpoints d1" "hasCheckpoints d2" "surrounds d1 d2 \<or> surrounds d2 d1"
  shows "\<not> surrounds d1 d2 \<Longrightarrow> VerifyAttesterSlashing cfg sig s (Some sl) = Inl ErrNotSlashable"
    "surrounds d1 d2 \<Longrightarrow> VerifyAttesterSlashing cfg sig s (Some sl) = Inr () \<longleftrightarrow>
       indices_ok cfg (FirstAttestation sl) \<and> indices_ok cfg (SecondAttestation sl)
       \<and> sig_IndexedAtt sig s (FirstAttestation sl) = Inr () \<and> sig_IndexedAtt sig s (SecondAttestation sl) = Inr ()"
proof -
  have "\<not> doubleVotes d1 d2" using assms(5) by (auto simp: surrounds_def doubleVotes_def)
  then show "VerifyAttesterSlashing cfg sig s (Some sl) = Inl ErrNotSlashable" if "\<not> surrounds d1 d2"
    using that assms by (simp add: VerifyAttesterSlashing_def IsSlashableAttestationData_eq Let_def)
  show "VerifyAttesterSlashing cfg sig s (Some sl) = Inr () \<longleftrightarrow>
      indices_ok cfg (FirstAttestation sl) \<and> indices_ok cfg (SecondAttestation sl)
      \<and> sig_IndexedAtt sig s (FirstAttestation sl) = Inr () \<and> sig_IndexedAtt sig s (SecondAttestation sl) = Inr ()" if "surrounds d1 d2"
    using that assms VerifyIndexedAttestation_iff [OF assms(1,3)] VerifyIndexedAttestation_iff [OF assms(2,4)]
    by (auto simp: VerifyAttesterSlashing_def IsSlashableAttestationData_eq Let_def rbind_eq_Inr)
qed

text \<open>C23. The slasher orders the two attestations of a surround slashing by their data roots, while the verification accepts such a
  slashing only if its first attestation surrounds the second. So of two attestations with checkpoints, one surrounding the other, the
  slashing built is verified, up to indices and signatures, if the surrounding attestation has the lower root. If it has the higher
  one, the slashing is not slashable for the pool: the slasher reports it as processed, and the pool stays as it was.\<close>

theorem surround_evidence_by_root:
  assumes "w_IndexedAttestation e = Some ae" "w_IndexedAttestation i = Some ai" "att_Data (attFields ae) = Some de" "att_Data (attFields ai) = Some di"
    "hasCheckpoints de" "hasCheckpoints di" "surrounds de di \<or> surrounds di de" "headStateAvailable cfg = Inr ()"
  shows "\<exists>sl e' i'. unifiedSlashing e i = Inr (sl, e', i')
    \<and> (if (if w_DataRoot e > w_DataRoot i then surrounds di de else surrounds de di)
       then VerifyAttesterSlashing bcfg sig s (Some sl) = Inr () \<longleftrightarrow>
         indices_ok bcfg (FirstAttestation sl) \<and> indices_ok bcfg (SecondAttestation sl)
         \<and> sig_IndexedAtt sig s (FirstAttestation sl) = Inr () \<and> sig_IndexedAtt sig s (SecondAttestation sl) = Inr ()
       else VerifyAttesterSlashing bcfg sig s (Some sl) = Inl ErrNotSlashable
         \<and> (\<forall>root p. attSignatureValid cfg (FirstAttestation sl) \<and> attSignatureValid cfg (SecondAttestation sl) \<longrightarrow>
              processAttesterSlashings (poolInserter bcfg sig s cfg) [(root, sl)] p = (Inr [(root, sl)], p)))"
proof -
  let ?swap = "w_DataRoot e > w_DataRoot i"
  obtain sl e' i' where sl: "unifiedSlashing e i = Inr (sl, e', i')"
    "attFields (FirstAttestation sl) = attFields (if ?swap then ai else ae)" "attFields (SecondAttestation sl) = attFields (if ?swap then ae else ai)"
    using unifiedSlashing_order [OF assms(1,2)] by blast
  let ?d1 = "if ?swap then di else de" and ?d2 = "if ?swap then de else di"
  have d: "att_Data (attFields (FirstAttestation sl)) = Some ?d1" "att_Data (attFields (SecondAttestation sl)) = Some ?d2"
    "hasCheckpoints ?d1" "hasCheckpoints ?d2" "surrounds ?d1 ?d2 \<or> surrounds ?d2 ?d1"
    using sl(2,3) assms(3-7) by auto
  note v = surround_verified [OF d, of bcfg sig s]
  have rejected: "processAttesterSlashings (poolInserter bcfg sig s cfg) [(root, sl)] p = (Inr [(root, sl)], p)"
    if "VerifyAttesterSlashing bcfg sig s (Some sl) = Inl ErrNotSlashable" "attSignatureValid cfg (FirstAttestation sl)" "attSignatureValid cfg (SecondAttestation sl)" for root p
    using that assms(8) by (simp add: processAttesterSlashings_def poolInserter_def Pool_InsertAttesterSlashing_def)
  have "surrounds ?d1 ?d2 \<longleftrightarrow> (if ?swap then surrounds di de else surrounds de di)" by simp
  then show ?thesis using v rejected sl(1) by (intro exI [of _ sl] exI [of _ e'] exI [of _ i']) auto
qed

definition ex_pool_config :: "(unit, u64, Pool) ServiceConfig" where
  "ex_pool_config =
     \<lparr>AttestationRecordForValidator = (\<lambda>_ _ _. Inr None), SaveAttestationRecordsForValidators = (\<lambda>_ db. (Inr (), db)),
      CheckAttesterDoubleVotes = (\<lambda>_ _. Inr []), LoadSlasherChunks = (\<lambda>_ _ keys. Inr (map (\<lambda>_. []) keys, map (\<lambda>_. False) keys)),
      SaveSlasherChunks = (\<lambda>_ _ _ db. (Inr (), db)), CheckDoubleBlockProposals = (\<lambda>_ _. Inr []), SaveBlockProposals = (\<lambda>_ db. (Inr (), db)),
      LastEpochWrittenForValidators = (\<lambda>_ _. Inr []), PruneAttestationsAtEpoch = (\<lambda>_ db. (Inr 0, db)), PruneProposalsAtEpoch = (\<lambda>_ db. (Inr 0, db)),
      marshalUint64 = id, slashingRoot = (\<lambda>_. Inr 0), dataRoot = (\<lambda>_. Inr 0), headerRoot = (\<lambda>_. Inr 0), headStateAvailable = Inr (),
      attSignatureValid = (\<lambda>_. True), blockSignatureValid = (\<lambda>_. True), InsertAttesterSlashing = (\<lambda>_ p. p), InsertProposerSlashing = (\<lambda>_ p. p)\<rparr>"

text \<open>The validators 1 and 2 vote from 2 to 3 and later from 1 to 4, and the earlier vote has the lower root.\<close>

theorem surround_evidence_by_root_witness:
  "\<exists>sl e i. unifiedSlashing
      \<lparr>w_IndexedAttestation = Some (IndexedAttestation (ex_att [1, 2] (ex_data 2 3 0))), w_DataRoot = 5\<rparr>
      \<lparr>w_IndexedAttestation = Some (IndexedAttestation (ex_att [1, 2] (ex_data 1 4 0))), w_DataRoot = 6\<rparr> = Inr (sl, e, i)
    \<and> VerifyAttesterSlashing mainnetBeaconConfig ex_sig ex_state (Some sl) = Inl ErrNotSlashable
    \<and> processAttesterSlashings (poolInserter mainnetBeaconConfig ex_sig ex_state ex_pool_config) [(7, sl)] NewPool = (Inr [(7, sl)], NewPool)"
  using surround_evidence_by_root
    [of "\<lparr>w_IndexedAttestation = Some (IndexedAttestation (ex_att [1, 2] (ex_data 2 3 0))), w_DataRoot = 5\<rparr>"
        "IndexedAttestation (ex_att [1, 2] (ex_data 2 3 0))"
        "\<lparr>w_IndexedAttestation = Some (IndexedAttestation (ex_att [1, 2] (ex_data 1 4 0))), w_DataRoot = 6\<rparr>"
        "IndexedAttestation (ex_att [1, 2] (ex_data 1 4 0))" "ex_data 2 3 0" "ex_data 1 4 0" ex_pool_config mainnetBeaconConfig ex_sig ex_state]
  by (auto simp: ex_att_def ex_data_def hasCheckpoints_def surrounds_def dataSource_def dataTarget_def ex_pool_config_def)

end
